(* ===== verification/Prelude.thy ===== *)
theory Prelude
  imports Main "HOL-Library.Word"
begin

unbundle bit_operations_syntax

section \<open>Shared types, collections and lemmas\<close>

text \<open>
  What every component of the development uses: the machine integers at their C++ widths, the
  object representation of an unsigned integer (the bytes \<^verbatim>\<open>memcpy\<close> moves in and out of it), and the
  collections of rewrite and introduction rules the components fill:
  \<^item> \<open>write_simps\<close>: the bytes a serialiser writes;
  \<^item> \<open>run_simps\<close>: how a deserialiser runs on a list of bytes;
  \<^item> \<open>bounded_intros\<close>: the deserialisers whose single reads stay below a limit.
\<close>

type_synonym byte = "8 word"
type_synonym u16 = "16 word"
type_synonym u32 = "32 word"
type_synonym u64 = "64 word"

named_theorems write_simps \<open>bytes written by the serialisers\<close>
named_theorems run_simps \<open>runs of the deserialisers on a list of bytes\<close>
named_theorems bounded_intros \<open>limits on the reads a deserialiser issues\<close>

subsection \<open>Bytes of a word, least significant first\<close>

fun le_bytes :: "nat \<Rightarrow> 'a::len word \<Rightarrow> byte list" where
  "le_bytes 0 x = []"
| "le_bytes (Suc n) x = ucast x # le_bytes n (drop_bit 8 x)"

fun le_word :: "byte list \<Rightarrow> 'a::len word" where
  "le_word [] = 0"
| "le_word (b # bs) = ucast b OR push_bit 8 (le_word bs)"

lemma length_le_bytes [simp]: "length (le_bytes n x) = n"
  by (induction n arbitrary: x) auto

lemma le_bytes_eq_Nil_iff [simp]: "le_bytes n x = [] \<longleftrightarrow> n = 0"
  by (cases n) auto

lemma nth_le_bytes: "i < n \<Longrightarrow> le_bytes n x ! i = ucast (drop_bit (8 * i) x)"
proof (induction n arbitrary: x i)
  case 0
  then show ?case by simp
next
  case (Suc n)
  then show ?case by (cases i) (simp_all add: ac_simps)
qed

lemma bit_le_word:
  "bit (le_word bs :: 'a::len word) k \<longleftrightarrow>
     k < LENGTH('a) \<and> k div 8 < length bs \<and> bit (bs ! (k div 8)) (k mod 8)"
proof (induction bs arbitrary: k)
  case Nil
  then show ?case by simp
next
  case (Cons b bs)
  show ?case
  proof (cases "k < 8")
    case True
    then show ?thesis by (auto simp: bit_simps)
  next
    case False
    then obtain j where k: "k = j + 8" by (metis add.commute le_Suc_ex not_less)
    have high: "\<not> bit b (j + 8)"
      by (auto dest: bit_imp_le_length)
    have "bit (le_word (b # bs) :: 'a word) k \<longleftrightarrow> k < LENGTH('a) \<and> bit (le_word bs :: 'a word) j"
      using k high by (auto simp: bit_simps)
    also have "\<dots> \<longleftrightarrow> k < LENGTH('a) \<and> j div 8 < length bs \<and> bit (bs ! (j div 8)) (j mod 8)"
      using k by (auto simp: Cons.IH)
    moreover have "(j + 8) div 8 = Suc (j div 8)" "(j + 8) mod 8 = j mod 8" by auto
    ultimately show ?thesis using k by simp
  qed
qed

lemma le_word_le_bytes: "le_word (le_bytes n x) = take_bit (8 * n) (x :: 'a::len word)"
proof (rule bit_eqI)
  fix k assume "possible_bit TYPE('a word) k"
  then have k: "k < LENGTH('a)" by simp
  show "bit (le_word (le_bytes n x) :: 'a word) k \<longleftrightarrow> bit (take_bit (8 * n) x) k"
  proof (cases "k div 8 < n")
    case True
    then have "bit (le_bytes n x ! (k div 8)) (k mod 8) \<longleftrightarrow> bit x (8 * (k div 8) + k mod 8)"
      by (simp add: nth_le_bytes bit_simps)
    with True k show ?thesis by (auto simp: bit_le_word bit_simps)
  next
    case False
    then show ?thesis by (auto simp: bit_le_word bit_simps)
  qed
qed

lemma le_word_le_bytes_id:
  "LENGTH('a) \<le> 8 * n \<Longrightarrow> le_word (le_bytes n x) = (x :: 'a::len word)"
  by (simp add: le_word_le_bytes take_bit_word_eq_self)

lemma le_bytes_le_word:
  assumes "length bs = n" "8 * n \<le> LENGTH('a)"
  shows "le_bytes n (le_word bs :: 'a::len word) = bs"
proof (rule nth_equalityI)
  fix i assume "i < length (le_bytes n (le_word bs :: 'a word))"
  then have i: "i < n" by simp
  show "le_bytes n (le_word bs :: 'a word) ! i = bs ! i"
  proof (rule bit_eqI)
    fix k assume "possible_bit TYPE(8 word) k"
    then have k: "k < 8" by simp
    then have "(8 * i + k) div 8 = i" "(8 * i + k) mod 8 = k" by auto
    with i k assms show "bit (le_bytes n (le_word bs :: 'a word) ! i) k \<longleftrightarrow> bit (bs ! i) k"
      by (simp add: nth_le_bytes bit_simps bit_le_word)
  qed
qed (simp add: assms)

lemma le_bytes_inject:
  "LENGTH('a) \<le> 8 * n \<Longrightarrow> le_bytes n x = le_bytes n y \<longleftrightarrow> x = (y :: 'a::len word)"
  by (metis le_word_le_bytes_id)

text \<open>Reading four or eight bytes of a list at a time, as arithmetic on the bytes' values.\<close>

lemma uint_le_word_less: "uint (le_word bs :: 'a::len word) < 2 ^ (8 * length bs)"
proof -
  have "le_word bs = take_bit (8 * length bs) (le_word bs :: 'a word)"
    by (rule bit_eqI) (auto simp: bit_le_word bit_simps)
  then have "uint (le_word bs :: 'a word) = take_bit (8 * length bs) (uint (le_word bs :: 'a word))"
    by (metis unsigned_take_bit_eq)
  then show ?thesis by (metis take_bit_int_less_exp)
qed

subsection \<open>Widening and narrowing\<close>

lemma unat_ucast_up:
  "LENGTH('a) \<le> LENGTH('b) \<Longrightarrow> unat (ucast (x :: 'a::len word) :: 'b::len word) = unat x"
  by (simp add: unsigned_ucast_eq take_bit_nat_eq_self_iff)
    (meson less_le_trans one_le_numeral power_increasing unsigned_less)

lemma unat_ucast_less:
  "unat x < 2 ^ LENGTH('b) \<Longrightarrow> unat (ucast (x :: 'a::len word) :: 'b::len word) = unat x"
  by (simp add: unsigned_ucast_eq take_bit_nat_eq_self_iff)

lemma ucast_ucast_up:
  "LENGTH('a) \<le> LENGTH('b) \<Longrightarrow> ucast (ucast (x :: 'a::len word) :: 'b::len word) = x"
  by (rule bit_eqI) (auto simp: bit_simps dest: bit_imp_le_length)

lemma ucast_ucast_less:
  assumes "unat x < 2 ^ LENGTH('b)"
  shows "ucast (ucast (x :: 'a::len word) :: 'b::len word) = x"
proof -
  have "unat (ucast (ucast x :: 'b word) :: 'a word) = take_bit LENGTH('a) (unat (ucast x :: 'b word))"
    by (rule unsigned_ucast_eq)
  also have "\<dots> = unat x"
    using assms by (simp add: unat_ucast_less take_bit_nat_eq_self_iff unsigned_less)
  finally show ?thesis by (simp add: word_unat_eq_iff)
qed

lemma unat_bounds [simp]:
  "unat (b :: byte) < 256" "unat (x :: u16) < 65536" "unat (y :: u32) < 4294967296"
  "unat (z :: u64) < 18446744073709551616" "unat (x :: u16) < 4294967296"
  using unsigned_less [of b, where 'a = nat] unsigned_less [of x, where 'a = nat]
    unsigned_less [of y, where 'a = nat] unsigned_less [of z, where 'a = nat]
  by simp_all

lemma uint_not_minus_1 [simp]: "uint v \<noteq> -1"
proof -
  have "0 \<le> uint v" by simp
  then show ?thesis by linarith
qed

lemma unat_u64_not_greater [simp]: "\<not> 18446744073709551615 < unat (z :: u64)"
  using unat_bounds(4) [of z] by (simp only: not_less)

lemma word_xor_zero_iff: "x XOR y = 0 \<longleftrightarrow> x = (y :: 'a::len word)"
proof
  assume "x XOR y = 0"
  then have "(x XOR y) XOR y = y" by simp
  then show "x = y" by (simp add: xor.assoc)
qed simp

lemma sint_word_of_int:
  "- (2 ^ (LENGTH('a) - 1)) \<le> k \<Longrightarrow> k < 2 ^ (LENGTH('a) - 1) \<Longrightarrow>
   sint (word_of_int k :: 'a::len word) = k"
  by (simp add: signed_of_int signed_take_bit_int_eq_self)

subsection \<open>The lowest bits of a word, most significant first\<close>

definition low_bits :: "nat \<Rightarrow> 'a::len word \<Rightarrow> bool list" where
  "low_bits n d = map (\<lambda>i. bit d (n - 1 - i)) [0..<n]"

lemma length_low_bits [simp]: "length (low_bits n d) = n"
  by (simp add: low_bits_def)

lemma nth_low_bits [simp]: "i < n \<Longrightarrow> low_bits n d ! i = bit d (n - 1 - i)"
  by (simp add: low_bits_def)

lemma low_bits_0 [simp]: "low_bits 0 d = []"
  by (simp add: low_bits_def)

lemma low_bits_split: "k \<le> n \<Longrightarrow> low_bits n d = take k (low_bits n d) @ low_bits (n - k) d"
  by (rule nth_equalityI) (auto simp: low_bits_def nth_append)

lemma low_bits_inject:
  assumes "low_bits n x = low_bits n y" "\<And>i. n \<le> i \<Longrightarrow> \<not> bit x i" "\<And>i. n \<le> i \<Longrightarrow> \<not> bit y i"
  shows "x = y"
proof (rule bit_eqI)
  fix i
  show "bit x i \<longleftrightarrow> bit y i"
  proof (cases "i < n")
    case True
    then have "low_bits n x ! (n - 1 - i) = low_bits n y ! (n - 1 - i)" using assms(1) by simp
    with True show ?thesis by simp
  next
    case False
    with assms(2,3) show ?thesis by auto
  qed
qed

subsection \<open>Lists\<close>

lemma take_drop_append_len [simp]:
  "n = length xs \<Longrightarrow> take n (xs @ ys) = xs" "n = length xs \<Longrightarrow> drop n (xs @ ys) = ys"
  by auto

lemma takeWhile_pad:
  "\<forall>c \<in> set w. P c \<Longrightarrow> \<not> P e \<Longrightarrow>
   takeWhile P (w @ replicate n e) = w \<and> dropWhile P (w @ replicate n e) = replicate n e"
proof (induction w)
  case Nil
  then show ?case by (cases n) auto
qed auto

lemma padded_length: "0 < m \<Longrightarrow> (n + (m - n mod m) mod m) mod m = (0 :: nat)"
proof -
  assume m: "0 < m"
  have "n mod m < m" using m by simp
  then have "n + (m - n mod m) = m * (n div m) + m"
    using mult_div_mod_eq [of m n] by linarith
  then have "(n + (m - n mod m)) mod m = 0" by simp
  then show ?thesis by (simp only: mod_add_right_eq)
qed

lemma takeWhile_length_eq: "length (takeWhile P xs) = length xs \<Longrightarrow> takeWhile P xs = xs"
  by (induction xs) (auto split: if_splits)

end
