(* ===== verification/Endian.thy ===== *)
theory Endian
  imports Prelude
begin

section \<open>Byte order: compat_byteswap.h, comapt_endian.h, crypto_common.h\<close>

text \<open>
  The three headers that turn integers into bytes. A host is its memory order (what \<^verbatim>\<open>memcpy\<close>
  reads out of an integer) together with the branch of \<^verbatim>\<open>comapt_endian.h\<close> the preprocessor takes for
  it. The locale \<open>endian_host\<close> is the contract the rest of the code relies on: converting and then
  copying gives the bytes of the requested order, whatever the host. Both branches meet it.
\<close>

subsection \<open>Byte swaps\<close>

definition bswap_16 :: "u16 \<Rightarrow> u16" where
  "bswap_16 x = drop_bit 8 x OR push_bit 8 x"

definition bswap_32 :: "u32 \<Rightarrow> u32" where
  "bswap_32 x =
     (drop_bit 24 (x AND 0xff000000) OR drop_bit 8 (x AND 0x00ff0000)) OR
     push_bit 8 (x AND 0x0000ff00) OR push_bit 24 (x AND 0x000000ff)"

definition bswap_64 :: "u64 \<Rightarrow> u64" where
  "bswap_64 x =
     drop_bit 56 (x AND 0xff00000000000000)
     OR drop_bit 40 (x AND 0x00ff000000000000)
     OR drop_bit 24 (x AND 0x0000ff0000000000)
     OR drop_bit 8 (x AND 0x000000ff00000000)
     OR push_bit 8 (x AND 0x00000000ff000000)
     OR push_bit 24 (x AND 0x0000000000ff0000)
     OR push_bit 40 (x AND 0x000000000000ff00)
     OR push_bit 56 (x AND 0x00000000000000ff)"

lemma mask_byte_numerals:
  "(0xff :: 'a::len word) = mask 8"
  "(0xff00 :: 'a word) = push_bit 8 (mask 8)"
  "(0xff0000 :: 'a word) = push_bit 16 (mask 8)"
  "(0xff000000 :: 'a word) = push_bit 24 (mask 8)"
  "(0xff00000000 :: 'a word) = push_bit 32 (mask 8)"
  "(0xff0000000000 :: 'a word) = push_bit 40 (mask 8)"
  "(0xff000000000000 :: 'a word) = push_bit 48 (mask 8)"
  "(0xff00000000000000 :: 'a word) = push_bit 56 (mask 8)"
  by (simp_all add: mask_eq_exp_minus_1 push_bit_eq_mult)

lemma le_bytes_2: "le_bytes 2 x = [ucast x, ucast (drop_bit 8 x)]"
  by (simp add: eval_nat_numeral)

lemma le_bytes_4:
  "le_bytes 4 x = [ucast x, ucast (drop_bit 8 x), ucast (drop_bit 16 x), ucast (drop_bit 24 x)]"
  by (rule nth_equalityI) (auto simp: nth_le_bytes less_Suc_eq numeral_eq_Suc)

lemma le_bytes_8:
  "le_bytes 8 x = [ucast x, ucast (drop_bit 8 x), ucast (drop_bit 16 x), ucast (drop_bit 24 x),
     ucast (drop_bit 32 x), ucast (drop_bit 40 x), ucast (drop_bit 48 x), ucast (drop_bit 56 x)]"
  by (rule nth_equalityI) (auto simp: nth_le_bytes less_Suc_eq numeral_eq_Suc)

lemma byte_eqI: "(\<And>n. n < 8 \<Longrightarrow> bit a n \<longleftrightarrow> bit b n) \<Longrightarrow> a = (b :: byte)"
  by (rule bit_eqI) simp

lemma le_bytes_bswap_16: "le_bytes 2 (bswap_16 x) = rev (le_bytes 2 x)"
  by (auto simp: bswap_16_def le_bytes_2 bit_simps intro!: byte_eqI)

lemma le_bytes_bswap_32: "le_bytes 4 (bswap_32 x) = rev (le_bytes 4 x)"
  unfolding bswap_32_def mask_byte_numerals le_bytes_4
  by (auto simp: bit_simps simp del: push_bit_numeral intro!: byte_eqI)

lemma le_bytes_bswap_64: "le_bytes 8 (bswap_64 x) = rev (le_bytes 8 x)"
  unfolding bswap_64_def mask_byte_numerals le_bytes_8
  by (auto simp: bit_simps intro!: byte_eqI)

subsection \<open>A host: its memory order and the branch of comapt_endian.h it compiles\<close>

record host =
  msb_first :: bool
  htobe16 :: "u16 \<Rightarrow> u16"
  htole16 :: "u16 \<Rightarrow> u16"
  be16toh :: "u16 \<Rightarrow> u16"
  le16toh :: "u16 \<Rightarrow> u16"
  htobe32 :: "u32 \<Rightarrow> u32"
  htole32 :: "u32 \<Rightarrow> u32"
  be32toh :: "u32 \<Rightarrow> u32"
  le32toh :: "u32 \<Rightarrow> u32"
  htobe64 :: "u64 \<Rightarrow> u64"
  htole64 :: "u64 \<Rightarrow> u64"
  be64toh :: "u64 \<Rightarrow> u64"
  le64toh :: "u64 \<Rightarrow> u64"

definition big_host :: host where
  "big_host = \<lparr>msb_first = True,
     htobe16 = (\<lambda>host_16bits. host_16bits), htole16 = (\<lambda>host_16bits. bswap_16 host_16bits),
     be16toh = (\<lambda>big_endian_16bits. big_endian_16bits),
     le16toh = (\<lambda>little_endian_16bits. bswap_16 little_endian_16bits),
     htobe32 = (\<lambda>host_32bits. host_32bits), htole32 = (\<lambda>host_32bits. bswap_32 host_32bits),
     be32toh = (\<lambda>big_endian_32bits. big_endian_32bits),
     le32toh = (\<lambda>little_endian_32bits. bswap_32 little_endian_32bits),
     htobe64 = (\<lambda>host_64bits. host_64bits), htole64 = (\<lambda>host_64bits. bswap_64 host_64bits),
     be64toh = (\<lambda>big_endian_64bits. big_endian_64bits),
     le64toh = (\<lambda>little_endian_64bits. bswap_64 little_endian_64bits)\<rparr>"

definition little_host :: host where
  "little_host = \<lparr>msb_first = False,
     htobe16 = (\<lambda>host_16bits. bswap_16 host_16bits), htole16 = (\<lambda>host_16bits. host_16bits),
     be16toh = (\<lambda>big_endian_16bits. bswap_16 big_endian_16bits),
     le16toh = (\<lambda>little_endian_16bits. little_endian_16bits),
     htobe32 = (\<lambda>host_32bits. bswap_32 host_32bits), htole32 = (\<lambda>host_32bits. host_32bits),
     be32toh = (\<lambda>big_endian_32bits. bswap_32 big_endian_32bits),
     le32toh = (\<lambda>little_endian_32bits. little_endian_32bits),
     htobe64 = (\<lambda>host_64bits. bswap_64 host_64bits), htole64 = (\<lambda>host_64bits. host_64bits),
     be64toh = (\<lambda>big_endian_64bits. bswap_64 big_endian_64bits),
     le64toh = (\<lambda>little_endian_64bits. little_endian_64bits)\<rparr>"

text \<open>What \<^verbatim>\<open>memcpy\<close> reads out of, and writes into, an unsigned object of \<open>n\<close> bytes.\<close>

definition mem_of_word :: "host \<Rightarrow> nat \<Rightarrow> 'a::len word \<Rightarrow> byte list" where
  "mem_of_word H n x = (if msb_first H then rev (le_bytes n x) else le_bytes n x)"

definition word_of_mem :: "host \<Rightarrow> byte list \<Rightarrow> 'a::len word" where
  "word_of_mem H bs = le_word (if msb_first H then rev bs else bs)"

text \<open>Writing a block of bytes over a buffer at an offset.\<close>

definition copy_to :: "byte list \<Rightarrow> nat \<Rightarrow> byte list \<Rightarrow> byte list" where
  "copy_to mem off bs = take off mem @ bs @ drop (off + length bs) mem"

subsection \<open>crypto_common.h\<close>

definition ReadLE16 :: "host \<Rightarrow> byte list \<Rightarrow> u16" where
  "ReadLE16 H ptr = le16toh H (word_of_mem H (take 2 ptr))"

definition ReadLE32 :: "host \<Rightarrow> byte list \<Rightarrow> u32" where
  "ReadLE32 H ptr = le32toh H (word_of_mem H (take 4 ptr))"

definition ReadLE64 :: "host \<Rightarrow> byte list \<Rightarrow> u64" where
  "ReadLE64 H ptr = le64toh H (word_of_mem H (take 8 ptr))"

definition WriteLE16 :: "host \<Rightarrow> byte list \<Rightarrow> nat \<Rightarrow> u16 \<Rightarrow> byte list" where
  "WriteLE16 H mem ptr x = copy_to mem ptr (mem_of_word H 2 (htole16 H x))"

definition WriteLE32 :: "host \<Rightarrow> byte list \<Rightarrow> nat \<Rightarrow> u32 \<Rightarrow> byte list" where
  "WriteLE32 H mem ptr x = copy_to mem ptr (mem_of_word H 4 (htole32 H x))"

definition WriteLE64 :: "host \<Rightarrow> byte list \<Rightarrow> nat \<Rightarrow> u64 \<Rightarrow> byte list" where
  "WriteLE64 H mem ptr x = copy_to mem ptr (mem_of_word H 8 (htole64 H x))"

definition ReadBE32 :: "host \<Rightarrow> byte list \<Rightarrow> u32" where
  "ReadBE32 H ptr = be32toh H (word_of_mem H (take 4 ptr))"

definition ReadBE64 :: "host \<Rightarrow> byte list \<Rightarrow> u64" where
  "ReadBE64 H ptr = be64toh H (word_of_mem H (take 8 ptr))"

definition WriteBE32 :: "host \<Rightarrow> byte list \<Rightarrow> nat \<Rightarrow> u32 \<Rightarrow> byte list" where
  "WriteBE32 H mem ptr x = copy_to mem ptr (mem_of_word H 4 (htobe32 H x))"

definition WriteBE64 :: "host \<Rightarrow> byte list \<Rightarrow> nat \<Rightarrow> u64 \<Rightarrow> byte list" where
  "WriteBE64 H mem ptr x = copy_to mem ptr (mem_of_word H 8 (htobe64 H x))"

text \<open>The portable loop of \<^verbatim>\<open>CountBits\<close>: neither \<^verbatim>\<open>clz\<close> builtin is declared by the build files.\<close>

function CountBits_loop :: "u64 \<Rightarrow> nat \<Rightarrow> nat" where
  "CountBits_loop x ret = (if x \<noteq> 0 then CountBits_loop (drop_bit 1 x) (ret + 1) else ret)"
  by pat_completeness auto
termination
proof (relation "measure (\<lambda>(x, _). unat x)")
  show "wf (measure (\<lambda>(x, _). unat (x :: u64)))" by simp
  fix x :: u64 and ret :: nat
  assume "x \<noteq> 0"
  then have "0 < unat x" by (simp add: unat_gt_0)
  then show "((drop_bit 1 x, ret + 1), (x, ret)) \<in> measure (\<lambda>(x, _). unat x)"
    by (simp add: drop_bit_eq_div unat_div del: One_nat_def)
qed

declare CountBits_loop.simps [simp del]

definition CountBits :: "u64 \<Rightarrow> nat" where
  "CountBits x = CountBits_loop x 0"

subsection \<open>The contract of a host\<close>

locale endian_host =
  fixes H :: host
  assumes le16_out: "mem_of_word H 2 (htole16 H x) = le_bytes 2 x"
    and le32_out: "mem_of_word H 4 (htole32 H y) = le_bytes 4 y"
    and le64_out: "mem_of_word H 8 (htole64 H z) = le_bytes 8 z"
    and be16_out: "mem_of_word H 2 (htobe16 H x) = rev (le_bytes 2 x)"
    and be32_out: "mem_of_word H 4 (htobe32 H y) = rev (le_bytes 4 y)"
    and be64_out: "mem_of_word H 8 (htobe64 H z) = rev (le_bytes 8 z)"
    and le16_in: "length bs = 2 \<Longrightarrow> le16toh H (word_of_mem H bs) = le_word bs"
    and le32_in: "length bs = 4 \<Longrightarrow> le32toh H (word_of_mem H bs) = le_word bs"
    and le64_in: "length bs = 8 \<Longrightarrow> le64toh H (word_of_mem H bs) = le_word bs"
    and be16_in: "length bs = 2 \<Longrightarrow> be16toh H (word_of_mem H bs) = le_word (rev bs)"
    and be32_in: "length bs = 4 \<Longrightarrow> be32toh H (word_of_mem H bs) = le_word (rev bs)"
    and be64_in: "length bs = 8 \<Longrightarrow> be64toh H (word_of_mem H bs) = le_word (rev bs)"
begin

lemma le_roundtrip:
  "off + 4 \<le> length mem \<Longrightarrow> ReadLE32 H (drop off (WriteLE32 H mem off y)) = y"
  "off + 2 \<le> length mem \<Longrightarrow> ReadLE16 H (drop off (WriteLE16 H mem off x)) = x"
  "off + 8 \<le> length mem \<Longrightarrow> ReadLE64 H (drop off (WriteLE64 H mem off z)) = z"
  by (simp_all add: ReadLE32_def WriteLE32_def ReadLE16_def WriteLE16_def ReadLE64_def
      WriteLE64_def copy_to_def le32_out le32_in le16_out le16_in le64_out le64_in
      le_word_le_bytes_id)

lemma be_roundtrip:
  "off + 4 \<le> length mem \<Longrightarrow> ReadBE32 H (drop off (WriteBE32 H mem off y)) = y"
  "off + 8 \<le> length mem \<Longrightarrow> ReadBE64 H (drop off (WriteBE64 H mem off z)) = z"
  by (simp_all add: ReadBE32_def WriteBE32_def ReadBE64_def WriteBE64_def copy_to_def
      be32_out be32_in be64_out be64_in le_word_le_bytes_id)

lemma write_le:
  "WriteLE16 H mem off x = copy_to mem off (le_bytes 2 x)"
  "WriteLE32 H mem off y = copy_to mem off (le_bytes 4 y)"
  "WriteLE64 H mem off z = copy_to mem off (le_bytes 8 z)"
  by (simp_all add: WriteLE16_def WriteLE32_def WriteLE64_def le16_out le32_out le64_out)

lemma write_be:
  "WriteBE32 H mem off y = copy_to mem off (rev (le_bytes 4 y))"
  "WriteBE64 H mem off z = copy_to mem off (rev (le_bytes 8 z))"
  by (simp_all add: WriteBE32_def WriteBE64_def be32_out be64_out)

end

lemmas host_defs = big_host_def little_host_def mem_of_word_def word_of_mem_def

lemma bswap_involutive:
  "bswap_16 (bswap_16 x) = x" "bswap_32 (bswap_32 y) = y" "bswap_64 (bswap_64 z) = z"
proof -
  have "le_bytes 2 (bswap_16 (bswap_16 x)) = le_bytes 2 x" by (simp add: le_bytes_bswap_16)
  then show "bswap_16 (bswap_16 x) = x" by (simp add: le_bytes_inject)
  have "le_bytes 4 (bswap_32 (bswap_32 y)) = le_bytes 4 y" by (simp add: le_bytes_bswap_32)
  then show "bswap_32 (bswap_32 y) = y" by (simp add: le_bytes_inject)
  have "le_bytes 8 (bswap_64 (bswap_64 z)) = le_bytes 8 z" by (simp add: le_bytes_bswap_64)
  then show "bswap_64 (bswap_64 z) = z" by (simp add: le_bytes_inject)
qed

lemma bswap_eq_le_word:
  "bswap_16 x = le_word (rev (le_bytes 2 x))"
  "bswap_32 y = le_word (rev (le_bytes 4 y))"
  "bswap_64 z = le_word (rev (le_bytes 8 z))"
  by (simp_all add: le_bytes_bswap_16 [symmetric] le_bytes_bswap_32 [symmetric]
      le_bytes_bswap_64 [symmetric] le_word_le_bytes_id)

lemma bswap_le_word:
  "length bs = 2 \<Longrightarrow> bswap_16 (le_word bs) = le_word (rev bs)"
  "length bs = 4 \<Longrightarrow> bswap_32 (le_word bs) = le_word (rev bs)"
  "length bs = 8 \<Longrightarrow> bswap_64 (le_word bs) = le_word (rev bs)"
  by (simp_all add: bswap_eq_le_word le_bytes_le_word)

interpretation big: endian_host big_host
  by unfold_locales
    (simp_all add: host_defs le_bytes_bswap_16 le_bytes_bswap_32 le_bytes_bswap_64 bswap_le_word)

interpretation little: endian_host little_host
  by unfold_locales
    (simp_all add: host_defs le_bytes_bswap_16 le_bytes_bswap_32 le_bytes_bswap_64 bswap_le_word)

subsection \<open>Properties\<close>

lemma CountBits_loop_spec:
  "drop_bit (CountBits_loop x ret - ret) x = 0 \<and> ret \<le> CountBits_loop x ret \<and>
   (\<forall>m < CountBits_loop x ret - ret. drop_bit m x \<noteq> 0)"
proof (induction x ret rule: CountBits_loop.induct)
  case (1 x ret)
  show ?case
  proof (cases "x = 0")
    case True
    then show ?thesis by (simp add: CountBits_loop.simps)
  next
    case False
    let ?c = "CountBits_loop (drop_bit 1 x) (ret + 1)"
    have IH: "drop_bit (?c - (ret + 1)) (drop_bit 1 x) = 0" "ret + 1 \<le> ?c"
      "\<forall>m < ?c - (ret + 1). drop_bit m (drop_bit 1 x) \<noteq> 0"
      using "1.IH" [OF False] by blast+
    have c: "CountBits_loop x ret = ?c" using False by (subst CountBits_loop.simps) simp
    have split: "?c - ret = Suc (?c - (ret + 1))" using IH(2) by simp
    have "drop_bit (?c - ret) x = 0"
      using IH(1) unfolding split by simp
    moreover have "drop_bit m x \<noteq> 0" if m: "m < ?c - ret" for m
    proof (cases m)
      case 0
      then show ?thesis using False by simp
    next
      case (Suc k)
      then have "k < ?c - (ret + 1)" using m by simp
      with IH(3) have "drop_bit k (drop_bit 1 x) \<noteq> 0" by blast
      then show ?thesis using Suc by simp
    qed
    ultimately show ?thesis using c IH(2) by simp
  qed
qed

text \<open>What one host writes in little-endian order any host reads back: the two preprocessor
  branches of the byte-order headers are interchangeable, at each width.\<close>

theorem cross_host_read_write:
  assumes H: "H \<in> {big_host, little_host}" and G: "G \<in> {big_host, little_host}"
    and fits: "off + 8 \<le> length mem"
  shows "ReadLE16 H (drop off (WriteLE16 G mem off x)) = x
    \<and> ReadLE32 H (drop off (WriteLE32 G mem off y)) = y
    \<and> ReadLE64 H (drop off (WriteLE64 G mem off z)) = z
    \<and> ReadBE32 H (drop off (WriteBE32 G mem off y)) = y
    \<and> ReadBE64 H (drop off (WriteBE64 G mem off z)) = z"
proof -
  have W: "WriteLE16 G mem off x = WriteLE16 H mem off x"
    "WriteLE32 G mem off y = WriteLE32 H mem off y"
    "WriteLE64 G mem off z = WriteLE64 H mem off z"
    "WriteBE32 G mem off y = WriteBE32 H mem off y"
    "WriteBE64 G mem off z = WriteBE64 H mem off z"
    using H G by (auto simp: big.write_le little.write_le big.write_be little.write_be)
  show ?thesis
    using H fits unfolding W
    by (auto simp: big.le_roundtrip big.be_roundtrip little.le_roundtrip little.be_roundtrip)
qed

theorem cross_host_read_write_witness:
  "ReadLE16 big_host (drop 1 (WriteLE16 little_host (replicate 9 0) 1 513)) = 513
    \<and> ReadLE32 big_host (drop 1 (WriteLE32 little_host (replicate 9 0) 1 67305985)) = 67305985
    \<and> ReadLE64 big_host (drop 1 (WriteLE64 little_host (replicate 9 0) 1 578437695752307201)) = 578437695752307201
    \<and> ReadBE32 big_host (drop 1 (WriteBE32 little_host (replicate 9 0) 1 67305985)) = 67305985
    \<and> ReadBE64 big_host (drop 1 (WriteBE64 little_host (replicate 9 0) 1 578437695752307201)) = 578437695752307201"
  by (rule cross_host_read_write) simp_all

text \<open>\<open>CountBits\<close> returns the least shift that makes its argument zero.\<close>

theorem CountBits_least:
  "drop_bit (CountBits x) x = 0 \<and> (\<forall>m. drop_bit m x = 0 \<longrightarrow> CountBits x \<le> m)"
  using CountBits_loop_spec [of x 0] by (auto simp: CountBits_def not_less [symmetric])

theorem CountBits_least_witness: "CountBits 0x1234 \<le> 13"
  using CountBits_least [of "0x1234"] by auto

end
