(* ===== verification/Serialize.thy ===== *)
theory Serialize
  imports Endian
begin

section \<open>The serialisation templates: serialize.h\<close>

text \<open>
  \<^verbatim>\<open>serialize.h\<close> is a set of templates over a \<^verbatim>\<open>Stream\<close> that only offers \<^verbatim>\<open>write(ptr, n)\<close> and
  \<^verbatim>\<open>read(ptr, n)\<close>. A serialiser is modelled by the calls it makes on the stream, in order
  (\<open>wop list\<close>); \<^verbatim>\<open>WriteCompactSize\<close> and \<^verbatim>\<open>WriteVarInt\<close> are kept as calls of their own, because
  \<^verbatim>\<open>CSizeComputer\<close> overloads them. A deserialiser is a \<open>reader\<close>: a program whose only effect is \<open>Read n\<close>, which hands it the \<open>n\<close>
  bytes read, and which ends by returning a value or by throwing \<^verbatim>\<open>std::ios_base::failure\<close>.
  \<open>run rd p s\<close> is the instance of the template for the stream whose \<^verbatim>\<open>read\<close> is \<open>rd\<close>; \<open>list_read\<close> is the
  plain list of the bytes still to be read, against which the streams are verified.
  The host is the little-endian one the build targets; theory \<open>Endian\<close> shows the other one
  writes the same bytes.
\<close>

abbreviation target :: host where
  "target \<equiv> little_host"

datatype failure =
    End_of_data
  | ReadCompactSize_non_canonical
  | ReadCompactSize_too_large
  | ReadVarInt_too_large
  | String_length_limit_exceeded
  | Unknown_transaction_optional_data
  | Read_past_buffer_limit
  | Read_larger_than_buffer
  | Ignore_negative
  | Out_of_bounds_access
  | End_of_file
  | Fread_failed
  | Write_failed
  | File_handle_is_nullptr
  | Nbits_out_of_range
  | Does_not_return
  | Null_stream

text \<open>
  Three of them are no exceptions: an access outside an array, a loop that does not end and a null pointer
  where the C library wants a stream. All others are a \<^verbatim>\<open>std::ios_base::failure\<close>.
\<close>

definition is_failure :: "failure \<Rightarrow> bool" where
  "is_failure x \<longleftrightarrow> x \<notin> {Does_not_return, Out_of_bounds_access, Null_stream}"

subsection \<open>Deserialisers as programs\<close>

datatype 'a reader =
    Return 'a
  | Throw failure
  | Read nat "byte list \<Rightarrow> 'a reader"

primrec bindR :: "'a reader \<Rightarrow> ('a \<Rightarrow> 'b reader) \<Rightarrow> 'b reader" where
  "bindR (Return x) f = f x"
| "bindR (Throw e) f = Throw e"
| "bindR (Read n k) f = Read n (\<lambda>bs. bindR (k bs) f)"

lemma bindR_cong [fundef_cong]:
  "m = m' \<Longrightarrow> (\<And>x. f x = g x) \<Longrightarrow> bindR m f = bindR m' g"
  by (metis ext)

primrec run ::
  "(nat \<Rightarrow> 's \<Rightarrow> (failure + byte list) \<times> 's) \<Rightarrow> 'a reader \<Rightarrow> 's \<Rightarrow> (failure + 'a) \<times> 's" where
  "run rd (Return x) s = (Inr x, s)"
| "run rd (Throw e) s = (Inl e, s)"
| "run rd (Read n k) s =
     (case rd n s of (Inl e, s') \<Rightarrow> (Inl e, s') | (Inr bs, s') \<Rightarrow> run rd (k bs) s')"

lemma run_bindR [run_simps]:
  "run rd (bindR p f) s =
     (case run rd p s of (Inl e, s') \<Rightarrow> (Inl e, s') | (Inr x, s') \<Rightarrow> run rd (f x) s')"
  by (induction p arbitrary: s) (auto split: prod.splits sum.splits)

definition list_read :: "nat \<Rightarrow> byte list \<Rightarrow> (failure + byte list) \<times> byte list" where
  "list_read n bs = (if n \<le> length bs then (Inr (take n bs), drop n bs) else (Inl End_of_data, bs))"

abbreviation run_list :: "'a reader \<Rightarrow> byte list \<Rightarrow> (failure + 'a) \<times> byte list" where
  "run_list \<equiv> run list_read"

text \<open>The reads a program issues stay below a limit, whatever bytes it is given.\<close>

primrec reads_at_most :: "nat \<Rightarrow> 'a reader \<Rightarrow> bool" where
  "reads_at_most l (Return x) \<longleftrightarrow> True"
| "reads_at_most l (Throw e) \<longleftrightarrow> True"
| "reads_at_most l (Read n k) \<longleftrightarrow> n \<le> l \<and> (\<forall>bs. reads_at_most l (k bs))"

declare reads_at_most.simps [bounded_intros]

lemma reads_at_most_bindR [bounded_intros]:
  "reads_at_most l p \<Longrightarrow> (\<And>x. reads_at_most l (f x)) \<Longrightarrow> reads_at_most l (bindR p f)"
  by (induction p) auto

subsection \<open>Serialisers as the calls they make\<close>

datatype wop =
    Write "byte list"
  | CompactSize u64
  | VarInt u64

subsection \<open>Lowest-level conversion\<close>

definition ser_writedata8 :: "byte \<Rightarrow> byte list" where
  "ser_writedata8 obj = mem_of_word target 1 obj"

definition ser_writedata16 :: "u16 \<Rightarrow> byte list" where
  "ser_writedata16 obj = mem_of_word target 2 (htole16 target obj)"

definition ser_writedata16be :: "u16 \<Rightarrow> byte list" where
  "ser_writedata16be obj = mem_of_word target 2 (htobe16 target obj)"

definition ser_writedata32 :: "u32 \<Rightarrow> byte list" where
  "ser_writedata32 obj = mem_of_word target 4 (htole32 target obj)"

definition ser_writedata64 :: "u64 \<Rightarrow> byte list" where
  "ser_writedata64 obj = mem_of_word target 8 (htole64 target obj)"

definition ser_readdata8 :: "byte reader" where
  "ser_readdata8 = Read 1 (\<lambda>bs. Return (word_of_mem target bs))"

definition ser_readdata16 :: "u16 reader" where
  "ser_readdata16 = Read 2 (\<lambda>bs. Return (le16toh target (word_of_mem target bs)))"

definition ser_readdata16be :: "u16 reader" where
  "ser_readdata16be = Read 2 (\<lambda>bs. Return (be16toh target (word_of_mem target bs)))"

definition ser_readdata32 :: "u32 reader" where
  "ser_readdata32 = Read 4 (\<lambda>bs. Return (le32toh target (word_of_mem target bs)))"

definition ser_readdata64 :: "u64 reader" where
  "ser_readdata64 = Read 8 (\<lambda>bs. Return (le64toh target (word_of_mem target bs)))"

lemma ser_writedata [write_simps]:
  "ser_writedata8 b = [b]"
  "ser_writedata16 x = le_bytes 2 x"
  "ser_writedata16be x = rev (le_bytes 2 x)"
  "ser_writedata32 y = le_bytes 4 y"
  "ser_writedata64 z = le_bytes 8 z"
proof -
  show "ser_writedata8 b = [b]" by (simp add: ser_writedata8_def host_defs)
qed (simp_all add: ser_writedata16_def ser_writedata16be_def ser_writedata32_def
  ser_writedata64_def little.le16_out little.be16_out little.le32_out little.le64_out)

lemma concat_ser_writedata8 [write_simps]: "concat (map ser_writedata8 bs) = bs"
  by (induction bs) (simp_all add: write_simps)

lemma list_read_simps [run_simps]:
  "n = length xs \<Longrightarrow> list_read n (xs @ ys) = (Inr xs, ys)"
  "length bs < n \<Longrightarrow> list_read n bs = (Inl End_of_data, bs)"
  "list_read 0 bs = (Inr [], bs)"
  by (simp_all add: list_read_def)

lemma run_ser_readdata [run_simps]:
  "run_list ser_readdata8 (b # rest) = (Inr b, rest)"
  "run_list ser_readdata16 (le_bytes 2 x @ rest) = (Inr x, rest)"
  "run_list ser_readdata16be (rev (le_bytes 2 x) @ rest) = (Inr x, rest)"
  "run_list ser_readdata32 (le_bytes 4 y @ rest) = (Inr y, rest)"
  "run_list ser_readdata64 (le_bytes 8 z @ rest) = (Inr z, rest)"
  by (simp_all add: ser_readdata8_def ser_readdata16_def ser_readdata16be_def ser_readdata32_def
      ser_readdata64_def list_read_def little.le16_in little.be16_in little.le32_in little.le64_in
      le_word_le_bytes_id) (simp add: host_defs)

text \<open>Inversion: what a successful read of an integer says of the input.\<close>

lemma run_ser_readdata_inv:
  "run_list ser_readdata8 bs = (Inr b, rest) \<longleftrightarrow> bs = b # rest"
  "run_list ser_readdata16 bs = (Inr x, rest) \<longleftrightarrow> bs = le_bytes 2 x @ rest"
  "run_list ser_readdata32 bs = (Inr y, rest) \<longleftrightarrow> bs = le_bytes 4 y @ rest"
  "run_list ser_readdata64 bs = (Inr z, rest) \<longleftrightarrow> bs = le_bytes 8 z @ rest"
proof -
  have splitD: "bs = le_bytes n w @ r"
    if "n \<le> length bs" "w = le_word (take n bs)" "r = drop n bs" "8 * n \<le> LENGTH('a)"
    for n r and w :: "'a::len word"
    using that by (simp add: le_bytes_le_word)
  show "run_list ser_readdata8 bs = (Inr b, rest) \<longleftrightarrow> bs = b # rest"
    by (cases bs) (auto simp: ser_readdata8_def list_read_def host_defs)
  show "run_list ser_readdata16 bs = (Inr x, rest) \<longleftrightarrow> bs = le_bytes 2 x @ rest"
    by (auto simp: run_simps) (auto simp: ser_readdata16_def list_read_def little.le16_in
        split: if_splits intro!: splitD)
  show "run_list ser_readdata32 bs = (Inr y, rest) \<longleftrightarrow> bs = le_bytes 4 y @ rest"
    by (auto simp: run_simps) (auto simp: ser_readdata32_def list_read_def little.le32_in
        split: if_splits intro!: splitD)
  show "run_list ser_readdata64 bs = (Inr z, rest) \<longleftrightarrow> bs = le_bytes 8 z @ rest"
    by (auto simp: run_simps) (auto simp: ser_readdata64_def list_read_def little.le64_in
        split: if_splits intro!: splitD)
qed

lemma reads_at_most_readdata [bounded_intros]:
  "8 \<le> l \<Longrightarrow> reads_at_most l ser_readdata8"
  "8 \<le> l \<Longrightarrow> reads_at_most l ser_readdata16"
  "8 \<le> l \<Longrightarrow> reads_at_most l ser_readdata32"
  "8 \<le> l \<Longrightarrow> reads_at_most l ser_readdata64"
  by (simp_all add: ser_readdata8_def ser_readdata16_def ser_readdata32_def ser_readdata64_def)

subsection \<open>Compact sizes\<close>

definition MAX_SIZE :: u32 where
  "MAX_SIZE = 0x02000000"

definition GetSizeOfCompactSize :: "u64 \<Rightarrow> u32" where
  "GetSizeOfCompactSize nSize =
     (if nSize < 253 then 1
      else if nSize \<le> 0xFFFF then 1 + 2
      else if nSize \<le> 0xFFFFFFFF then 1 + 4
      else 1 + 8)"

definition WriteCompactSize :: "u64 \<Rightarrow> byte list list" where
  "WriteCompactSize nSize =
     (if nSize < 253 then [ser_writedata8 (ucast nSize)]
      else if nSize \<le> 0xFFFF then [ser_writedata8 253, ser_writedata16 (ucast nSize)]
      else if nSize \<le> 0xFFFFFFFF then [ser_writedata8 254, ser_writedata32 (ucast nSize)]
      else [ser_writedata8 255, ser_writedata64 nSize])"

definition ReadCompactSize :: "u64 reader" where
  "ReadCompactSize =
     bindR ser_readdata8 (\<lambda>chSize.
     bindR
       (if chSize < 253 then Return (ucast chSize)
        else if chSize = 253 then
          bindR ser_readdata16 (\<lambda>v. let nSizeRet = ucast v in
            if nSizeRet < 253 then Throw ReadCompactSize_non_canonical else Return nSizeRet)
        else if chSize = 254 then
          bindR ser_readdata32 (\<lambda>v. let nSizeRet = ucast v in
            if nSizeRet < 0x10000 then Throw ReadCompactSize_non_canonical else Return nSizeRet)
        else
          bindR ser_readdata64 (\<lambda>nSizeRet.
            if nSizeRet < 0x100000000 then Throw ReadCompactSize_non_canonical
            else Return nSizeRet))
     (\<lambda>nSizeRet. if nSizeRet > ucast MAX_SIZE then Throw ReadCompactSize_too_large
                 else Return nSizeRet))"

lemma compact_bounds:
  "n < 253 \<longleftrightarrow> unat (n :: u64) < 253" "n \<le> 0xFFFF \<longleftrightarrow> unat n < 2 ^ 16"
  "n \<le> 0xFFFFFFFF \<longleftrightarrow> unat n < 2 ^ 32"
  "n < 0x10000 \<longleftrightarrow> unat n < 2 ^ 16" "n < 0x100000000 \<longleftrightarrow> unat n < 2 ^ 32"
  by (auto simp: word_less_nat_alt word_le_nat_alt)

lemma run_ReadCompactSize [run_simps]:
  assumes "n \<le> ucast MAX_SIZE"
  shows "run_list ReadCompactSize (concat (WriteCompactSize n) @ rest) = (Inr n, rest)"
proof -
  consider "unat n < 253" | "253 \<le> unat n" "unat n < 2 ^ 16" | "2 ^ 16 \<le> unat n" "unat n < 2 ^ 32"
    using assms by (auto simp: MAX_SIZE_def word_le_nat_alt) linarith
  then show ?thesis
  proof cases
    case 1
    moreover have "(ucast n :: byte) < 253"
      using 1 by (simp add: word_less_nat_alt unat_ucast_less)
    ultimately show ?thesis using assms
      by (simp add: WriteCompactSize_def ReadCompactSize_def compact_bounds run_simps write_simps
          ucast_ucast_less)
  next
    case 2
    then show ?thesis using assms
      by (simp add: WriteCompactSize_def ReadCompactSize_def compact_bounds run_simps write_simps
          ucast_ucast_less)
  next
    case 3
    then show ?thesis using assms
      by (simp add: WriteCompactSize_def ReadCompactSize_def compact_bounds run_simps write_simps
          ucast_ucast_less not_less)
  qed
qed

lemma run_ReadCompactSize_inv:
  assumes "run_list ReadCompactSize bs = (Inr n, rest)"
  shows "n \<le> ucast MAX_SIZE \<and> bs = concat (WriteCompactSize n) @ rest"
proof -
  from assms obtain ch r where bs: "bs = ch # r"
    by (auto simp: ReadCompactSize_def run_simps run_ser_readdata_inv split: prod.splits sum.splits)
  have le: "n \<le> ucast MAX_SIZE"
    using assms by (auto simp: ReadCompactSize_def run_simps bs not_less
        split: prod.splits sum.splits if_splits)
  consider "ch < 253" | "ch = 253" | "ch = 254" | "ch = 255"
  proof -
    have "unat ch \<le> 255" using unat_bounds(1) [of ch] by linarith
    then show ?thesis using that by (auto simp: word_less_nat_alt word_unat_eq_iff) linarith
  qed
  then have "bs = concat (WriteCompactSize n) @ rest"
  proof cases
    case 1
    then have "unat (ucast ch :: u64) < 253" by (simp add: word_less_nat_alt unat_ucast_up)
    with 1 assms show ?thesis
      by (auto simp: ReadCompactSize_def run_simps bs write_simps WriteCompactSize_def
          compact_bounds ucast_ucast_up split: if_splits)
  qed (use assms in \<open>auto simp: ReadCompactSize_def run_simps bs write_simps WriteCompactSize_def
      compact_bounds Let_def run_ser_readdata_inv ucast_ucast_up unat_ucast_up
      split: if_splits sum.splits prod.splits\<close>)
  with le show ?thesis by blast
qed

subsection \<open>Variable-length integers\<close>

text \<open>The templates at \<^verbatim>\<open>I = uint64_t\<close>. \<open>tmp\<close> is the part of the local array filled so far, so its
  length is the code's \<^verbatim>\<open>len\<close> at the head of the loop.\<close>

lemma varint_decreases: "\<not> n \<le> 0x7F \<Longrightarrow> unat (drop_bit 7 (n :: u64) - 1) < unat n"
proof -
  assume "\<not> n \<le> 0x7F"
  then have n: "128 \<le> unat n" by (simp add: word_le_nat_alt)
  have d: "unat (drop_bit 7 n) = unat n div 128" by (simp add: unat_div drop_bit_eq_div)
  have "1 \<le> drop_bit 7 n" using n d by (simp add: word_le_nat_alt)
  then have "unat (drop_bit 7 n - 1) = unat n div 128 - 1"
    using d by (simp add: unat_sub)
  then show ?thesis using n by linarith
qed

function GetSizeOfVarInt_loop :: "u64 \<Rightarrow> nat \<Rightarrow> nat" where
  "GetSizeOfVarInt_loop n nRet =
     (if n \<le> 0x7F then nRet + 1 else GetSizeOfVarInt_loop (drop_bit 7 n - 1) (nRet + 1))"
  by pat_completeness auto
termination by (relation "measure (\<lambda>(n, _). unat n)") (auto dest: varint_decreases)

definition GetSizeOfVarInt :: "u64 \<Rightarrow> nat" where
  "GetSizeOfVarInt n = GetSizeOfVarInt_loop n 0"

function WriteVarInt_loop :: "u64 \<Rightarrow> byte list \<Rightarrow> byte list" where
  "WriteVarInt_loop n tmp =
     (let tmp' = tmp @ [ucast (n AND 0x7F) OR (if length tmp \<noteq> 0 then 0x80 else 0x00)] in
      if n \<le> 0x7F then tmp' else WriteVarInt_loop (drop_bit 7 n - 1) tmp')"
  by pat_completeness auto
termination by (relation "measure (\<lambda>(n, _). unat n)") (auto dest: varint_decreases)

definition WriteVarInt :: "u64 \<Rightarrow> byte list list" where
  "WriteVarInt n = map ser_writedata8 (rev (WriteVarInt_loop n []))"

definition u64_max :: u64 where
  "u64_max = 0xFFFFFFFFFFFFFFFF"

lemma mask_7: "(0x7F :: 'a::len word) = mask 7"
  by (simp add: mask_eq_exp_minus_1)

lemma varint_shift:
  assumes "a \<le> drop_bit 7 u64_max"
  shows "drop_bit 7 (push_bit 7 a OR ucast (c AND 0x7F)) = (a :: u64)"
    and "(push_bit 7 a OR ucast (c AND 0x7F)) AND 0x7F = ucast (c AND (0x7F :: byte))"
proof -
  have "unat a < 2 ^ 57" using assms by (simp add: u64_max_def word_le_nat_alt)
  then have "take_bit 57 a = a"
    by (simp add: word_unat_eq_iff unsigned_take_bit_eq take_bit_nat_eq_self_iff)
  then have a: "bit a k \<longleftrightarrow> bit a k \<and> k < 57" for k
    by (metis bit_take_bit_iff)
  show "drop_bit 7 (push_bit 7 a OR ucast (c AND 0x7F)) = (a :: u64)"
    unfolding mask_7 by (rule bit_eqI) (use a in \<open>auto simp: bit_simps\<close>)
  show "(push_bit 7 a OR ucast (c AND 0x7F)) AND 0x7F = ucast (c AND (0x7F :: byte))"
    unfolding mask_7 by (rule bit_eqI) (auto simp: bit_simps)
qed

lemma varint_increases:
  assumes "\<not> drop_bit 7 u64_max < n" "n' = push_bit 7 n OR ucast (c AND (0x7F :: byte))" "n' \<noteq> u64_max"
  shows "unat n < unat (n' + 1)" "unat n' < 2 ^ 64 - 1"
proof -
  have "drop_bit 7 n' = n" using assms varint_shift(1) by auto
  then have "unat n = unat n' div 128" by (auto simp: drop_bit_eq_div unat_div)
  moreover have max: "unat n' < 2 ^ 64 - 1"
  proof -
    have "unat n' \<noteq> 2 ^ 64 - 1" using assms(3) by (simp add: u64_max_def word_unat_eq_iff)
    moreover have "unat n' < 2 ^ 64" by simp
    ultimately show ?thesis by linarith
  qed
  ultimately show "unat n < unat (n' + 1)" by (simp add: unat_word_ariths)
  show "unat n' < 2 ^ 64 - 1" by (rule max)
qed

function ReadVarInt_loop :: "u64 \<Rightarrow> u64 reader" where
  "ReadVarInt_loop n =
     bindR ser_readdata8 (\<lambda>chData.
       if n > drop_bit 7 u64_max then Throw ReadVarInt_too_large
       else
         let n' = push_bit 7 n OR ucast (chData AND 0x7F) in
         if chData AND 0x80 \<noteq> 0 then
           if n' = u64_max then Throw ReadVarInt_too_large else ReadVarInt_loop (n' + 1)
         else Return n')"
  by pat_completeness auto
termination
proof (relation "measure (\<lambda>n. 2 ^ 64 - unat n)")
  fix n chData n'
  assume "\<not> drop_bit 7 u64_max < n" "n' = push_bit 7 n OR ucast (chData AND (0x7F :: byte))"
    "n' \<noteq> u64_max"
  then have "unat n < unat (n' + 1)" by (rule varint_increases(1))
  moreover have "unat (n' + 1) < 2 ^ 64" by simp
  ultimately show "(n' + 1, n) \<in> measure (\<lambda>n. 2 ^ 64 - unat n)"
    by (simp only: in_measure)
qed simp

definition ReadVarInt :: "u64 reader" where
  "ReadVarInt = ReadVarInt_loop 0"

declare GetSizeOfVarInt_loop.simps [simp del] WriteVarInt_loop.simps [simp del]
  ReadVarInt_loop.simps [simp del]

text \<open>The bytes a serialiser's calls put on an ordinary stream.\<close>

primrec wop_bytes :: "wop \<Rightarrow> byte list" where
  "wop_bytes (Write bs) = bs"
| "wop_bytes (CompactSize n) = concat (WriteCompactSize n)"
| "wop_bytes (VarInt n) = concat (WriteVarInt n)"

definition bytes_written :: "wop list \<Rightarrow> byte list" where
  "bytes_written ws = concat (map wop_bytes ws)"

lemma bytes_written_simps [simp, write_simps]:
  "bytes_written [] = []"
  "bytes_written (w # ws) = wop_bytes w @ bytes_written ws"
  "bytes_written (us @ ws) = bytes_written us @ bytes_written ws"
  "bytes_written (concat wss) = concat (map bytes_written wss)"
  by (simp_all add: bytes_written_def) (induction wss; simp add: bytes_written_def)

text \<open>The bytes of a number that is followed by more digits, most significant first.\<close>

function varint_more :: "u64 \<Rightarrow> byte list" where
  "varint_more n =
     (if n \<le> 0x7F then [ucast (n AND 0x7F) OR 0x80]
      else varint_more (drop_bit 7 n - 1) @ [ucast (n AND 0x7F) OR 0x80])"
  by pat_completeness auto
termination by (relation "measure unat") (auto dest: varint_decreases)

declare varint_more.simps [simp del]

lemma WriteVarInt_loop_more:
  "tmp \<noteq> [] \<Longrightarrow> rev (WriteVarInt_loop n tmp) = varint_more n @ rev tmp"
proof (induction n tmp rule: WriteVarInt_loop.induct)
  case (1 n tmp)
  then show ?case
    by (subst WriteVarInt_loop.simps, subst varint_more.simps) (simp add: Let_def)
qed

definition varint_bytes :: "u64 \<Rightarrow> byte list" where
  "varint_bytes n = (if n \<le> 0x7F then [] else varint_more (drop_bit 7 n - 1)) @ [ucast (n AND 0x7F)]"

lemma concat_WriteVarInt [write_simps]: "concat (WriteVarInt n) = varint_bytes n"
proof -
  have "rev (WriteVarInt_loop n []) = varint_bytes n"
    by (subst WriteVarInt_loop.simps) (simp add: varint_bytes_def WriteVarInt_loop_more)
  then show ?thesis by (simp add: WriteVarInt_def concat_ser_writedata8)
qed

lemma varint_digit_more:
  "(ucast (n AND 0x7F) OR 0x80 :: byte) AND 0x80 \<noteq> 0"
  "ucast ((ucast (n AND 0x7F) OR 0x80 :: byte) AND 0x7F) = n AND (0x7F :: u64)"
  "(ucast (n AND 0x7F) :: byte) AND 0x80 = 0"
  "ucast ((ucast (n AND 0x7F) :: byte) AND 0x7F) = n AND (0x7F :: u64)"
proof -
  have b: "(0x80 :: byte) = push_bit 7 1" by simp
  have "bit ((ucast (n AND 0x7F) OR 0x80 :: byte) AND 0x80) 7"
    unfolding b by (simp add: bit_simps del: push_bit_of_1)
  then show "(ucast (n AND 0x7F) OR 0x80 :: byte) AND 0x80 \<noteq> 0" by auto
  show "ucast ((ucast (n AND 0x7F) OR 0x80 :: byte) AND 0x7F) = n AND (0x7F :: u64)"
    unfolding b mask_7 by (rule bit_eqI) (auto simp: bit_simps simp del: push_bit_of_1)
  show "(ucast (n AND 0x7F) :: byte) AND 0x80 = 0"
    unfolding b mask_7 by (rule bit_eqI) (auto simp: bit_simps simp del: push_bit_of_1)
  show "ucast ((ucast (n AND 0x7F) :: byte) AND 0x7F) = n AND (0x7F :: u64)"
    unfolding mask_7 by (rule bit_eqI) (auto simp: bit_simps)
qed

lemma varint_recombine: "push_bit 7 (drop_bit 7 n) OR (n AND 0x7F) = (n :: u64)"
  unfolding mask_7 by (rule bit_eqI) (auto simp: bit_simps)

lemma varint_small: "n \<le> 0x7F \<longleftrightarrow> drop_bit 7 (n :: u64) = 0"
  by (auto simp: word_le_nat_alt word_unat_eq_iff drop_bit_eq_div unat_div)

lemma varint_small_self: "n \<le> 0x7F \<Longrightarrow> n AND 0x7F = (n :: u64)"
  using varint_recombine [of n] by (simp add: varint_small)

lemma varint_shift_small: "drop_bit 7 n \<le> drop_bit 7 u64_max"
proof -
  have "unat n < 18446744073709551616" by simp
  then have "unat n div 128 \<le> 144115188075855871" by linarith
  then show ?thesis by (simp add: word_le_nat_alt unat_div drop_bit_eq_div u64_max_def)
qed

lemma run_varint_more:
  "n \<noteq> u64_max \<Longrightarrow>
   run_list (ReadVarInt_loop 0) (varint_more n @ rest) = run_list (ReadVarInt_loop (n + 1)) rest"
proof (induction n arbitrary: rest rule: varint_more.induct)
  case (1 n)
  show ?case
  proof (cases "n \<le> 0x7F")
    case True
    then show ?thesis using "1.prems"
      by (subst varint_more.simps, subst ReadVarInt_loop.simps)
        (simp add: run_simps varint_digit_more Let_def, simp add: varint_small_self)
  next
    case False
    let ?m = "drop_bit 7 n - 1"
    have "?m \<noteq> u64_max" using varint_decreases [OF False]
      by (auto simp: u64_max_def word_unat_eq_iff)
    then have "run_list (ReadVarInt_loop 0) (varint_more n @ rest) =
        run_list (ReadVarInt_loop (?m + 1)) ((ucast (n AND 0x7F) OR 0x80) # rest)"
      using "1.IH" [OF False] False by (subst varint_more.simps) simp
    also have "\<dots> = run_list (ReadVarInt_loop (n + 1)) rest"
      using "1.prems" varint_shift_small [of n]
      by (subst ReadVarInt_loop.simps) (simp add: run_simps varint_digit_more varint_recombine not_less [symmetric])
    finally show ?thesis .
  qed
qed

lemma run_ReadVarInt [run_simps]:
  "run_list ReadVarInt (varint_bytes n @ rest) = (Inr n, rest)"
proof (cases "n \<le> 0x7F")
  case True
  then show ?thesis
    by (simp add: ReadVarInt_def varint_bytes_def ReadVarInt_loop.simps [of 0] run_simps
        varint_digit_more Let_def, simp add: varint_small_self)
next
  case False
  let ?m = "drop_bit 7 n - 1"
  have "?m \<noteq> u64_max" using varint_decreases [OF False]
    by (auto simp: u64_max_def word_unat_eq_iff)
  then have "run_list ReadVarInt (varint_bytes n @ rest) =
      run_list (ReadVarInt_loop (?m + 1)) (ucast (n AND 0x7F) # rest)"
    using False by (simp add: ReadVarInt_def varint_bytes_def run_varint_more)
  also have "\<dots> = (Inr n, rest)"
    using varint_shift_small [of n]
    by (subst ReadVarInt_loop.simps) (simp add: run_simps varint_digit_more varint_recombine not_less [symmetric])
  finally show ?thesis .
qed

lemma byte_0x80: "(0x80 :: byte) = push_bit 7 1"
  by simp

lemma byte_high_bit: "(c AND 0x80 = 0) \<longleftrightarrow> \<not> bit (c :: byte) 7"
  using and_exp_eq_0_iff_not_bit [of c 7] by simp

lemma varint_more_step:
  assumes a: "a \<le> drop_bit 7 u64_max" and "c AND (0x80 :: byte) \<noteq> 0"
  defines "n \<equiv> push_bit 7 a OR ucast (c AND 0x7F)"
  shows "varint_more n = (if a = 0 then [] else varint_more (a - 1)) @ [c]"
proof -
  have "bit c 7" using assms(2) by (simp add: byte_high_bit)
  then have c: "ucast (ucast (c AND 0x7F) :: u64) OR 0x80 = c"
    unfolding mask_7 byte_0x80
    by (intro byte_eqI) (auto simp: bit_simps less_Suc_eq numeral_eq_Suc simp del: push_bit_of_1)
  have "drop_bit 7 n = a" "n AND 0x7F = ucast (c AND 0x7F)"
    using varint_shift [OF a] by (simp_all add: n_def)
  then show ?thesis
    by (subst varint_more.simps) (simp add: c varint_small)
qed

lemma varint_bytes_step:
  assumes a: "a \<le> drop_bit 7 u64_max" and "c AND (0x80 :: byte) = 0"
  defines "n \<equiv> push_bit 7 a OR ucast (c AND 0x7F)"
  shows "varint_bytes n = (if a = 0 then [] else varint_more (a - 1)) @ [c]"
proof -
  have "\<not> bit c 7" using assms(2) by (simp add: byte_high_bit)
  then have c: "ucast (ucast (c AND 0x7F) :: u64) = c"
    unfolding mask_7
    by (intro byte_eqI) (auto simp: bit_simps less_Suc_eq numeral_eq_Suc)
  have "drop_bit 7 n = a" "n AND 0x7F = ucast (c AND 0x7F)"
    using varint_shift [OF a] by (simp_all add: n_def)
  then show ?thesis
    by (simp add: c varint_small varint_bytes_def)
qed

lemma run_ReadVarInt_loop_inv:
  "run_list (ReadVarInt_loop a) bs = (Inr n, rest) \<Longrightarrow>
   (if a = 0 then [] else varint_more (a - 1)) @ bs = varint_bytes n @ rest"
proof (induction a arbitrary: bs rule: ReadVarInt_loop.induct)
  case (1 a)
  from "1.prems" obtain c bs' where bs: "bs = c # bs'"
    by (subst (asm) ReadVarInt_loop.simps)
      (auto simp: run_simps run_ser_readdata_inv split: prod.splits sum.splits)
  define n' where "n' = push_bit 7 a OR ucast (c AND 0x7F)"
  have step: "run_list (if a > drop_bit 7 u64_max then Throw ReadVarInt_too_large
     else if c AND 0x80 \<noteq> 0 then if n' = u64_max then Throw ReadVarInt_too_large
       else ReadVarInt_loop (n' + 1) else Return n') bs' = (Inr n, rest)"
    using "1.prems" by (subst (asm) ReadVarInt_loop.simps) (auto simp: run_simps bs n'_def Let_def split: if_splits)
  then have a: "a \<le> drop_bit 7 u64_max" by (auto split: if_splits)
  show ?case
  proof (cases "c AND 0x80 = 0")
    case True
    then show ?thesis using step a bs varint_bytes_step [OF a True]
      by (auto simp: n'_def split: if_splits)
  next
    case False
    then have n': "n' \<noteq> u64_max" and run: "run_list (ReadVarInt_loop (n' + 1)) bs' = (Inr n, rest)"
      using step a by (auto split: if_splits)
    have "n' + 1 \<noteq> 0"
      using n' by (auto simp: u64_max_def eq_neg_iff_add_eq_0 [symmetric])
    then have "varint_more n' @ bs' = varint_bytes n @ rest"
      using "1.IH" [OF _ n'_def False n' run] a by simp
    then show ?thesis using varint_more_step [OF a False] bs by (simp add: n'_def)
  qed
qed

lemma length_varint_bytes: "length (varint_bytes n) = length (varint_more n)"
  by (simp add: varint_bytes_def varint_more.simps [of n])

lemma GetSizeOfVarInt_loop_length: "GetSizeOfVarInt_loop n r = r + length (varint_more n)"
proof (induction n r rule: GetSizeOfVarInt_loop.induct)
  case (1 n r)
  then show ?case
    by (simp add: GetSizeOfVarInt_loop.simps [of n] varint_more.simps [of n])
qed

lemma length_varint_more: "0 < k \<Longrightarrow> unat n < 128 ^ k \<Longrightarrow> length (varint_more n) \<le> k"
proof (induction k arbitrary: n)
  case 0
  then show ?case by simp
next
  case (Suc k)
  show ?case
  proof (cases "n \<le> 0x7F")
    case True
    then show ?thesis by (simp add: varint_more.simps [of n])
  next
    case False
    then have n: "128 \<le> unat n" by (simp add: word_le_nat_alt)
    have d: "unat (drop_bit 7 n) = unat n div 128" by (simp add: unat_div drop_bit_eq_div)
    have "1 \<le> drop_bit 7 n" using n d by (simp add: word_le_nat_alt)
    then have m: "unat (drop_bit 7 n - 1) = unat n div 128 - 1" using d by (simp add: unat_sub)
    have q: "unat n div 128 < 128 ^ k" using Suc.prems by (simp add: less_mult_imp_div_less mult.commute)
    have "0 < k" using q n by (cases k) auto
    then have "length (varint_more (drop_bit 7 n - 1)) \<le> k" using Suc.IH q m by simp
    then show ?thesis using False by (simp add: varint_more.simps [of n])
  qed
qed

subsection \<open>Byte vectors, strings, vectors, pairs\<close>

text \<open>\<^verbatim>\<open>Serialize_impl\<close> of \<^verbatim>\<open>std::vector<unsigned char>\<close> and of \<^verbatim>\<open>prevector<N, unsigned char>\<close>, whose bodies
  are the same, and of \<^verbatim>\<open>std::basic_string<char>\<close>.\<close>

definition Serialize_blob :: "byte list \<Rightarrow> wop list" where
  "Serialize_blob v = CompactSize (of_nat (length v)) # (if v \<noteq> [] then [Write v] else [])"

function Unserialize_blob_loop :: "nat \<Rightarrow> nat \<Rightarrow> byte list \<Rightarrow> byte list reader" where
  "Unserialize_blob_loop nSize i v =
     (if i < nSize then
        let blk = min (nSize - i) (1 + 4999999 div 1) in
        Read blk (\<lambda>bs. Unserialize_blob_loop nSize (i + blk) (v @ bs))
      else Return v)"
  by pat_completeness auto
termination by (relation "measure (\<lambda>(nSize, i, _). nSize - i)") auto

declare Unserialize_blob_loop.simps [simp del]

definition Unserialize_blob :: "byte list reader" where
  "Unserialize_blob =
     bindR ReadCompactSize (\<lambda>n. let nSize = unat (ucast n :: u32) in Unserialize_blob_loop nSize 0 [])"

definition Serialize_string :: "byte list \<Rightarrow> wop list" where
  "Serialize_string str =
     CompactSize (of_nat (length str)) # (if str \<noteq> [] then [Write str] else [])"

definition Unserialize_string :: "byte list reader" where
  "Unserialize_string =
     bindR ReadCompactSize (\<lambda>n. let nSize = unat (ucast n :: u32) in
       if nSize \<noteq> 0 then Read nSize Return else Return [])"

definition Serialize_LimitedString :: "byte list \<Rightarrow> wop list" where
  "Serialize_LimitedString string =
     CompactSize (of_nat (length string)) # (if string \<noteq> [] then [Write string] else [])"

definition Unserialize_LimitedString :: "u64 \<Rightarrow> byte list reader" where
  "Unserialize_LimitedString Limit =
     bindR ReadCompactSize (\<lambda>size.
       if size > Limit then Throw String_length_limit_exceeded
       else if size \<noteq> 0 then Read (unat size) Return else Return [])"

text \<open>Vectors of any other element type: \<open>chunk\<close> is \<^verbatim>\<open>5000000 / sizeof(T)\<close>, which is positive for every
  type the templates are used at, and \<open>i = nMid\<close> at the head of the outer loop.\<close>

definition Serialize_vec :: "('a \<Rightarrow> wop list) \<Rightarrow> 'a list \<Rightarrow> wop list" where
  "Serialize_vec ser v = CompactSize (of_nat (length v)) # concat (map ser v)"

fun Unserialize_elems :: "'a reader \<Rightarrow> nat \<Rightarrow> 'a list \<Rightarrow> 'a list reader" where
  "Unserialize_elems el 0 v = Return v"
| "Unserialize_elems el (Suc k) v = bindR el (\<lambda>x. Unserialize_elems el k (v @ [x]))"

function Unserialize_mid :: "'a reader \<Rightarrow> nat \<Rightarrow> nat \<Rightarrow> nat \<Rightarrow> 'a list \<Rightarrow> 'a list reader" where
  "Unserialize_mid el chunk nSize nMid v =
     (if nMid < nSize \<and> 0 < chunk then
        let nMid' = (if nMid + chunk > nSize then nSize else nMid + chunk) in
        bindR (Unserialize_elems el (nMid' - nMid) v)
          (\<lambda>v'. Unserialize_mid el chunk nSize nMid' v')
      else Return v)"
  by pat_completeness auto
termination by (relation "measure (\<lambda>(_, _, nSize, nMid, _). nSize - nMid)") auto

declare Unserialize_mid.simps [simp del]

definition Unserialize_vec :: "nat \<Rightarrow> 'a reader \<Rightarrow> 'a list reader" where
  "Unserialize_vec sizeof_T el =
     bindR ReadCompactSize (\<lambda>n. let nSize = unat (ucast n :: u32) in
       Unserialize_mid el (5000000 div sizeof_T) nSize 0 [])"

definition Serialize_pair :: "('k \<Rightarrow> wop list) \<Rightarrow> ('t \<Rightarrow> wop list) \<Rightarrow> 'k \<times> 't \<Rightarrow> wop list" where
  "Serialize_pair ser_K ser_T item = ser_K (fst item) @ ser_T (snd item)"

definition Unserialize_pair :: "'k reader \<Rightarrow> 't reader \<Rightarrow> ('k \<times> 't) reader" where
  "Unserialize_pair rd_K rd_T = bindR rd_K (\<lambda>k. bindR rd_T (\<lambda>t. Return (k, t)))"

text \<open>\<^verbatim>\<open>std::map\<close> as the association list of its entries in key order; \<^verbatim>\<open>insert\<close> keeps an entry that is
  already there. \<^verbatim>\<open>std::set\<close> is the same with no value.\<close>

fun map_insert :: "('k::linorder \<times> 't) list \<Rightarrow> 'k \<times> 't \<Rightarrow> ('k \<times> 't) list" where
  "map_insert [] item = [item]"
| "map_insert (e # m) item =
     (if fst item < fst e then item # e # m
      else if fst item = fst e then e # m
      else e # map_insert m item)"

definition Serialize_map ::
  "('k \<Rightarrow> wop list) \<Rightarrow> ('t \<Rightarrow> wop list) \<Rightarrow> ('k::linorder \<times> 't) list \<Rightarrow> wop list" where
  "Serialize_map ser_K ser_T m =
     CompactSize (of_nat (length m)) # concat (map (Serialize_pair ser_K ser_T) m)"

fun Unserialize_map_loop ::
  "('k::linorder \<times> 't) reader \<Rightarrow> nat \<Rightarrow> ('k \<times> 't) list \<Rightarrow> ('k \<times> 't) list reader" where
  "Unserialize_map_loop rd 0 m = Return m"
| "Unserialize_map_loop rd (Suc k) m =
     bindR rd (\<lambda>item. Unserialize_map_loop rd k (map_insert m item))"

definition Unserialize_map :: "'k::linorder reader \<Rightarrow> 't reader \<Rightarrow> ('k \<times> 't) list reader" where
  "Unserialize_map rd_K rd_T =
     bindR ReadCompactSize (\<lambda>n. Unserialize_map_loop (Unserialize_pair rd_K rd_T) (unat (ucast n :: u32)) [])"

fun set_insert :: "'k::linorder list \<Rightarrow> 'k \<Rightarrow> 'k list" where
  "set_insert [] key = [key]"
| "set_insert (e # m) key =
     (if key < e then key # e # m else if key = e then e # m else e # set_insert m key)"

definition Serialize_set :: "('k::linorder \<Rightarrow> wop list) \<Rightarrow> 'k list \<Rightarrow> wop list" where
  "Serialize_set ser m = CompactSize (of_nat (length m)) # concat (map ser m)"

fun Unserialize_set_loop :: "'k::linorder reader \<Rightarrow> nat \<Rightarrow> 'k list \<Rightarrow> 'k list reader" where
  "Unserialize_set_loop rd 0 m = Return m"
| "Unserialize_set_loop rd (Suc k) m =
     bindR rd (\<lambda>key. Unserialize_set_loop rd k (set_insert m key))"

definition Unserialize_set :: "'k::linorder reader \<Rightarrow> 'k list reader" where
  "Unserialize_set rd =
     bindR ReadCompactSize (\<lambda>n. Unserialize_set_loop rd (unat (ucast n :: u32)) [])"

subsection \<open>CSizeComputer\<close>

text \<open>
  The stream that only counts: its state is \<^verbatim>\<open>nSize\<close>. An unqualified \<^verbatim>\<open>WriteCompactSize(s, n)\<close> on it is the
  overload that seeks by \<open>GetSizeOfCompactSize\<close>. The one call of \<^verbatim>\<open>WriteVarInt\<close>, in \<^verbatim>\<open>CVarInt::Serialize\<close>, names its
  template arguments, so that it is the general template on every stream: it writes byte after byte, and
  the overload of \<^verbatim>\<open>WriteVarInt\<close> for this stream is never chosen.
\<close>

fun CSizeComputer_step :: "u64 \<Rightarrow> wop \<Rightarrow> u64" where
  "CSizeComputer_step nSize (Write bs) = nSize + of_nat (length bs)"
| "CSizeComputer_step nSize (CompactSize n) = nSize + ucast (GetSizeOfCompactSize n)"
| "CSizeComputer_step nSize (VarInt n) = foldl (\<lambda>nSize bs. nSize + of_nat (length bs)) nSize (WriteVarInt n)"

definition GetSerializeSize :: "wop list \<Rightarrow> u64" where
  "GetSerializeSize ws = foldl CSizeComputer_step 0 ws"

lemma GetSizeOfCompactSize_length:
  "ucast (GetSizeOfCompactSize n) = (of_nat (length (concat (WriteCompactSize n))) :: u64)"
  by (simp add: GetSizeOfCompactSize_def WriteCompactSize_def write_simps)

lemma GetSizeOfVarInt_length: "GetSizeOfVarInt n = length (concat (WriteVarInt n))"
  by (simp add: GetSizeOfVarInt_def GetSizeOfVarInt_loop_length write_simps length_varint_bytes)

lemma foldl_lengths: "foldl (\<lambda>k bs. k + of_nat (length bs)) k ws = (k + of_nat (length (concat ws)) :: u64)"
  by (induction ws arbitrary: k) (simp_all add: add.assoc)

lemma foldl_CSizeComputer:
  "foldl CSizeComputer_step n ws = n + of_nat (length (bytes_written ws))"
proof (induction ws arbitrary: n)
  case Nil
  then show ?case by simp
next
  case (Cons w ws)
  then show ?case by (cases w) (simp_all add: GetSizeOfCompactSize_length foldl_lengths)
qed

subsection \<open>Codecs: what a serialiser and its deserialiser promise together\<close>

definition max_size :: nat where
  "max_size = unat MAX_SIZE"

lemma max_size_eq: "max_size = 33554432"
  by (simp add: max_size_def MAX_SIZE_def)

lemma of_nat_max_size:
  assumes "n \<le> max_size"
  shows "(of_nat n :: u64) \<le> ucast MAX_SIZE" "unat (of_nat n :: u64) = n"
    "unat (ucast (of_nat n :: u64) :: u32) = n"
proof -
  show n: "unat (of_nat n :: u64) = n"
    using assms by (simp add: max_size_eq unsigned_of_nat take_bit_nat_eq_self_iff)
  show "(of_nat n :: u64) \<le> ucast MAX_SIZE"
    using assms n by (simp add: max_size_eq word_le_nat_alt MAX_SIZE_def)
  show "unat (ucast (of_nat n :: u64) :: u32) = n"
    using assms n by (simp add: max_size_eq unat_ucast_less)
qed

lemma max_size_of_nat:
  assumes "n \<le> ucast MAX_SIZE"
  shows "unat (ucast (n :: u64) :: u32) = unat n" "unat n \<le> max_size" "of_nat (unat n) = n"
proof -
  show "unat n \<le> max_size"
    using assms by (simp add: max_size_eq word_le_nat_alt MAX_SIZE_def)
  then show "unat (ucast n :: u32) = unat n" by (simp add: max_size_eq unat_ucast_less)
qed simp

locale codec =
  fixes ser :: "'a \<Rightarrow> wop list"
    and unser :: "'a reader"
    and ok :: "'a \<Rightarrow> bool"
  assumes roundtrip: "ok x \<Longrightarrow> run_list unser (bytes_written (ser x) @ rest) = (Inr x, rest)"
begin

lemma prefix_free:
  assumes "ok x" "ok y" "bytes_written (ser x) @ r = bytes_written (ser y) @ r'"
  shows "x = y \<and> r = r'"
  using roundtrip [OF assms(1), of r] roundtrip [OF assms(2), of r'] unfolding assms(3)
  by (metis Pair_inject sum.inject(2))

lemma injective: "ok x \<Longrightarrow> ok y \<Longrightarrow> bytes_written (ser x) = bytes_written (ser y) \<Longrightarrow> x = y"
  by (metis prefix_free)

lemma elems_roundtrip:
  "\<forall>x \<in> set xs. ok x \<Longrightarrow>
   run_list (Unserialize_elems unser (length xs) v) (bytes_written (concat (map ser xs)) @ rest)
     = (Inr (v @ xs), rest)"
proof (induction xs arbitrary: v)
  case Nil
  then show ?case by simp
next
  case (Cons x xs)
  then show ?case by (simp add: run_simps roundtrip)
qed

end

locale strict_codec = codec +
  assumes canonical:
    "run_list unser bs = (Inr x, rest) \<Longrightarrow> ok x \<and> bs = bytes_written (ser x) @ rest"
begin

lemma elems_canonical:
  "run_list (Unserialize_elems unser k v) bs = (Inr w, rest) \<Longrightarrow>
   \<exists>xs. w = v @ xs \<and> length xs = k \<and> (\<forall>x \<in> set xs. ok x)
     \<and> bs = bytes_written (concat (map ser xs)) @ rest"
proof (induction k arbitrary: v bs)
  case 0
  then show ?case by simp
next
  case (Suc k)
  then obtain x bs' where x: "run_list unser bs = (Inr x, bs')"
    and w: "run_list (Unserialize_elems unser k (v @ [x])) bs' = (Inr w, rest)"
    by (auto simp: run_simps split: prod.splits sum.splits)
  from Suc.IH [OF w] obtain xs where "w = v @ x # xs" "length xs = k" "\<forall>x \<in> set xs. ok x"
    "bs' = bytes_written (concat (map ser xs)) @ rest" by auto
  then show ?case using canonical [OF x] by (intro exI [of _ "x # xs"]) simp
qed

end

text \<open>The chunking of \<^verbatim>\<open>Unserialize_impl\<close> is not observable: the two nested loops are the program that
  reads the elements one after the other.\<close>

lemma bindR_assoc: "bindR (bindR p f) g = bindR p (\<lambda>x. bindR (f x) g)"
  by (induction p) auto

lemma Unserialize_elems_add:
  "Unserialize_elems el (j + k) v = bindR (Unserialize_elems el j v) (Unserialize_elems el k)"
  by (induction j arbitrary: v) (simp_all add: bindR_assoc)

lemma Unserialize_mid_elems:
  "0 < chunk \<Longrightarrow>
   Unserialize_mid el chunk nSize nMid v = Unserialize_elems el (nSize - nMid) v"
proof (induction el chunk nSize nMid v rule: Unserialize_mid.induct)
  case (1 el chunk nSize nMid v)
  show ?case
  proof (cases "nMid < nSize")
    case True
    define m where "m = (if nMid + chunk > nSize then nSize else nMid + chunk)"
    have m: "nMid < m" "m \<le> nSize" using True "1.prems" by (auto simp: m_def)
    have "Unserialize_mid el chunk nSize nMid v =
        bindR (Unserialize_elems el (m - nMid) v) (Unserialize_elems el (nSize - m))"
      using True "1.prems" "1.IH" [OF _ m_def]
      by (subst Unserialize_mid.simps) (simp add: m_def [symmetric] cong: bindR_cong)
    also have "\<dots> = Unserialize_elems el (nSize - nMid) v"
      using m by (simp add: Unserialize_elems_add [symmetric])
    finally show ?thesis .
  next
    case False
    then show ?thesis by (simp add: Unserialize_mid.simps)
  qed
qed

lemma Unserialize_blob_loop_run:
  "nSize - i \<le> length bs \<Longrightarrow>
   run_list (Unserialize_blob_loop nSize i v) bs = (Inr (v @ take (nSize - i) bs), drop (nSize - i) bs)"
proof (induction nSize i v arbitrary: bs rule: Unserialize_blob_loop.induct)
  case (1 nSize i v)
  show ?case
  proof (cases "i < nSize")
    case True
    define blk where "blk = min (nSize - i) (1 + 4999999 div 1 :: nat)"
    have blk: "blk \<le> nSize - i" "blk \<le> length bs" using "1.prems" by (auto simp: blk_def)
    have "run_list (Unserialize_blob_loop nSize i v) bs =
        run_list (Unserialize_blob_loop nSize (i + blk) (v @ take blk bs)) (drop blk bs)"
      using True blk by (subst Unserialize_blob_loop.simps)
        (simp only: if_P Let_def blk_def [symmetric], simp add: list_read_def)
    also have "\<dots> = (Inr (v @ take blk bs @ take (nSize - (i + blk)) (drop blk bs)),
        drop (nSize - (i + blk)) (drop blk bs))"
      using "1.prems" "1.IH" [OF True blk_def, of "drop blk bs" "take blk bs"] by simp
    also have "take blk bs @ take (nSize - (i + blk)) (drop blk bs) = take (nSize - i) bs"
    proof -
      have "nSize - i = blk + (nSize - (i + blk))" using blk by simp
      then show ?thesis by (metis take_add)
    qed
    also have "drop (nSize - (i + blk)) (drop blk bs) = drop (nSize - i) bs"
    proof -
      have "nSize - (i + blk) + blk = nSize - i" using blk by simp
      then show ?thesis by simp
    qed
    finally show ?thesis .
  next
    case False
    then show ?thesis by (simp add: Unserialize_blob_loop.simps)
  qed
qed

lemma Unserialize_blob_loop_short:
  "length bs < nSize - i \<Longrightarrow> fst (run_list (Unserialize_blob_loop nSize i v) bs) = Inl End_of_data"
proof (induction nSize i v arbitrary: bs rule: Unserialize_blob_loop.induct)
  case (1 nSize i v)
  then have True: "i < nSize" by simp
  define blk where "blk = min (nSize - i) (1 + 4999999 div 1 :: nat)"
  have step: "run_list (Unserialize_blob_loop nSize i v) bs =
      run_list (Read blk (\<lambda>bs. Unserialize_blob_loop nSize (i + blk) (v @ bs))) bs"
    using True by (subst Unserialize_blob_loop.simps) (simp only: if_P Let_def blk_def [symmetric])
  show ?case
  proof (cases "blk \<le> length bs")
    case le: True
    then have "fst (run_list (Unserialize_blob_loop nSize (i + blk) (v @ take blk bs)) (drop blk bs))
        = Inl End_of_data"
      using "1.prems" by (intro "1.IH" [OF True blk_def]) simp
    with le show ?thesis unfolding step by (simp add: list_read_def)
  next
    case False
    then show ?thesis unfolding step by (simp add: list_read_def)
  qed
qed

lemma Unserialize_blob_loop_inv:
  assumes "run_list (Unserialize_blob_loop nSize 0 []) bs = (Inr v, rest)"
  shows "length v = nSize \<and> bs = v @ rest"
proof -
  have le: "nSize \<le> length bs"
    using Unserialize_blob_loop_short [of bs nSize 0 "[]"] assms by (cases "nSize \<le> length bs") auto
  then have "(Inr v, rest) = (Inr (take nSize bs) :: failure + byte list, drop nSize bs)"
    using Unserialize_blob_loop_run [of nSize 0 bs "[]"] assms by simp
  with le show ?thesis by simp
qed

subsection \<open>The library's codecs\<close>

interpretation u8: strict_codec "\<lambda>x. [Write (ser_writedata8 x)]" ser_readdata8 "\<lambda>_. True"
  by unfold_locales (simp_all add: write_simps run_simps run_ser_readdata_inv)

interpretation u16: strict_codec "\<lambda>x. [Write (ser_writedata16 x)]" ser_readdata16 "\<lambda>_. True"
  by unfold_locales (simp_all add: write_simps run_simps run_ser_readdata_inv)

interpretation u32: strict_codec "\<lambda>x. [Write (ser_writedata32 x)]" ser_readdata32 "\<lambda>_. True"
  by unfold_locales (simp_all add: write_simps run_simps run_ser_readdata_inv)

interpretation u64: strict_codec "\<lambda>x. [Write (ser_writedata64 x)]" ser_readdata64 "\<lambda>_. True"
  by unfold_locales (simp_all add: write_simps run_simps run_ser_readdata_inv)

interpretation compact: strict_codec "\<lambda>n. [CompactSize n]" ReadCompactSize "\<lambda>n. n \<le> ucast MAX_SIZE"
  by unfold_locales (auto simp: run_simps dest: run_ReadCompactSize_inv)

interpretation varint: strict_codec "\<lambda>n. [VarInt n]" ReadVarInt "\<lambda>_. True"
proof unfold_locales
  fix x rest
  show "run_list ReadVarInt (bytes_written [VarInt x] @ rest) = (Inr x, rest)"
    by (simp add: concat_WriteVarInt run_ReadVarInt)
next
  fix bs x rest
  assume "run_list ReadVarInt bs = (Inr x, rest)"
  then show "True \<and> bs = bytes_written [VarInt x] @ rest"
    unfolding ReadVarInt_def by (auto simp: concat_WriteVarInt dest: run_ReadVarInt_loop_inv)
qed

interpretation blob: strict_codec Serialize_blob Unserialize_blob "\<lambda>v. length v \<le> max_size"
proof unfold_locales
  fix x rest
  assume "length (x :: byte list) \<le> max_size"
  then show "run_list Unserialize_blob (bytes_written (Serialize_blob x) @ rest) = (Inr x, rest)"
    by (simp add: Serialize_blob_def Unserialize_blob_def run_simps of_nat_max_size
        Unserialize_blob_loop_run)
next
  fix bs x rest
  assume "run_list Unserialize_blob bs = (Inr x, rest)"
  then obtain n bs' where n: "run_list ReadCompactSize bs = (Inr n, bs')"
    and x: "run_list (Unserialize_blob_loop (unat (ucast n :: u32)) 0 []) bs' = (Inr x, rest)"
    by (auto simp: Unserialize_blob_def run_simps Let_def split: prod.splits sum.splits)
  from run_ReadCompactSize_inv [OF n] Unserialize_blob_loop_inv [OF x]
  show "length x \<le> max_size \<and> bs = bytes_written (Serialize_blob x) @ rest"
    using max_size_of_nat [of n] by (auto simp: Serialize_blob_def)
qed


interpretation string: strict_codec Serialize_string Unserialize_string "\<lambda>v. length v \<le> max_size"
proof unfold_locales
  fix x rest
  assume "length (x :: byte list) \<le> max_size"
  then show "run_list Unserialize_string (bytes_written (Serialize_string x) @ rest) = (Inr x, rest)"
    by (simp add: Serialize_string_def Unserialize_string_def run_simps of_nat_max_size)
next
  fix bs x rest
  assume "run_list Unserialize_string bs = (Inr x, rest)"
  then obtain n bs' where n: "run_list ReadCompactSize bs = (Inr n, bs')"
    and x: "run_list (if unat (ucast n :: u32) \<noteq> 0 then Read (unat (ucast n :: u32)) Return
      else Return []) bs' = (Inr x, rest)"
    by (auto simp: Unserialize_string_def run_simps Let_def split: prod.splits sum.splits)
  have "length x = unat (ucast n :: u32) \<and> bs' = x @ rest"
    using x by (auto simp: list_read_def split: if_splits)
  with run_ReadCompactSize_inv [OF n]
  show "length x \<le> max_size \<and> bs = bytes_written (Serialize_string x) @ rest"
    using max_size_of_nat [of n] by (auto simp: Serialize_string_def)
qed

lemma codec_LimitedString:
  "codec Serialize_LimitedString (Unserialize_LimitedString Limit)
     (\<lambda>v. length v \<le> max_size \<and> length v \<le> unat Limit)"
proof unfold_locales
  fix x rest
  assume x: "length (x :: byte list) \<le> max_size \<and> length x \<le> unat Limit"
  have "\<not> Limit < of_nat (length x)"
    using x of_nat_max_size [of "length x"] by (simp add: word_less_nat_alt)
  moreover have "of_nat (length x) = (0 :: u64) \<longleftrightarrow> x = []"
    using x of_nat_max_size(2) [of "length x"] by (auto simp: word_unat_eq_iff)
  ultimately show "run_list (Unserialize_LimitedString Limit)
      (bytes_written (Serialize_LimitedString x) @ rest) = (Inr x, rest)"
    using x by (auto simp: Serialize_LimitedString_def Unserialize_LimitedString_def run_simps
        of_nat_max_size)
qed

text \<open>A codec gives the codec of its vectors, of its pairs and of its maps and sets.\<close>

abbreviation vec_ok :: "('a \<Rightarrow> bool) \<Rightarrow> 'a list \<Rightarrow> bool" where
  "vec_ok ok v \<equiv> length v \<le> max_size \<and> (\<forall>x \<in> set v. ok x)"

lemma codec_vec:
  assumes "codec ser unser ok" "0 < 5000000 div sizeof_T"
  shows "codec (Serialize_vec ser) (Unserialize_vec sizeof_T unser) (vec_ok ok)"
proof unfold_locales
  fix x rest
  assume "vec_ok ok x"
  then show "run_list (Unserialize_vec sizeof_T unser) (bytes_written (Serialize_vec ser x) @ rest)
      = (Inr x, rest)"
    using codec.elems_roundtrip [OF assms(1), of x "[]" rest]
    by (simp add: Serialize_vec_def Unserialize_vec_def run_simps of_nat_max_size
        Unserialize_mid_elems [OF assms(2)])
qed

lemma strict_codec_vec:
  assumes "strict_codec ser unser ok" "0 < 5000000 div sizeof_T"
  shows "strict_codec (Serialize_vec ser) (Unserialize_vec sizeof_T unser) (vec_ok ok)"
proof (intro strict_codec.intro strict_codec_axioms.intro codec_vec assms)
  show "codec ser unser ok" using assms(1) by (rule strict_codec.axioms)
  fix bs x rest
  assume "run_list (Unserialize_vec sizeof_T unser) bs = (Inr x, rest)"
  then obtain n bs' where n: "run_list ReadCompactSize bs = (Inr n, bs')"
    and x: "run_list (Unserialize_elems unser (unat (ucast n :: u32)) []) bs' = (Inr x, rest)"
    by (auto simp: Unserialize_vec_def run_simps Let_def Unserialize_mid_elems [OF assms(2)]
        split: prod.splits sum.splits)
  from strict_codec.elems_canonical [OF assms(1) x] run_ReadCompactSize_inv [OF n]
  show "vec_ok ok x \<and> bs = bytes_written (Serialize_vec ser x) @ rest"
    using max_size_of_nat [of n] by (auto simp: Serialize_vec_def)
qed

text \<open>Whatever the elements: what holds of everything the reader of an element returns holds of all of them.\<close>

lemma elems_all:
  assumes el: "\<forall>bs x rest. run_list el bs = (Inr x, rest) \<longrightarrow> Q x"
  shows "run_list (Unserialize_elems el k v) bs = (Inr y, rest) \<Longrightarrow> \<forall>x \<in> set v. Q x \<Longrightarrow> (\<forall>x \<in> set y. Q x) \<and> length y = length v + k"
proof (induction k arbitrary: v bs)
  case (Suc k)
  obtain x bs' where x: "run_list el bs = (Inr x, bs')" "run_list (Unserialize_elems el k (v @ [x])) bs' = (Inr y, rest)"
    using Suc.prems(1)
    by (cases "run_list el bs") (auto simp: run_simps split: sum.splits)
  have "Q x" using el x(1) by blast
  then have "\<forall>x \<in> set (v @ [x]). Q x" using Suc.prems(2) by simp
  from Suc.IH [OF x(2) this] show ?case by simp
qed simp

lemma vec_all:
  assumes "run_list (Unserialize_vec sizeof_T el) bs = (Inr y, rest)" "0 < 5000000 div sizeof_T"
    and el: "\<forall>bs x rest. run_list el bs = (Inr x, rest) \<longrightarrow> Q x"
  shows "vec_ok Q y"
proof -
  obtain n bs' where n: "run_list ReadCompactSize bs = (Inr n, bs')"
    and y: "run_list (Unserialize_elems el (unat (ucast n :: u32)) []) bs' = (Inr y, rest)"
    using assms(1) by (auto simp: Unserialize_vec_def run_simps Let_def Unserialize_mid_elems [OF assms(2)]
        split: prod.splits sum.splits)
  from elems_all [OF el y] run_ReadCompactSize_inv [OF n] show ?thesis
    using max_size_of_nat [of n] by auto
qed

lemma codec_pair:
  assumes "codec ser_K rd_K ok_K" "codec ser_T rd_T ok_T"
  shows "codec (Serialize_pair ser_K ser_T) (Unserialize_pair rd_K rd_T)
    (\<lambda>item. ok_K (fst item) \<and> ok_T (snd item))"
  by unfold_locales (simp add: Serialize_pair_def Unserialize_pair_def run_simps
      codec.roundtrip [OF assms(1)] codec.roundtrip [OF assms(2)])

lemma map_insert_last: "\<forall>e \<in> set m. fst e < fst item \<Longrightarrow> map_insert m item = m @ [item]"
  by (induction m) auto

lemma Unserialize_map_loop_sorted:
  assumes "codec ser rd ok"
  shows "sorted_wrt (<) (map fst (acc @ m)) \<Longrightarrow> \<forall>e \<in> set m. ok e \<Longrightarrow>
    run_list (Unserialize_map_loop rd (length m) acc)
      (concat (map (\<lambda>e. bytes_written (ser e)) m) @ rest) = (Inr (acc @ m), rest)"
proof (induction m arbitrary: acc)
  case Nil
  then show ?case by simp
next
  case (Cons e m)
  then have "map_insert acc e = acc @ [e]"
    by (intro map_insert_last) (auto simp: sorted_wrt_append)
  with Cons show ?case by (simp add: run_simps codec.roundtrip [OF assms])
qed

lemma codec_map:
  assumes "codec ser_K rd_K ok_K" "codec ser_T rd_T ok_T"
  shows "codec (Serialize_map ser_K ser_T) (Unserialize_map rd_K rd_T)
    (\<lambda>m. sorted_wrt (<) (map fst m) \<and> vec_ok (\<lambda>item. ok_K (fst item) \<and> ok_T (snd item)) m)"
  by unfold_locales (simp add: Serialize_map_def Unserialize_map_def run_simps of_nat_max_size
      comp_def Unserialize_map_loop_sorted [OF codec_pair [OF assms], where acc = "[]", simplified])

lemma set_insert_last: "\<forall>e \<in> set m. e < key \<Longrightarrow> set_insert m key = m @ [key]"
  by (induction m) auto

lemma Unserialize_set_loop_sorted:
  assumes "codec ser rd ok"
  shows "sorted_wrt (<) (acc @ m) \<Longrightarrow> \<forall>e \<in> set m. ok e \<Longrightarrow>
    run_list (Unserialize_set_loop rd (length m) acc)
      (concat (map (\<lambda>e. bytes_written (ser e)) m) @ rest) = (Inr (acc @ m), rest)"
proof (induction m arbitrary: acc)
  case Nil
  then show ?case by simp
next
  case (Cons e m)
  then have "set_insert acc e = acc @ [e]"
    by (intro set_insert_last) (auto simp: sorted_wrt_append)
  with Cons show ?case by (simp add: run_simps codec.roundtrip [OF assms])
qed

lemma codec_set:
  assumes "codec ser rd ok"
  shows "codec (Serialize_set ser) (Unserialize_set rd) (\<lambda>m. sorted_wrt (<) m \<and> vec_ok ok m)"
  by unfold_locales (simp add: Serialize_set_def Unserialize_set_def run_simps of_nat_max_size
      comp_def Unserialize_set_loop_sorted [OF assms, where acc = "[]", simplified])

subsection \<open>Limits on the reads\<close>

lemma reads_at_most_ser_readdata [bounded_intros]:
  "1 \<le> l \<Longrightarrow> reads_at_most l ser_readdata8" "2 \<le> l \<Longrightarrow> reads_at_most l ser_readdata16"
  "2 \<le> l \<Longrightarrow> reads_at_most l ser_readdata16be" "4 \<le> l \<Longrightarrow> reads_at_most l ser_readdata32"
  "8 \<le> l \<Longrightarrow> reads_at_most l ser_readdata64"
  by (simp_all add: ser_readdata8_def ser_readdata16_def ser_readdata16be_def ser_readdata32_def
      ser_readdata64_def)

lemma reads_at_most_ReadCompactSize [bounded_intros]: "8 \<le> l \<Longrightarrow> reads_at_most l ReadCompactSize"
  unfolding ReadCompactSize_def by (auto simp: Let_def intro!: bounded_intros)

lemma reads_at_most_ReadVarInt_loop: "1 \<le> l \<Longrightarrow> reads_at_most l (ReadVarInt_loop n)"
proof (induction n rule: ReadVarInt_loop.induct)
  case (1 n)
  then show ?case
    by (subst ReadVarInt_loop.simps) (auto simp: Let_def intro!: bounded_intros)
qed

lemma reads_at_most_ReadVarInt [bounded_intros]: "1 \<le> l \<Longrightarrow> reads_at_most l ReadVarInt"
  by (simp add: ReadVarInt_def reads_at_most_ReadVarInt_loop)

lemma reads_at_most_Unserialize_blob_loop:
  "5000000 \<le> l \<Longrightarrow> reads_at_most l (Unserialize_blob_loop nSize i v)"
proof (induction nSize i v rule: Unserialize_blob_loop.induct)
  case (1 nSize i v)
  show ?case
  proof (cases "i < nSize")
    case True
    define blk where "blk = min (nSize - i) (1 + 4999999 div 1 :: nat)"
    have "blk \<le> l" using "1.prems" by (simp add: blk_def)
    then show ?thesis using True "1.IH" [OF True blk_def "1.prems"]
      by (subst Unserialize_blob_loop.simps)
        (simp only: if_P Let_def blk_def [symmetric] reads_at_most.simps simp_thms)
  next
    case False
    then show ?thesis by (simp add: Unserialize_blob_loop.simps)
  qed
qed

lemma reads_at_most_Unserialize_blob [bounded_intros]:
  "5000000 \<le> l \<Longrightarrow> reads_at_most l Unserialize_blob"
  unfolding Unserialize_blob_def Let_def
  by (intro bounded_intros reads_at_most_Unserialize_blob_loop) simp_all

lemma reads_at_most_Unserialize_elems:
  "reads_at_most l el \<Longrightarrow> reads_at_most l (Unserialize_elems el k v)"
  by (induction k arbitrary: v) (auto intro!: bounded_intros)

lemma reads_at_most_Unserialize_vec [bounded_intros]:
  "8 \<le> l \<Longrightarrow> 0 < 5000000 div sizeof_T \<Longrightarrow> reads_at_most l el \<Longrightarrow>
   reads_at_most l (Unserialize_vec sizeof_T el)"
  unfolding Unserialize_vec_def Let_def
  by (auto simp: Unserialize_mid_elems intro!: bounded_intros reads_at_most_Unserialize_elems)

subsection \<open>Properties\<close>

text \<open>(C18) \<^verbatim>\<open>ReadCompactSize\<close> accepts exactly the encodings \<^verbatim>\<open>WriteCompactSize\<close> writes of the numbers up to
  \<^verbatim>\<open>MAX_SIZE\<close>: it reads each of them back, consuming exactly its bytes, and rejects every other input
  (a longer form of a small number, a number above the limit, a truncated input).\<close>

theorem ReadCompactSize_iff:
  "run_list ReadCompactSize bs = (Inr n, rest)
     \<longleftrightarrow> n \<le> ucast MAX_SIZE \<and> bs = concat (WriteCompactSize n) @ rest"
  using run_ReadCompactSize_inv run_ReadCompactSize by blast

text \<open>(C29) \<^verbatim>\<open>ReadVarInt\<close> accepts exactly the byte strings \<^verbatim>\<open>WriteVarInt\<close> writes, for all 64-bit numbers:
  the encoding has one form per number, and the two overflow checks reject nothing that was written.\<close>

theorem ReadVarInt_iff:
  "run_list ReadVarInt bs = (Inr n, rest) \<longleftrightarrow> bs = concat (WriteVarInt n) @ rest"
proof
  assume "run_list ReadVarInt bs = (Inr n, rest)"
  then show "bs = concat (WriteVarInt n) @ rest"
    unfolding ReadVarInt_def concat_WriteVarInt by (auto dest: run_ReadVarInt_loop_inv)
next
  assume "bs = concat (WriteVarInt n) @ rest"
  then show "run_list ReadVarInt bs = (Inr n, rest)"
    by (simp only: concat_WriteVarInt run_ReadVarInt)
qed

text \<open>\<^verbatim>\<open>GetSizeOfVarInt\<close> is the number of bytes \<^verbatim>\<open>WriteVarInt\<close> writes, and that never exceeds the ten
  bytes of its local array \<^verbatim>\<open>tmp[(sizeof(n)*8+6)/7]\<close>.\<close>

theorem WriteVarInt_size:
  "length (concat (WriteVarInt n)) = GetSizeOfVarInt n
    \<and> length (WriteVarInt_loop n []) = GetSizeOfVarInt n
    \<and> GetSizeOfVarInt n \<le> (8 * 8 + 6) div 7"
proof -
  have "unat n < 128 ^ 10"
    by (rule less_trans [OF unat_bounds(4)]) simp
  then have "length (varint_more n) \<le> 10" by (intro length_varint_more) simp_all
  moreover have "length (concat (WriteVarInt n)) = GetSizeOfVarInt n"
    by (simp add: GetSizeOfVarInt_def GetSizeOfVarInt_loop_length write_simps length_varint_bytes)
  moreover have "length (WriteVarInt_loop n []) = length (concat (WriteVarInt n))"
    unfolding WriteVarInt_def concat_ser_writedata8 by simp
  ultimately show ?thesis
    by (simp add: GetSizeOfVarInt_def GetSizeOfVarInt_loop_length)
qed

text \<open>(C33) \<^verbatim>\<open>GetSerializeSize\<close> computes, in the 64-bit counter of \<^verbatim>\<open>CSizeComputer\<close>, the number of bytes
  the same sequence of calls writes to an ordinary stream, although it replaces \<^verbatim>\<open>WriteCompactSize\<close> by a
  computation of the size.\<close>

theorem GetSerializeSize_exact:
  "GetSerializeSize ws = of_nat (length (bytes_written ws))"
  by (simp add: GetSerializeSize_def foldl_CSizeComputer)

text \<open>Reading a vector in chunks of five megabytes is the same program as reading its elements one
  after the other, whatever the size of an element and whatever the deserialiser of an element does.\<close>

theorem Unserialize_vec_chunking:
  assumes "0 < 5000000 div sizeof_T"
  shows "Unserialize_vec sizeof_T el =
    bindR ReadCompactSize (\<lambda>n. Unserialize_elems el (unat (ucast n :: u32)) [])"
  by (simp add: Unserialize_vec_def Unserialize_mid_elems [OF assms])

theorem Unserialize_vec_chunking_witness:
  "Unserialize_vec 2500000 ser_readdata16 =
    bindR ReadCompactSize (\<lambda>n. Unserialize_elems ser_readdata16 (unat (ucast n :: u32)) [])"
  by (rule Unserialize_vec_chunking) simp

text \<open>A \<^verbatim>\<open>std::map\<close> of pairs that each round-trip is read back as it was written, with the bytes after
  it untouched: the entries come in key order, so every hinted insertion appends.\<close>

theorem Unserialize_map_roundtrip:
  assumes "codec ser_K rd_K ok_K" "codec ser_T rd_T ok_T"
    and "sorted_wrt (<) (map fst m)" "length m \<le> max_size"
    and "\<forall>e \<in> set m. ok_K (fst e) \<and> ok_T (snd e)"
  shows "run_list (Unserialize_map rd_K rd_T) (bytes_written (Serialize_map ser_K ser_T m) @ rest)
    = (Inr m, rest)"
  using codec.roundtrip [OF codec_map [OF assms(1,2)]] assms(3-5) by blast

theorem Unserialize_map_roundtrip_witness:
  "run_list (Unserialize_map ser_readdata8 Unserialize_blob)
     (bytes_written (Serialize_map (\<lambda>x. [Write (ser_writedata8 x)]) Serialize_blob
        [(3, [7, 8]), (5, [])]) @ [1]) = (Inr [(3, [7, 8]), (5, [])], [1])"
  by (rule Unserialize_map_roundtrip [OF u8.codec_axioms blob.codec_axioms])
    (simp_all add: max_size_eq)

end
