(* ===== verification/Streams.thy ===== *)
theory Streams
  imports Serialize
begin

section \<open>The streams: streams.h\<close>

text \<open>
  Each stream class is a record of its members and one function per member function. A \<^verbatim>\<open>read\<close> returns
  the bytes it copied to the caller or the exception it throws, with the stream afterwards. \<^verbatim>\<open>size_t\<close>
  values that are counted down from a caller's argument are \<open>nat\<close>; positions are kept at the width
  the class declares, and a \<^verbatim>\<open>memcpy\<close> that leaves its buffer is the value \<open>Out_of_bounds_access\<close>.
  The locale \<open>byte_source\<close> says what the deserialisers of \<open>Serialize\<close> need of a stream; its theorem
  carries every fact proved on lists of bytes over to \<^verbatim>\<open>VectorReader\<close>, \<^verbatim>\<open>CDataStream\<close> and the ring
  buffer of \<^verbatim>\<open>CBufferedFile\<close>.
\<close>

text \<open>\<^verbatim>\<open>memcpy\<close> of \<open>bs\<close> over \<open>v\<close> from index \<open>pos\<close>, all in range.\<close>

definition overwrite :: "nat \<Rightarrow> 'a list \<Rightarrow> 'a list \<Rightarrow> 'a list" where
  "overwrite pos bs v = take pos v @ bs @ drop (pos + length bs) v"

lemma length_overwrite [simp]:
  "pos + length bs \<le> length v \<Longrightarrow> length (overwrite pos bs v) = length v"
  by (simp add: overwrite_def)

lemma drop_overwrite:
  "pos \<le> length v \<Longrightarrow> drop pos (overwrite pos bs v) = bs @ drop (pos + length bs) v"
  by (simp add: overwrite_def)

lemma nth_overwrite:
  assumes "pos + length bs \<le> length v" "i < length v"
  shows "overwrite pos bs v ! i =
    (if pos \<le> i \<and> i < pos + length bs then bs ! (i - pos) else v ! i)"
  using assms by (auto simp: overwrite_def nth_append min_def)

subsection \<open>What a deserialiser needs of a stream\<close>

locale byte_source =
  fixes rd :: "nat \<Rightarrow> 's \<Rightarrow> (failure + byte list) \<times> 's"
    and unread :: "'s \<Rightarrow> byte list"
    and valid :: "'s \<Rightarrow> bool"
    and lim :: nat
  assumes rd_ok: "valid s \<Longrightarrow> n \<le> lim \<Longrightarrow> n \<le> length (unread s) \<Longrightarrow>
      \<exists>s'. rd n s = (Inr (take n (unread s)), s') \<and> valid s' \<and> unread s' = drop n (unread s)"
    and rd_end: "valid s \<Longrightarrow> n \<le> lim \<Longrightarrow> length (unread s) < n \<Longrightarrow> \<exists>e s'. rd n s = (Inl e, s')"
begin

lemma run_refines:
  "valid s \<Longrightarrow> reads_at_most lim p \<Longrightarrow>
   (case run_list p (unread s) of
      (Inr x, rest) \<Rightarrow> \<exists>s'. run rd p s = (Inr x, s') \<and> valid s' \<and> unread s' = rest
    | (Inl e, _) \<Rightarrow> \<exists>e' s'. run rd p s = (Inl e', s'))"
proof (induction p arbitrary: s)
  case (Return x)
  then show ?case by simp
next
  case (Throw e)
  then show ?case by simp
next
  case (Read n k)
  show ?case
  proof (cases "n \<le> length (unread s)")
    case True
    with Read.prems rd_ok [of s n] obtain s' where s':
      "rd n s = (Inr (take n (unread s)), s')" "valid s'" "unread s' = drop n (unread s)" by auto
    then show ?thesis
      using Read.IH [of "k (take n (unread s))" s'] Read.prems True
      by (auto simp: list_read_def split: sum.splits)
  next
    case False
    with Read.prems rd_end [of s n] obtain e s' where "rd n s = (Inl e, s')" by auto
    with False show ?thesis by (simp add: list_read_def)
  qed
qed

lemma run_ok:
  assumes "valid s" "reads_at_most lim p" "run_list p (unread s) = (Inr x, rest)"
  obtains s' where "run rd p s = (Inr x, s')" "valid s'" "unread s' = rest"
  using run_refines [OF assms(1,2)] assms(3) by auto

lemma run_fails:
  assumes "valid s" "reads_at_most lim p" "run_list p (unread s) = (Inl e, rest)"
  obtains e' s' where "run rd p s = (Inl e', s')"
  using run_refines [OF assms(1,2)] assms(3) by auto

end

subsection \<open>OverrideStream\<close>

record 's OverrideStream =
  os_stream :: 's
  os_nType :: int
  os_nVersion :: int

definition OverrideStream_read ::
  "(nat \<Rightarrow> 's \<Rightarrow> (failure + byte list) \<times> 's) \<Rightarrow> nat \<Rightarrow> 's OverrideStream
    \<Rightarrow> (failure + byte list) \<times> 's OverrideStream" where
  "OverrideStream_read stream_read nSize s =
     (case stream_read nSize (os_stream s) of (r, t) \<Rightarrow> (r, s\<lparr>os_stream := t\<rparr>))"

definition OverrideStream_write ::
  "('s \<Rightarrow> byte list \<Rightarrow> 's) \<Rightarrow> 's OverrideStream \<Rightarrow> byte list \<Rightarrow> 's OverrideStream" where
  "OverrideStream_write stream_write s pch = s\<lparr>os_stream := stream_write (os_stream s) pch\<rparr>"

definition OverrideStream_GetVersion :: "'s OverrideStream \<Rightarrow> int" where
  "OverrideStream_GetVersion s = os_nVersion s"

definition OverrideStream_GetType :: "'s OverrideStream \<Rightarrow> int" where
  "OverrideStream_GetType s = os_nType s"

lemma byte_source_override:
  assumes "byte_source rd unread valid lim"
  shows "byte_source (OverrideStream_read rd) (\<lambda>s. unread (os_stream s)) (\<lambda>s. valid (os_stream s)) lim"
proof (unfold_locales, goal_cases)
  case (1 s n)
  with byte_source.rd_ok [OF assms, of "os_stream s" n] show ?case
    by (auto simp: OverrideStream_read_def)
next
  case (2 s n)
  with byte_source.rd_end [OF assms, of "os_stream s" n] show ?case
    by (auto simp: OverrideStream_read_def)
qed

subsection \<open>CVectorWriter\<close>

record CVectorWriter =
  cvw_nType :: int
  cvw_nVersion :: int
  cvw_vchData :: "byte list"
  cvw_nPos :: nat

definition CVectorWriter_new :: "int \<Rightarrow> int \<Rightarrow> byte list \<Rightarrow> nat \<Rightarrow> CVectorWriter" where
  "CVectorWriter_new nTypeIn nVersionIn vchDataIn nPosIn =
     \<lparr>cvw_nType = nTypeIn, cvw_nVersion = nVersionIn,
      cvw_vchData = (if nPosIn > length vchDataIn
        then vchDataIn @ replicate (nPosIn - length vchDataIn) 0 else vchDataIn),
      cvw_nPos = nPosIn\<rparr>"

definition CVectorWriter_write :: "CVectorWriter \<Rightarrow> byte list \<Rightarrow> CVectorWriter" where
  "CVectorWriter_write w pch =
     (let nSize = length pch;
          nOverwrite = min nSize (length (cvw_vchData w) - cvw_nPos w);
          v1 = (if nOverwrite \<noteq> 0 then overwrite (cvw_nPos w) (take nOverwrite pch) (cvw_vchData w)
                else cvw_vchData w);
          v2 = (if nOverwrite < nSize then v1 @ drop nOverwrite pch else v1)
      in w\<lparr>cvw_vchData := v2, cvw_nPos := cvw_nPos w + nSize\<rparr>)"

definition CVectorWriter_shift :: "CVectorWriter \<Rightarrow> wop list \<Rightarrow> CVectorWriter" where
  "CVectorWriter_shift w obj = foldl (\<lambda>w op. CVectorWriter_write w (wop_bytes op)) w obj"

text \<open>The assertion at the head of \<^verbatim>\<open>write\<close>.\<close>

definition CVectorWriter_inv :: "CVectorWriter \<Rightarrow> bool" where
  "CVectorWriter_inv w \<longleftrightarrow> cvw_nPos w \<le> length (cvw_vchData w)"

lemma CVectorWriter_new_inv: "CVectorWriter_inv (CVectorWriter_new t v d p)"
  by (simp add: CVectorWriter_inv_def CVectorWriter_new_def)

lemma CVectorWriter_write_eq:
  "CVectorWriter_inv w \<Longrightarrow>
   CVectorWriter_write w pch = w\<lparr>cvw_vchData := overwrite (cvw_nPos w) pch (cvw_vchData w),
     cvw_nPos := cvw_nPos w + length pch\<rparr>"
  by (cases "length pch \<le> length (cvw_vchData w) - cvw_nPos w")
    (auto simp: CVectorWriter_write_def CVectorWriter_inv_def overwrite_def Let_def min_def)

lemma overwrite_overwrite:
  "pos \<le> length v \<Longrightarrow>
   overwrite (pos + length a) b (overwrite pos a v) = overwrite pos (a @ b) v"
  by (simp add: overwrite_def ac_simps)

lemma CVectorWriter_write_inv:
  "CVectorWriter_inv w \<Longrightarrow> CVectorWriter_inv (CVectorWriter_write w pch)"
  by (simp add: CVectorWriter_write_eq) (simp add: CVectorWriter_inv_def overwrite_def)

lemma CVectorWriter_write_append:
  "CVectorWriter_inv w \<Longrightarrow>
   CVectorWriter_write (CVectorWriter_write w a) b = CVectorWriter_write w (a @ b)"
  using CVectorWriter_write_inv [of w a]
  by (simp add: CVectorWriter_write_eq [of "CVectorWriter_write w a"])
    (simp add: CVectorWriter_write_eq CVectorWriter_inv_def overwrite_overwrite add.assoc)

lemma CVectorWriter_shift_eq:
  "CVectorWriter_inv w \<Longrightarrow> CVectorWriter_shift w obj = CVectorWriter_write w (bytes_written obj)"
proof (induction obj arbitrary: w)
  case Nil
  then show ?case
    by (simp add: CVectorWriter_shift_def CVectorWriter_write_eq overwrite_def)
next
  case (Cons op obj)
  then have "CVectorWriter_shift (CVectorWriter_write w (wop_bytes op)) obj =
      CVectorWriter_write (CVectorWriter_write w (wop_bytes op)) (bytes_written obj)"
    by (simp add: CVectorWriter_write_inv)
  with Cons.prems show ?case by (simp add: CVectorWriter_shift_def CVectorWriter_write_append)
qed

subsection \<open>VectorReader\<close>

record VectorReader =
  vr_type :: int
  vr_version :: int
  vr_data :: "byte list"
  vr_pos :: u64

definition VectorReader_new :: "int \<Rightarrow> int \<Rightarrow> byte list \<Rightarrow> u64 \<Rightarrow> failure + VectorReader" where
  "VectorReader_new type version data pos =
     (if unat pos > length data then Inl End_of_data
      else Inr \<lparr>vr_type = type, vr_version = version, vr_data = data, vr_pos = pos\<rparr>)"

definition VectorReader_size :: "VectorReader \<Rightarrow> u64" where
  "VectorReader_size r = of_nat (length (vr_data r)) - vr_pos r"

definition VectorReader_empty :: "VectorReader \<Rightarrow> bool" where
  "VectorReader_empty r \<longleftrightarrow> of_nat (length (vr_data r)) = vr_pos r"

definition VectorReader_read :: "nat \<Rightarrow> VectorReader \<Rightarrow> (failure + byte list) \<times> VectorReader" where
  "VectorReader_read n r =
     (if n = 0 then (Inr [], r)
      else
        let pos_next = vr_pos r + of_nat n in
        if unat pos_next > length (vr_data r) then (Inl End_of_data, r)
        else if unat (vr_pos r) + n > length (vr_data r) then (Inl Out_of_bounds_access, r)
        else (Inr (take n (drop (unat (vr_pos r)) (vr_data r))), r\<lparr>vr_pos := pos_next\<rparr>))"

definition VectorReader_unread :: "VectorReader \<Rightarrow> byte list" where
  "VectorReader_unread r = drop (unat (vr_pos r)) (vr_data r)"

definition VectorReader_inv :: "nat \<Rightarrow> VectorReader \<Rightarrow> bool" where
  "VectorReader_inv lim r \<longleftrightarrow>
     unat (vr_pos r) \<le> length (vr_data r) \<and> length (vr_data r) + lim < 2 ^ 64"

lemma VectorReader_new_inv:
  "length data + lim < 2 ^ 64 \<Longrightarrow> VectorReader_new t v data pos = Inr r \<Longrightarrow>
   VectorReader_inv lim r \<and> VectorReader_unread r = drop (unat pos) data"
  by (auto simp: VectorReader_new_def VectorReader_inv_def VectorReader_unread_def split: if_splits)

lemma unat_add_of_nat:
  "unat (x :: 'a::len word) + n < 2 ^ LENGTH('a) \<Longrightarrow> unat (x + of_nat n) = unat x + n"
  by (simp add: unat_word_ariths unsigned_of_nat take_bit_eq_mod mod_add_right_eq)

interpretation vector_reader:
  byte_source VectorReader_read VectorReader_unread "VectorReader_inv lim" lim for lim
proof (unfold_locales, goal_cases)
  case (1 s n)
  then have "unat (vr_pos s + of_nat n) = unat (vr_pos s) + n"
    by (intro unat_add_of_nat) (auto simp: VectorReader_inv_def)
  with 1 show ?case
    by (auto simp: VectorReader_inv_def VectorReader_unread_def VectorReader_read_def Let_def
        add.commute)
next
  case (2 s n)
  then have "unat (vr_pos s + of_nat n) = unat (vr_pos s) + n"
    by (intro unat_add_of_nat) (auto simp: VectorReader_inv_def)
  with 2 show ?case
    by (auto simp: VectorReader_inv_def VectorReader_unread_def VectorReader_read_def Let_def)
qed

subsection \<open>CDataStream\<close>

text \<open>Iterators are indices into \<^verbatim>\<open>vch\<close>. The range insertions return no stream when the \<^verbatim>\<open>memcpy\<close> of
  the special case leaves the buffer, which takes a range of \<open>2 ^ 32\<close> bytes or more.\<close>

record CDataStream =
  vch :: "byte list"
  ds_nReadPos :: u32
  ds_nType :: int
  ds_nVersion :: int

definition CDataStream_Init :: "byte list \<Rightarrow> int \<Rightarrow> int \<Rightarrow> CDataStream" where
  "CDataStream_Init vchIn nTypeIn nVersionIn =
     \<lparr>vch = vchIn, ds_nReadPos = 0, ds_nType = nTypeIn, ds_nVersion = nVersionIn\<rparr>"

definition CDataStream_begin :: "CDataStream \<Rightarrow> nat" where
  "CDataStream_begin s = unat (ds_nReadPos s)"

definition CDataStream_end :: "CDataStream \<Rightarrow> nat" where
  "CDataStream_end s = length (vch s)"

definition CDataStream_add_assign :: "CDataStream \<Rightarrow> CDataStream \<Rightarrow> CDataStream" where
  "CDataStream_add_assign s b = s\<lparr>vch := vch s @ drop (CDataStream_begin b) (vch b)\<rparr>"

definition CDataStream_add :: "CDataStream \<Rightarrow> CDataStream \<Rightarrow> CDataStream" where
  "CDataStream_add a b = (let ret = a in CDataStream_add_assign ret b)"

definition CDataStream_str :: "CDataStream \<Rightarrow> byte list" where
  "CDataStream_str s =
     take (CDataStream_end s - CDataStream_begin s) (drop (CDataStream_begin s) (vch s))"

definition CDataStream_size :: "CDataStream \<Rightarrow> u64" where
  "CDataStream_size s = of_nat (length (vch s)) - ucast (ds_nReadPos s)"

definition CDataStream_empty :: "CDataStream \<Rightarrow> bool" where
  "CDataStream_empty s \<longleftrightarrow> (of_nat (length (vch s)) :: u64) = ucast (ds_nReadPos s)"

definition CDataStream_resize :: "CDataStream \<Rightarrow> nat \<Rightarrow> byte \<Rightarrow> CDataStream" where
  "CDataStream_resize s n c =
     (let m = n + unat (ds_nReadPos s)
      in s\<lparr>vch := take m (vch s) @ replicate (m - length (vch s)) c\<rparr>)"

definition CDataStream_index :: "CDataStream \<Rightarrow> nat \<Rightarrow> byte option" where
  "CDataStream_index s pos =
     (if pos + unat (ds_nReadPos s) < length (vch s) then Some (vch s ! (pos + unat (ds_nReadPos s)))
      else None)"

definition CDataStream_clear :: "CDataStream \<Rightarrow> CDataStream" where
  "CDataStream_clear s = s\<lparr>vch := [], ds_nReadPos := 0\<rparr>"

definition CDataStream_insert_char :: "CDataStream \<Rightarrow> nat \<Rightarrow> byte \<Rightarrow> CDataStream" where
  "CDataStream_insert_char s it x = s\<lparr>vch := take it (vch s) @ [x] @ drop it (vch s)\<rparr>"

definition CDataStream_insert_n :: "CDataStream \<Rightarrow> nat \<Rightarrow> nat \<Rightarrow> byte \<Rightarrow> CDataStream" where
  "CDataStream_insert_n s it n x = s\<lparr>vch := take it (vch s) @ replicate n x @ drop it (vch s)\<rparr>"

definition CDataStream_insert_range :: "CDataStream \<Rightarrow> nat \<Rightarrow> byte list \<Rightarrow> failure + CDataStream" where
  "CDataStream_insert_range s it xs =
     (if xs = [] then Inr s
      else if it = unat (ds_nReadPos s) \<and> (of_nat (length xs) :: u32) \<le> ds_nReadPos s then
        let pos = ds_nReadPos s - of_nat (length xs) in
        if unat pos + length xs > length (vch s) then Inl Out_of_bounds_access
        else Inr (s\<lparr>ds_nReadPos := pos, vch := overwrite (unat pos) xs (vch s)\<rparr>)
      else Inr (s\<lparr>vch := take it (vch s) @ xs @ drop it (vch s)\<rparr>))"

text \<open>The overload for a range of \<^verbatim>\<open>const char*\<close> has the same body.\<close>

definition CDataStream_insert_ptr :: "CDataStream \<Rightarrow> nat \<Rightarrow> byte list \<Rightarrow> failure + CDataStream" where
  "CDataStream_insert_ptr s it xs =
     (if xs = [] then Inr s
      else if it = unat (ds_nReadPos s) \<and> (of_nat (length xs) :: u32) \<le> ds_nReadPos s then
        let pos = ds_nReadPos s - of_nat (length xs) in
        if unat pos + length xs > length (vch s) then Inl Out_of_bounds_access
        else Inr (s\<lparr>ds_nReadPos := pos, vch := overwrite (unat pos) xs (vch s)\<rparr>)
      else Inr (s\<lparr>vch := take it (vch s) @ xs @ drop it (vch s)\<rparr>))"

definition CDataStream_erase :: "CDataStream \<Rightarrow> nat \<Rightarrow> CDataStream" where
  "CDataStream_erase s it =
     (if it = unat (ds_nReadPos s) then
        let pos = ds_nReadPos s + 1 in
        if unat pos \<ge> length (vch s) then s\<lparr>ds_nReadPos := 0, vch := []\<rparr>
        else s\<lparr>ds_nReadPos := pos\<rparr>
      else s\<lparr>vch := take it (vch s) @ drop (it + 1) (vch s)\<rparr>)"

definition CDataStream_erase_range :: "CDataStream \<Rightarrow> nat \<Rightarrow> nat \<Rightarrow> CDataStream" where
  "CDataStream_erase_range s it_first it_last =
     (if it_first = unat (ds_nReadPos s) then
        if it_last = length (vch s) then s\<lparr>ds_nReadPos := 0, vch := []\<rparr>
        else s\<lparr>ds_nReadPos := of_nat it_last\<rparr>
      else s\<lparr>vch := take it_first (vch s) @ drop it_last (vch s)\<rparr>)"

definition CDataStream_Compact :: "CDataStream \<Rightarrow> CDataStream" where
  "CDataStream_Compact s = s\<lparr>vch := drop (unat (ds_nReadPos s)) (vch s), ds_nReadPos := 0\<rparr>"

definition CDataStream_Rewind :: "CDataStream \<Rightarrow> u64 \<Rightarrow> bool \<times> CDataStream" where
  "CDataStream_Rewind s n =
     (if n > ucast (ds_nReadPos s) then (False, s)
      else (True, s\<lparr>ds_nReadPos := ucast (ucast (ds_nReadPos s) - n)\<rparr>))"

definition CDataStream_eof :: "CDataStream \<Rightarrow> bool" where
  "CDataStream_eof s \<longleftrightarrow> CDataStream_size s = 0"

definition CDataStream_in_avail :: "CDataStream \<Rightarrow> 32 word" where
  "CDataStream_in_avail s = ucast (CDataStream_size s)"

definition CDataStream_SetType :: "CDataStream \<Rightarrow> int \<Rightarrow> CDataStream" where
  "CDataStream_SetType s n = s\<lparr>ds_nType := n\<rparr>"

definition CDataStream_SetVersion :: "CDataStream \<Rightarrow> int \<Rightarrow> CDataStream" where
  "CDataStream_SetVersion s n = s\<lparr>ds_nVersion := n\<rparr>"

text \<open>\<^verbatim>\<open>unsigned int nReadPosNext = nReadPos + nSize\<close> keeps the low 32 bits of the sum.\<close>

definition CDataStream_read :: "nat \<Rightarrow> CDataStream \<Rightarrow> (failure + byte list) \<times> CDataStream" where
  "CDataStream_read nSize s =
     (if nSize = 0 then (Inr [], s)
      else
        let nReadPosNext = ds_nReadPos s + of_nat nSize in
        if unat nReadPosNext > length (vch s) then (Inl End_of_data, s)
        else if unat (ds_nReadPos s) + nSize > length (vch s) then (Inl Out_of_bounds_access, s)
        else
          let bs = take nSize (drop (unat (ds_nReadPos s)) (vch s)) in
          if unat nReadPosNext = length (vch s) then (Inr bs, s\<lparr>ds_nReadPos := 0, vch := []\<rparr>)
          else (Inr bs, s\<lparr>ds_nReadPos := nReadPosNext\<rparr>))"

definition CDataStream_ignore :: "32 word \<Rightarrow> CDataStream \<Rightarrow> failure + CDataStream" where
  "CDataStream_ignore nSize s =
     (if sint nSize < 0 then Inl Ignore_negative
      else
        let nReadPosNext = ds_nReadPos s + nSize in
        if unat nReadPosNext \<ge> length (vch s) then
          if unat nReadPosNext > length (vch s) then Inl End_of_data
          else Inr (s\<lparr>ds_nReadPos := 0, vch := []\<rparr>)
        else Inr (s\<lparr>ds_nReadPos := nReadPosNext\<rparr>))"

definition CDataStream_write :: "CDataStream \<Rightarrow> byte list \<Rightarrow> CDataStream" where
  "CDataStream_write s pch = s\<lparr>vch := vch s @ pch\<rparr>"

definition CDataStream_Serialize :: "CDataStream \<Rightarrow> wop list" where
  "CDataStream_Serialize s = (if vch s \<noteq> [] then [Write (vch s)] else [])"

definition CDataStream_shl :: "CDataStream \<Rightarrow> wop list \<Rightarrow> CDataStream" where
  "CDataStream_shl s obj = foldl (\<lambda>s op. CDataStream_write s (wop_bytes op)) s obj"

definition CDataStream_shr :: "CDataStream \<Rightarrow> 'a reader \<Rightarrow> (failure + 'a) \<times> CDataStream" where
  "CDataStream_shr s unser = run CDataStream_read unser s"

definition CDataStream_GetAndClear :: "CDataStream \<Rightarrow> byte list \<Rightarrow> byte list \<times> CDataStream" where
  "CDataStream_GetAndClear s d =
     (d @ drop (CDataStream_begin s) (vch s), CDataStream_clear s)"

fun CDataStream_Xor_loop :: "byte list \<Rightarrow> nat \<Rightarrow> nat \<Rightarrow> nat \<Rightarrow> byte list \<Rightarrow> byte list" where
  "CDataStream_Xor_loop key 0 i j v = v"
| "CDataStream_Xor_loop key (Suc k) i j v =
     (let v' = v[i := v ! i XOR key ! j]; j' = j + 1
      in CDataStream_Xor_loop key k (i + 1) (if j' = length key then 0 else j') v')"

definition CDataStream_Xor :: "CDataStream \<Rightarrow> byte list \<Rightarrow> CDataStream" where
  "CDataStream_Xor s key =
     (if length key = 0 then s
      else s\<lparr>vch := CDataStream_Xor_loop key (unat (CDataStream_size s)) 0 0 (vch s)\<rparr>)"

subsubsection \<open>The stream as a queue of bytes\<close>

definition CDataStream_unread :: "CDataStream \<Rightarrow> byte list" where
  "CDataStream_unread s = drop (unat (ds_nReadPos s)) (vch s)"

definition CDataStream_inv :: "nat \<Rightarrow> CDataStream \<Rightarrow> bool" where
  "CDataStream_inv lim s \<longleftrightarrow> unat (ds_nReadPos s) \<le> length (vch s) \<and> length (vch s) + lim < 2 ^ 32"

lemma CDataStream_Init_unread:
  "CDataStream_unread (CDataStream_Init d t v) = d"
  "length d + lim < 2 ^ 32 \<Longrightarrow> CDataStream_inv lim (CDataStream_Init d t v)"
  by (simp_all add: CDataStream_unread_def CDataStream_inv_def CDataStream_Init_def)

lemma CDataStream_nReadPos_add:
  "CDataStream_inv lim s \<Longrightarrow> n \<le> lim \<Longrightarrow>
   unat (ds_nReadPos s + of_nat n) = unat (ds_nReadPos s) + n"
  by (intro unat_add_of_nat) (auto simp: CDataStream_inv_def)

lemma CDataStream_read_ok:
  assumes "CDataStream_inv lim s" "n \<le> lim" "n \<le> length (CDataStream_unread s)"
  shows "\<exists>s'. CDataStream_read n s = (Inr (take n (CDataStream_unread s)), s')
    \<and> CDataStream_inv lim s' \<and> CDataStream_unread s' = drop n (CDataStream_unread s)"
  using assms CDataStream_nReadPos_add [OF assms(1,2)]
  by (auto simp: CDataStream_read_def CDataStream_unread_def CDataStream_inv_def Let_def add.commute)

lemma CDataStream_read_end:
  assumes "CDataStream_inv lim s" "n \<le> lim" "length (CDataStream_unread s) < n"
  shows "CDataStream_read n s = (Inl End_of_data, s)"
  using assms CDataStream_nReadPos_add [OF assms(1,2)]
  by (auto simp: CDataStream_read_def CDataStream_unread_def CDataStream_inv_def Let_def)

interpretation data_stream:
  byte_source CDataStream_read CDataStream_unread "CDataStream_inv lim" lim for lim
  by unfold_locales (auto dest: CDataStream_read_ok CDataStream_read_end)

lemma CDataStream_write_unread:
  "CDataStream_inv lim s \<Longrightarrow>
   CDataStream_unread (CDataStream_write s bs) = CDataStream_unread s @ bs"
  by (simp add: CDataStream_unread_def CDataStream_write_def CDataStream_inv_def)

lemma CDataStream_shl_eq: "CDataStream_shl s obj = CDataStream_write s (bytes_written obj)"
  by (induction obj arbitrary: s) (simp_all add: CDataStream_shl_def CDataStream_write_def)

lemma CDataStream_write_inv:
  "CDataStream_inv lim s \<Longrightarrow> length (vch s) + length bs + lim < 2 ^ 32 \<Longrightarrow>
   CDataStream_inv lim (CDataStream_write s bs)"
  by (simp add: CDataStream_write_def CDataStream_inv_def)

lemma CDataStream_str_unread: "CDataStream_str s = CDataStream_unread s"
  by (simp add: CDataStream_str_def CDataStream_unread_def CDataStream_begin_def CDataStream_end_def)

lemma CDataStream_size_unread:
  "CDataStream_inv lim s \<Longrightarrow> CDataStream_size s = of_nat (length (CDataStream_unread s))"
  by (simp add: CDataStream_size_def CDataStream_unread_def CDataStream_inv_def of_nat_diff
      unsigned_ucast_eq)

lemma CDataStream_Compact_unread:
  "CDataStream_unread (CDataStream_Compact s) = CDataStream_unread s"
  by (simp add: CDataStream_unread_def CDataStream_Compact_def)

lemma CDataStream_add_unread:
  "CDataStream_inv lim a \<Longrightarrow>
   CDataStream_unread (CDataStream_add a b) = CDataStream_unread a @ CDataStream_unread b"
  by (simp add: CDataStream_unread_def CDataStream_add_def CDataStream_add_assign_def
      CDataStream_begin_def CDataStream_inv_def)

lemma CDataStream_erase_front:
  "CDataStream_inv 1 s \<Longrightarrow> CDataStream_unread s \<noteq> [] \<Longrightarrow>
   CDataStream_unread (CDataStream_erase s (CDataStream_begin s)) = tl (CDataStream_unread s)"
  using CDataStream_nReadPos_add [of 1 s 1]
  by (auto simp: CDataStream_unread_def CDataStream_erase_def CDataStream_begin_def drop_Suc tl_drop
      CDataStream_inv_def Let_def)

lemma CDataStream_insert_range_unread:
  assumes "CDataStream_inv lim s" "length xs < 2 ^ 32"
  shows "\<exists>s'. CDataStream_insert_range s (CDataStream_begin s) xs = Inr s'
    \<and> CDataStream_unread s' = xs @ CDataStream_unread s"
proof (cases "xs = [] \<or> \<not> (of_nat (length xs) :: u32) \<le> ds_nReadPos s")
  case True
  with assms show ?thesis
    by (auto simp: CDataStream_insert_range_def CDataStream_begin_def CDataStream_unread_def
        CDataStream_inv_def)
next
  case False
  have len: "unat (of_nat (length xs) :: u32) = length xs"
    using assms(2) by (simp add: unsigned_of_nat take_bit_nat_eq_self_iff)
  moreover have "length xs \<le> unat (ds_nReadPos s)"
    using False len by (simp add: word_le_nat_alt)
  ultimately have len: "unat (of_nat (length xs) :: u32) = length xs"
    "length xs \<le> unat (ds_nReadPos s)" by blast+
  then have pos: "unat (ds_nReadPos s - of_nat (length xs)) = unat (ds_nReadPos s) - length xs"
    using False by (simp add: unat_sub)
  have "drop (unat (ds_nReadPos s) - length xs) (overwrite (unat (ds_nReadPos s) - length xs) xs (vch s))
      = xs @ drop (unat (ds_nReadPos s)) (vch s)"
  proof (subst drop_overwrite)
    show "unat (ds_nReadPos s) - length xs \<le> length (vch s)"
      using assms(1) unfolding CDataStream_inv_def by linarith
  qed (use len in simp)
  then show ?thesis using False assms(1) len pos
    by (simp add: CDataStream_insert_range_def CDataStream_begin_def CDataStream_unread_def
        CDataStream_inv_def)
qed

lemma nth_CDataStream_Xor_loop:
  "j < length key \<Longrightarrow> i + k \<le> length v \<Longrightarrow>
   length (CDataStream_Xor_loop key k i j v) = length v \<and>
   (\<forall>m < length v. CDataStream_Xor_loop key k i j v ! m =
     (if i \<le> m \<and> m < i + k then v ! m XOR key ! ((j + (m - i)) mod length key) else v ! m))"
proof (induction key k i j v rule: CDataStream_Xor_loop.induct)
  case (1 key i j v)
  then show ?case by auto
next
  case (2 key k i j v)
  define v' where "v' = v[i := v ! i XOR key ! j]"
  define j' where "j' = (if j + 1 = length key then 0 else j + 1)"
  have j': "j' < length key" "j' = (j + 1) mod length key"
    using "2.prems" by (auto simp: j'_def mod_if)
  have IH: "length (CDataStream_Xor_loop key k (i + 1) j' v') = length v' \<and>
      (\<forall>m < length v'. CDataStream_Xor_loop key k (i + 1) j' v' ! m =
        (if i + 1 \<le> m \<and> m < i + 1 + k then v' ! m XOR key ! ((j' + (m - (i + 1))) mod length key)
         else v' ! m))"
    using "2.prems" j'(1) unfolding j'_def v'_def
    by (intro "2.IH" [OF refl refl]) auto
  have eq: "CDataStream_Xor_loop key (Suc k) i j v = CDataStream_Xor_loop key k (i + 1) j' v'"
    by (simp add: v'_def j'_def Let_def)
  have idx: "(j' + (m - (i + 1))) mod length key = (j + (m - i)) mod length key" if "i < m" for m
  proof -
    have "(j' + (m - (i + 1))) mod length key = (j + 1 + (m - (i + 1))) mod length key"
      unfolding j'(2) by (rule mod_add_left_eq)
    also have "j + 1 + (m - (i + 1)) = j + (m - i)" using that by simp
    finally show ?thesis .
  qed
  have at: "CDataStream_Xor_loop key k (i + 1) j' v' ! m =
      (if i \<le> m \<and> m < i + Suc k then v ! m XOR key ! ((j + (m - i)) mod length key) else v ! m)"
    if m: "m < length v" for m
  proof (cases "m = i")
    case True
    with IH m "2.prems" show ?thesis by (simp add: v'_def)
  next
    case False
    with IH m have "CDataStream_Xor_loop key k (i + 1) j' v' ! m =
        (if i < m \<and> m < i + Suc k then v ! m XOR key ! ((j' + (m - (i + 1))) mod length key)
         else v ! m)" by (simp add: v'_def Suc_le_eq)
    with False idx [of m] show ?thesis by (auto simp: le_less)
  qed
  show ?case unfolding eq using IH at by (auto simp: v'_def)
qed

lemma CDataStream_Xor_loop_twice:
  assumes "key \<noteq> []" "k \<le> length v"
  shows "CDataStream_Xor_loop key k 0 0 (CDataStream_Xor_loop key k 0 0 v) = v"
proof (rule nth_equalityI)
  have one: "length (CDataStream_Xor_loop key k 0 0 w) = length w \<and>
      (\<forall>m < length w. CDataStream_Xor_loop key k 0 0 w ! m =
        (if m < k then w ! m XOR key ! (m mod length key) else w ! m))" if "k \<le> length w" for w
    using nth_CDataStream_Xor_loop [of 0 key 0 k w] assms(1) that by simp
  then show "length (CDataStream_Xor_loop key k 0 0 (CDataStream_Xor_loop key k 0 0 v)) = length v"
    using assms by simp
  fix m assume "m < length (CDataStream_Xor_loop key k 0 0 (CDataStream_Xor_loop key k 0 0 v))"
  then show "CDataStream_Xor_loop key k 0 0 (CDataStream_Xor_loop key k 0 0 v) ! m = v ! m"
    using one [of v] one [of "CDataStream_Xor_loop key k 0 0 v"] assms
    by (auto simp: xor.assoc)
qed

subsection \<open>BitStreamReader and BitStreamWriter\<close>

text \<open>The reader's state is its buffered byte and its offset, a number up to 8 (the guard
  \<open>m_offset \<le> 8\<close> holds in every state the class reaches); the stream below it is the one the \<open>reader\<close> runs
  on. The writer carries the bytes it has put on its stream.\<close>

record BitStreamReader =
  br_buffer :: byte
  br_offset :: nat

definition BitStreamReader_new :: BitStreamReader where
  "BitStreamReader_new = \<lparr>br_buffer = 0, br_offset = 8\<rparr>"

function BitStreamReader_Read_loop ::
  "nat \<Rightarrow> u64 \<Rightarrow> byte \<Rightarrow> nat \<Rightarrow> (u64 \<times> BitStreamReader) reader" where
  "BitStreamReader_Read_loop nbits data m_buffer m_offset =
     (if nbits > 0 \<and> m_offset \<le> 8 then
        bindR (if m_offset = 8 then ser_readdata8 else Return m_buffer) (\<lambda>m_buffer.
          let m_offset = (if m_offset = 8 then 0 else m_offset);
              bits = min (8 - m_offset) nbits;
              data = push_bit bits data OR ucast (drop_bit (8 - bits) (push_bit m_offset m_buffer))
          in BitStreamReader_Read_loop (nbits - bits) data m_buffer (m_offset + bits))
      else Return (data, \<lparr>br_buffer = m_buffer, br_offset = m_offset\<rparr>))"
  by pat_completeness auto
termination by (relation "measure (\<lambda>(nbits, _). nbits)") auto

declare BitStreamReader_Read_loop.simps [simp del]

definition BitStreamReader_Read :: "int \<Rightarrow> BitStreamReader \<Rightarrow> (u64 \<times> BitStreamReader) reader" where
  "BitStreamReader_Read nbits r =
     (if nbits < 0 \<or> nbits > 64 then Throw Nbits_out_of_range
      else BitStreamReader_Read_loop (nat nbits) 0 (br_buffer r) (br_offset r))"

record BitStreamWriter =
  bw_ostream :: "byte list"
  bw_buffer :: byte
  bw_offset :: nat

definition BitStreamWriter_new :: "byte list \<Rightarrow> BitStreamWriter" where
  "BitStreamWriter_new ostream = \<lparr>bw_ostream = ostream, bw_buffer = 0, bw_offset = 0\<rparr>"

definition BitStreamWriter_Flush :: "BitStreamWriter \<Rightarrow> BitStreamWriter" where
  "BitStreamWriter_Flush w =
     (if bw_offset w = 0 then w
      else \<lparr>bw_ostream = bw_ostream w @ ser_writedata8 (bw_buffer w), bw_buffer = 0, bw_offset = 0\<rparr>)"

function BitStreamWriter_Write_loop :: "u64 \<Rightarrow> nat \<Rightarrow> BitStreamWriter \<Rightarrow> BitStreamWriter" where
  "BitStreamWriter_Write_loop data nbits w =
     (if nbits > 0 \<and> bw_offset w < 8 then
        let bits = min (8 - bw_offset w) nbits;
            w1 = w\<lparr>bw_buffer := bw_buffer w
                OR ucast (drop_bit (64 - 8 + bw_offset w) (push_bit (64 - nbits) data)),
              bw_offset := bw_offset w + bits\<rparr>
        in BitStreamWriter_Write_loop data (nbits - bits)
             (if bw_offset w1 = 8 then BitStreamWriter_Flush w1 else w1)
      else w)"
  by pat_completeness auto
termination by (relation "measure (\<lambda>(_, nbits, _). nbits)") auto

declare BitStreamWriter_Write_loop.simps [simp del]

definition BitStreamWriter_Write :: "u64 \<Rightarrow> int \<Rightarrow> BitStreamWriter \<Rightarrow> failure + BitStreamWriter" where
  "BitStreamWriter_Write data nbits w =
     (if nbits < 0 \<or> nbits > 64 then Inl Nbits_out_of_range
      else Inr (BitStreamWriter_Write_loop data (nat nbits) w))"

subsubsection \<open>The bits on the stream, most significant first\<close>

definition byte_bits :: "byte \<Rightarrow> bool list" where
  "byte_bits b = map (\<lambda>i. bit b (7 - i)) [0..<8]"

lemma length_byte_bits [simp]: "length (byte_bits b) = 8"
  by (simp add: byte_bits_def)

definition BitStreamWriter_bits :: "BitStreamWriter \<Rightarrow> bool list" where
  "BitStreamWriter_bits w =
     concat (map byte_bits (bw_ostream w)) @ take (bw_offset w) (byte_bits (bw_buffer w))"

definition BitStreamWriter_inv :: "BitStreamWriter \<Rightarrow> bool" where
  "BitStreamWriter_inv w \<longleftrightarrow> bw_offset w < 8 \<and> (\<forall>j < 8 - bw_offset w. \<not> bit (bw_buffer w) j)"

lemma BitStreamWriter_step:
  fixes data :: u64
  assumes "bw_offset w < 8" "\<forall>j < 8 - bw_offset w. \<not> bit (bw_buffer w) j"
    and n: "0 < n" "n \<le> 64" and k: "k = min (8 - bw_offset w) n"
  defines "b \<equiv> bw_buffer w
    OR ucast (drop_bit (64 - 8 + bw_offset w) (push_bit (64 - n) data))"
  shows "take (bw_offset w + k) (byte_bits b)
      = take (bw_offset w) (byte_bits (bw_buffer w)) @ take k (low_bits n data)"
    and "\<forall>j < 8 - (bw_offset w + k). \<not> bit b j"
proof -
  have bit_b: "bit b j \<longleftrightarrow> bit (bw_buffer w) j \<or>
      (8 \<le> j + bw_offset w + n \<and> j + bw_offset w < 8 \<and> bit data (j + bw_offset w + n - 8))"
    if "j < 8" for j
    using that n assms(1) unfolding b_def by (auto simp: bit_simps algebra_simps)
  show "take (bw_offset w + k) (byte_bits b)
      = take (bw_offset w) (byte_bits (bw_buffer w)) @ take k (low_bits n data)"
  proof (rule nth_equalityI)
    show "length (take (bw_offset w + k) (byte_bits b))
        = length (take (bw_offset w) (byte_bits (bw_buffer w)) @ take k (low_bits n data))"
      using assms(1) k by simp
    fix i assume "i < length (take (bw_offset w + k) (byte_bits b))"
    then have i: "i < bw_offset w + k" "i < 8" by simp_all
    then have b: "take (bw_offset w + k) (byte_bits b) ! i = bit b (7 - i)"
      by (simp add: byte_bits_def)
    show "take (bw_offset w + k) (byte_bits b) ! i
        = (take (bw_offset w) (byte_bits (bw_buffer w)) @ take k (low_bits n data)) ! i"
    proof (cases "i < bw_offset w")
      case True
      with assms(1) i show ?thesis unfolding b
        by (auto simp: nth_append bit_b byte_bits_def)
    next
      case False
      then have "take k (low_bits n data) ! (i - bw_offset w) = bit data (n - 1 - (i - bw_offset w))"
      proof -
        have "i - bw_offset w < k" "k \<le> n"
          using i k False by arith+
        then show ?thesis by (simp add: low_bits_def)
      qed
      moreover have "7 - i + bw_offset w + n - 8 = n - 1 - (i - bw_offset w)"
        "8 \<le> 7 - i + bw_offset w + n" "7 - i + bw_offset w < 8" "7 - i < 8 - bw_offset w"
        using i False k assms(1) by simp_all
      ultimately show ?thesis using False i assms(1,2) unfolding b
        by (simp add: nth_append bit_b)
    qed
  qed
  show "\<forall>j < 8 - (bw_offset w + k). \<not> bit b j"
    using assms(1,2) k by (auto simp: bit_b min_def split: if_splits)
qed

lemma BitStreamWriter_Write_loop_bits:
  "BitStreamWriter_inv w \<Longrightarrow> n \<le> 64 \<Longrightarrow>
   BitStreamWriter_inv (BitStreamWriter_Write_loop data n w) \<and>
   BitStreamWriter_bits (BitStreamWriter_Write_loop data n w) = BitStreamWriter_bits w @ low_bits n data"
proof (induction data n w rule: BitStreamWriter_Write_loop.induct)
  case (1 data n w)
  show ?case
  proof (cases "n = 0")
    case True
    then show ?thesis using "1.prems" by (simp add: BitStreamWriter_Write_loop.simps low_bits_def)
  next
    case False
    then have n: "0 < n \<and> bw_offset w < 8" using "1.prems" by (simp add: BitStreamWriter_inv_def)
    define k where "k = min (8 - bw_offset w) n"
    define b where "b = bw_buffer w
      OR ucast (drop_bit (64 - 8 + bw_offset w) (push_bit (64 - n) data))"
    define w1 where "w1 = w\<lparr>bw_buffer := b, bw_offset := bw_offset w + k\<rparr>"
    define w2 where "w2 = (if bw_offset w1 = 8 then BitStreamWriter_Flush w1 else w1)"
    have step: "take (bw_offset w + k) (byte_bits b)
        = take (bw_offset w) (byte_bits (bw_buffer w)) @ take k (low_bits n data)"
      "\<forall>j < 8 - (bw_offset w + k). \<not> bit b j"
      using BitStreamWriter_step [of w n k data] "1.prems" n
      by (simp_all add: k_def b_def BitStreamWriter_inv_def)
    have w2: "BitStreamWriter_inv w2"
      "BitStreamWriter_bits w2 = BitStreamWriter_bits w @ take k (low_bits n data)"
      using step n by (auto simp: w2_def w1_def BitStreamWriter_inv_def BitStreamWriter_bits_def
          BitStreamWriter_Flush_def write_simps k_def)
    have "BitStreamWriter_Write_loop data n w = BitStreamWriter_Write_loop data (n - k) w2"
      using n by (subst BitStreamWriter_Write_loop.simps)
        (simp only: if_P Let_def k_def [symmetric] b_def [symmetric] w1_def [symmetric] w2_def)
    moreover have "BitStreamWriter_inv (BitStreamWriter_Write_loop data (n - k) w2) \<and>
        BitStreamWriter_bits (BitStreamWriter_Write_loop data (n - k) w2)
          = BitStreamWriter_bits w2 @ low_bits (n - k) data"
      unfolding w2_def using w2 [unfolded w2_def] "1.prems"(2)
      by (intro "1.IH" [OF n k_def]) (simp_all add: w1_def b_def)
    ultimately show ?thesis using low_bits_split [of k n data] w2(2) by (simp add: k_def)
  qed
qed

text \<open>The word whose lowest bits are the bits fed in, first bit highest.\<close>

definition feed :: "u64 \<Rightarrow> bool list \<Rightarrow> u64" where
  "feed d bs = foldl (\<lambda>a b. push_bit 1 a OR of_bool b) d bs"

lemma feed_append [simp]: "feed d [] = d" "feed d (xs @ ys) = feed (feed d xs) ys"
  by (simp_all add: feed_def)

lemma bit_feed_step:
  "bit (push_bit 1 a OR of_bool b :: u64) i \<longleftrightarrow> i < 64 \<and> (if i = 0 then b else bit a (i - 1))"
  by (cases i) (auto simp: bit_or_iff bit_push_bit_iff bit_of_bool_iff simp del: push_bit_Suc
      dest: bit_imp_le_length)

lemma bit_feed:
  "bit (feed d bs) i \<longleftrightarrow>
     i < 64 \<and> (if i < length bs then bs ! (length bs - 1 - i) else bit d (i - length bs))"
proof (induction bs arbitrary: i rule: rev_induct)
  case Nil
  then show ?case by (auto dest: bit_imp_le_length)
next
  case (snoc b bs)
  have "bit (feed d (bs @ [b])) i \<longleftrightarrow> i < 64 \<and> (if i = 0 then b else bit (feed d bs) (i - 1))"
    unfolding feed_def foldl_append foldl.simps by (rule bit_feed_step)
  then show ?case
    by (cases i) (auto simp: snoc.IH nth_append simp del: feed_append)
qed

lemma feed_low_bits: "n \<le> 64 \<Longrightarrow> feed 0 (low_bits n d) = take_bit n d"
  by (rule bit_eqI) (auto simp: bit_feed low_bits_def bit_simps)

definition BitStreamReader_bits :: "BitStreamReader \<Rightarrow> bool list" where
  "BitStreamReader_bits r = drop (br_offset r) (byte_bits (br_buffer r))"

lemma BitStreamReader_step:
  assumes "o' < 8" "0 < k" "k \<le> 8 - o'"
  shows "push_bit k data OR ucast (drop_bit (8 - k) (push_bit o' (buf :: byte)))
    = feed data (take k (drop o' (byte_bits buf)))"
proof (rule bit_eqI)
  fix i assume "possible_bit TYPE(64 word) i"
  then have i: "i < 64" by simp
  show "bit (push_bit k data OR ucast (drop_bit (8 - k) (push_bit o' buf))) i
      \<longleftrightarrow> bit (feed data (take k (drop o' (byte_bits buf)))) i"
  proof (cases "i < k")
    case True
    then have "take k (drop o' (byte_bits buf)) ! (k - 1 - i) = bit buf (8 - k - o' + i)"
      using assms by (simp add: byte_bits_def) (rule arg_cong [where f = "bit buf"], simp)
    moreover have "o' \<le> 8 - k + i" "8 - k + i < 8" "8 - k - o' + i = 8 - k + i - o'"
      using True assms by simp_all
    ultimately show ?thesis using True assms i by (simp add: bit_feed bit_simps)
  next
    case False
    have "\<not> bit (push_bit o' buf :: byte) (8 - k + i)" using False assms
      by (auto simp: bit_simps)
    then show ?thesis using False assms i by (auto simp: bit_feed bit_simps)
  qed
qed

lemma BitStreamReader_Read_loop_bits:
  "off \<le> 8 \<Longrightarrow> n \<le> length (drop off (byte_bits buf) @ concat (map byte_bits bs)) \<Longrightarrow>
   \<exists>r bs'. run_list (BitStreamReader_Read_loop n d buf off) bs
       = (Inr (feed d (take n (drop off (byte_bits buf) @ concat (map byte_bits bs))), r), bs')
     \<and> br_offset r \<le> 8
     \<and> BitStreamReader_bits r @ concat (map byte_bits bs')
       = drop n (drop off (byte_bits buf) @ concat (map byte_bits bs))"
proof (induction n d buf off arbitrary: bs rule: BitStreamReader_Read_loop.induct)
  case (1 n d buf off)
  show ?case
  proof (cases "n = 0")
    case True
    then show ?thesis using "1.prems"
      by (simp add: BitStreamReader_Read_loop.simps BitStreamReader_bits_def)
  next
    case False
    then have n: "n > 0 \<and> off \<le> 8" using "1.prems" by simp
    obtain buf1 bs1 where load: "run_list (if off = 8 then ser_readdata8 else Return buf) bs
          = (Inr buf1, bs1)"
      and avail: "drop off (byte_bits buf) @ concat (map byte_bits bs)
        = drop (if off = 8 then 0 else off) (byte_bits buf1) @ concat (map byte_bits bs1)"
    proof (cases "off = 8")
      case True
      with "1.prems" n obtain b bs1 where "bs = b # bs1" by (cases bs) auto
      with True that [of b bs1] show ?thesis by (simp add: run_simps)
    next
      case False
      with that [of buf bs] show ?thesis by simp
    qed
    define o' where "o' = (if off = 8 then 0 else off)"
    define k where "k = min (8 - o') n"
    define d' where "d' = push_bit k d OR ucast (drop_bit (8 - k) (push_bit o' buf1))"
    have o': "o' < 8" using n by (auto simp: o'_def)
    have k: "0 < k" "k \<le> 8 - o'" "k \<le> n" using n o' by (auto simp: k_def)
    let ?a = "drop o' (byte_bits buf1) @ concat (map byte_bits bs1)"
    have rest: "drop (o' + k) (byte_bits buf1) @ concat (map byte_bits bs1) = drop k ?a"
      using k o' by (simp add: add.commute)
    have "run_list (BitStreamReader_Read_loop n d buf off) bs
        = run_list (BitStreamReader_Read_loop (n - k) d' buf1 (o' + k)) bs1"
      using n by (subst BitStreamReader_Read_loop.simps)
        (simp only: if_P run_bindR load prod.case sum.case Let_def o'_def [symmetric] k_def [symmetric]
          d'_def [symmetric])
    moreover have "\<exists>r bs'. run_list (BitStreamReader_Read_loop (n - k) d' buf1 (o' + k)) bs1
       = (Inr (feed d' (take (n - k) (drop k ?a)), r), bs')
       \<and> br_offset r \<le> 8 \<and> BitStreamReader_bits r @ concat (map byte_bits bs') = drop (n - k) (drop k ?a)"
      unfolding rest [symmetric]
    proof (rule "1.IH" [OF n o'_def k_def d'_def])
      show "o' + k \<le> 8" using k o' by simp
      have "n \<le> length ?a" using "1.prems"(2) unfolding avail o'_def by simp
      then show "n - k \<le> length (drop (o' + k) (byte_bits buf1) @ concat (map byte_bits bs1))"
        unfolding rest by simp
    qed
    moreover have "feed d (take n ?a) = feed d' (take (n - k) (drop k ?a))"
    proof -
      have tk: "take k ?a = take k (drop o' (byte_bits buf1))" using k by simp
      have "feed d' ys = feed d (take k ?a @ ys)" for ys
        unfolding tk feed_append d'_def BitStreamReader_step [OF o' k(1,2)] by (rule refl)
      moreover have "take n ?a = take k ?a @ take (n - k) (drop k ?a)"
        using k(3) by (metis le_add_diff_inverse take_add)
      ultimately show ?thesis by metis
    qed
    moreover have "drop (n - k) (drop k ?a) = drop n ?a" using k(3) by (simp only: drop_drop le_add_diff_inverse2)
    ultimately show ?thesis unfolding avail o'_def [symmetric] by (simp only:)
  qed
qed

text \<open>Writing and reading a sequence of items, each a number and its width in bits.\<close>

fun BitStreamWriter_Write_items :: "(u64 \<times> int) list \<Rightarrow> BitStreamWriter \<Rightarrow> failure + BitStreamWriter" where
  "BitStreamWriter_Write_items [] w = Inr w"
| "BitStreamWriter_Write_items ((data, nbits) # items) w =
     (case BitStreamWriter_Write data nbits w of
        Inl e \<Rightarrow> Inl e | Inr w' \<Rightarrow> BitStreamWriter_Write_items items w')"

fun BitStreamReader_Read_items :: "int list \<Rightarrow> BitStreamReader \<Rightarrow> (u64 list \<times> BitStreamReader) reader" where
  "BitStreamReader_Read_items [] r = Return ([], r)"
| "BitStreamReader_Read_items (nbits # ns) r =
     bindR (BitStreamReader_Read nbits r) (\<lambda>(data, r').
       bindR (BitStreamReader_Read_items ns r') (\<lambda>(ds, r''). Return (data # ds, r'')))"

definition item_bits :: "u64 \<times> int \<Rightarrow> bool list" where
  "item_bits item = low_bits (nat (snd item)) (fst item)"

lemma item_bits_pair [simp]: "item_bits (d, n) = low_bits (nat n) d"
  by (simp add: item_bits_def)

lemma BitStreamWriter_Write_items_bits:
  "\<forall>(data, nbits) \<in> set items. 0 \<le> nbits \<and> nbits \<le> 64 \<Longrightarrow> BitStreamWriter_inv w \<Longrightarrow>
   \<exists>w'. BitStreamWriter_Write_items items w = Inr w' \<and> BitStreamWriter_inv w'
     \<and> BitStreamWriter_bits w' = BitStreamWriter_bits w @ concat (map item_bits items)"
proof (induction items arbitrary: w)
  case Nil
  then show ?case by simp
next
  case (Cons item items)
  obtain d n where item: "item = (d, n)" by fastforce
  with Cons.prems have n: "0 \<le> n" "n \<le> 64" by auto
  then have w1: "BitStreamWriter_Write d n w = Inr (BitStreamWriter_Write_loop d (nat n) w)"
    by (simp add: BitStreamWriter_Write_def)
  have w: "BitStreamWriter_inv (BitStreamWriter_Write_loop d (nat n) w)"
    "BitStreamWriter_bits (BitStreamWriter_Write_loop d (nat n) w)
      = BitStreamWriter_bits w @ low_bits (nat n) d"
    using BitStreamWriter_Write_loop_bits [of w "nat n" d] Cons.prems(2) n by auto
  from Cons.prems(1) have "\<forall>(data, nbits) \<in> set items. 0 \<le> nbits \<and> nbits \<le> 64" by simp
  from Cons.IH [OF this w(1)] show ?case by (simp add: item w1 w(2))
qed

lemma BitStreamWriter_Flush_bits:
  assumes "BitStreamWriter_inv w"
  obtains pad where "concat (map byte_bits (bw_ostream (BitStreamWriter_Flush w)))
    = BitStreamWriter_bits w @ pad" "length pad < 8"
proof (cases "bw_offset w = 0")
  case True
  then show ?thesis using that [of "[]"]
    by (simp add: BitStreamWriter_Flush_def BitStreamWriter_bits_def)
next
  case False
  then show ?thesis using that [of "drop (bw_offset w) (byte_bits (bw_buffer w))"]
    by (simp add: BitStreamWriter_Flush_def BitStreamWriter_bits_def write_simps)
qed

lemma BitStreamReader_Read_items_bits:
  "\<forall>(data, nbits) \<in> set items. 0 \<le> nbits \<and> nbits \<le> 64 \<Longrightarrow> br_offset r \<le> 8 \<Longrightarrow>
   BitStreamReader_bits r @ concat (map byte_bits bs) = concat (map item_bits items) @ pad \<Longrightarrow>
   \<exists>r' bs'. run_list (BitStreamReader_Read_items (map snd items) r) bs
       = (Inr (map (\<lambda>(data, nbits). take_bit (nat nbits) data) items, r'), bs')
     \<and> BitStreamReader_bits r' @ concat (map byte_bits bs') = pad"
proof (induction items arbitrary: r bs)
  case Nil
  then show ?case by simp
next
  case (Cons item items)
  obtain d n where item: "item = (d, n)" by fastforce
  with Cons.prems have n: "0 \<le> n" "n \<le> 64" by auto
  let ?a = "drop (br_offset r) (byte_bits (br_buffer r)) @ concat (map byte_bits bs)"
  have a: "?a = low_bits (nat n) d @ concat (map item_bits items) @ pad"
    using Cons.prems(3) by (simp add: BitStreamReader_bits_def item)
  have len: "nat n \<le> length ?a" unfolding a by simp
  have t: "take (nat n) ?a = low_bits (nat n) d"
    "drop (nat n) ?a = concat (map item_bits items) @ pad" unfolding a by simp_all
  obtain r1 bs1 where r1: "run_list (BitStreamReader_Read n r) bs = (Inr (take_bit (nat n) d, r1), bs1)"
    "br_offset r1 \<le> 8"
    "BitStreamReader_bits r1 @ concat (map byte_bits bs1) = concat (map item_bits items) @ pad"
    using BitStreamReader_Read_loop_bits [OF Cons.prems(2) len, of 0] n unfolding t
    by (auto simp: BitStreamReader_Read_def feed_low_bits)
  from Cons.IH [OF _ r1(2,3)] Cons.prems(1) show ?case
    by (auto simp: item run_simps r1(1))
qed

subsection \<open>Files\<close>

text \<open>A \<^verbatim>\<open>FILE\<close> of the C library: its bytes, the position, how many bytes can be read before the device
  reports an error, how large the file may grow, and the end-of-file indicator.\<close>

record FILE =
  f_content :: "byte list"
  f_offset :: nat
  f_readable :: nat
  f_capacity :: nat
  f_eof :: bool

definition fread :: "nat \<Rightarrow> FILE \<Rightarrow> byte list \<times> FILE" where
  "fread n f =
     (let bs = take n (drop (f_offset f) (take (f_readable f) (f_content f)))
      in (bs, f\<lparr>f_offset := f_offset f + length bs,
                f_eof := f_eof f \<or> length bs < n \<and> f_offset f + length bs = length (f_content f)\<rparr>))"

definition fwrite :: "byte list \<Rightarrow> FILE \<Rightarrow> nat \<times> FILE" where
  "fwrite bs f =
     (let k = min (length bs) (f_capacity f - f_offset f)
      in (k, f\<lparr>f_content := overwrite (f_offset f) (take k bs) (f_content f),
               f_offset := f_offset f + k\<rparr>))"

subsubsection \<open>CAutoFile\<close>

record CAutoFile =
  af_nType :: int
  af_nVersion :: int
  af_file :: "FILE option"

definition CAutoFile_fclose :: "CAutoFile \<Rightarrow> CAutoFile" where
  "CAutoFile_fclose s = (case af_file s of Some f \<Rightarrow> s\<lparr>af_file := None\<rparr> | None \<Rightarrow> s)"

definition CAutoFile_release :: "CAutoFile \<Rightarrow> FILE option \<times> CAutoFile" where
  "CAutoFile_release s = (af_file s, s\<lparr>af_file := None\<rparr>)"

definition CAutoFile_IsNull :: "CAutoFile \<Rightarrow> bool" where
  "CAutoFile_IsNull s \<longleftrightarrow> af_file s = None"

definition CAutoFile_read :: "nat \<Rightarrow> CAutoFile \<Rightarrow> (failure + byte list) \<times> CAutoFile" where
  "CAutoFile_read nSize s =
     (case af_file s of
        None \<Rightarrow> (Inl File_handle_is_nullptr, s)
      | Some file \<Rightarrow>
          (case fread nSize file of (bs, file') \<Rightarrow>
             if length bs \<noteq> nSize
             then (Inl (if f_eof file' then End_of_file else Fread_failed), s\<lparr>af_file := Some file'\<rparr>)
             else (Inr bs, s\<lparr>af_file := Some file'\<rparr>)))"

function CAutoFile_ignore_loop :: "nat \<Rightarrow> FILE \<Rightarrow> (failure + unit) \<times> FILE" where
  "CAutoFile_ignore_loop nSize file =
     (if nSize > 0 then
        let nNow = min nSize 4096 in
        (case fread nNow file of (data, file') \<Rightarrow>
           if length data \<noteq> nNow then (Inl (if f_eof file' then End_of_file else Fread_failed), file')
           else CAutoFile_ignore_loop (nSize - nNow) file')
      else (Inr (), file))"
  by pat_completeness auto
termination by (relation "measure (\<lambda>(nSize, _). nSize)") auto

declare CAutoFile_ignore_loop.simps [simp del]

definition CAutoFile_ignore :: "nat \<Rightarrow> CAutoFile \<Rightarrow> (failure + unit) \<times> CAutoFile" where
  "CAutoFile_ignore nSize s =
     (case af_file s of
        None \<Rightarrow> (Inl File_handle_is_nullptr, s)
      | Some file \<Rightarrow>
          (case CAutoFile_ignore_loop nSize file of (r, file') \<Rightarrow> (r, s\<lparr>af_file := Some file'\<rparr>)))"

definition CAutoFile_write :: "CAutoFile \<Rightarrow> byte list \<Rightarrow> (failure + unit) \<times> CAutoFile" where
  "CAutoFile_write s pch =
     (case af_file s of
        None \<Rightarrow> (Inl File_handle_is_nullptr, s)
      | Some file \<Rightarrow>
          (case fwrite pch file of (k, file') \<Rightarrow>
             (if k \<noteq> length pch then Inl Write_failed else Inr (), s\<lparr>af_file := Some file'\<rparr>)))"

definition FILE_ok :: "FILE \<Rightarrow> bool" where
  "FILE_ok f \<longleftrightarrow> f_offset f \<le> length (f_content f) \<and> length (f_content f) \<le> f_readable f
     \<and> (f_eof f \<longrightarrow> f_offset f = length (f_content f))"

definition FILE_unread :: "FILE \<Rightarrow> byte list" where
  "FILE_unread f = drop (f_offset f) (f_content f)"

lemma fread_ok:
  "FILE_ok f \<Longrightarrow> fread n f = (take n (FILE_unread f),
     f\<lparr>f_offset := f_offset f + length (take n (FILE_unread f)),
       f_eof := f_eof f \<or> length (FILE_unread f) < n\<rparr>)"
proof -
  assume "FILE_ok f"
  then have "length (take n (FILE_unread f)) < n \<and>
      f_offset f + length (take n (FILE_unread f)) = length (f_content f)
      \<longleftrightarrow> length (FILE_unread f) < n" "take (f_readable f) (f_content f) = f_content f"
    by (auto simp: FILE_ok_def FILE_unread_def)
  then show ?thesis by (simp only: fread_def FILE_unread_def [symmetric] Let_def)
qed

definition CAutoFile_unread :: "CAutoFile \<Rightarrow> byte list" where
  "CAutoFile_unread s = (case af_file s of Some f \<Rightarrow> FILE_unread f | None \<Rightarrow> [])"

definition CAutoFile_inv :: "CAutoFile \<Rightarrow> bool" where
  "CAutoFile_inv s \<longleftrightarrow> (\<exists>f. af_file s = Some f \<and> FILE_ok f)"

interpretation auto_file: byte_source CAutoFile_read CAutoFile_unread CAutoFile_inv lim for lim
  by unfold_locales (auto simp: CAutoFile_read_def CAutoFile_inv_def CAutoFile_unread_def fread_ok
      FILE_unread_def FILE_ok_def add.commute)

text \<open>\<^verbatim>\<open>ignore\<close> skips exactly what a \<^verbatim>\<open>read\<close> of the same size would have returned.\<close>

lemma CAutoFile_ignore_loop_ok:
  "FILE_ok f \<Longrightarrow> n \<le> length (FILE_unread f) \<Longrightarrow>
   CAutoFile_ignore_loop n f = (Inr (), f\<lparr>f_offset := f_offset f + n\<rparr>)"
proof (induction n f rule: CAutoFile_ignore_loop.induct)
  case (1 n f)
  show ?case
  proof (cases "n = 0")
    case True
    then show ?thesis by (simp add: CAutoFile_ignore_loop.simps)
  next
    case False
    let ?k = "min n 4096"
    let ?f = "f\<lparr>f_offset := f_offset f + ?k\<rparr>"
    have rd: "fread ?k f = (take ?k (FILE_unread f), ?f)"
      using "1.prems" by (simp add: fread_ok)
    have ok: "FILE_ok ?f" "n - ?k \<le> length (FILE_unread ?f)"
      using "1.prems" by (auto simp: FILE_ok_def FILE_unread_def)
    have "length (take ?k (FILE_unread f)) = ?k" using "1.prems" by simp
    then have "CAutoFile_ignore_loop n f = CAutoFile_ignore_loop (n - ?k) ?f"
      using False rd by (subst CAutoFile_ignore_loop.simps) (simp add: Let_def)
    also have "\<dots> = (Inr (), ?f\<lparr>f_offset := f_offset ?f + (n - ?k)\<rparr>)"
      using False "1.prems" ok rd by (intro "1.IH" [OF _ refl rd [symmetric]]) auto
    finally show ?thesis using False by simp
  qed
qed

subsubsection \<open>CBufferedFile\<close>

text \<open>\<^verbatim>\<open>Fill\<close> on a closed file passes a null pointer to \<^verbatim>\<open>fread\<close>, which is undefined: \<open>Null_stream\<close>. The loops of \<^verbatim>\<open>read\<close> and \<^verbatim>\<open>FindByte\<close>
  ignore what \<^verbatim>\<open>Fill\<close> returns, and go round again when it added nothing; not returning is \<open>None\<close>.\<close>

record CBufferedFile =
  bf_src :: "FILE option"
  bf_nSrcPos :: u64
  bf_nReadPos :: u64
  bf_nReadLimit :: u64
  bf_nRewind :: u64
  bf_vchBuf :: "byte list"

definition CBufferedFile_new :: "FILE option \<Rightarrow> u64 \<Rightarrow> u64 \<Rightarrow> CBufferedFile" where
  "CBufferedFile_new fileIn nBufSize nRewindIn =
     \<lparr>bf_src = fileIn, bf_nSrcPos = 0, bf_nReadPos = 0, bf_nReadLimit = u64_max,
      bf_nRewind = nRewindIn, bf_vchBuf = replicate (unat nBufSize) 0\<rparr>"

abbreviation bf_size :: "CBufferedFile \<Rightarrow> u64" where
  "bf_size s \<equiv> of_nat (length (bf_vchBuf s))"

definition CBufferedFile_Fill :: "CBufferedFile \<Rightarrow> (failure + bool) \<times> CBufferedFile" where
  "CBufferedFile_Fill s =
     (let pos = ucast (bf_nSrcPos s mod bf_size s) :: u32;
          readNow = ucast (bf_size s - ucast pos) :: u32;
          nAvail = ucast (bf_size s - (bf_nSrcPos s - bf_nReadPos s) - bf_nRewind s) :: u32;
          readNow = (if nAvail < readNow then nAvail else readNow)
      in if readNow = 0 then (Inr False, s)
         else case bf_src s of
           None \<Rightarrow> (Inl Null_stream, s)
         | Some src \<Rightarrow>
             (case fread (unat readNow) src of (bs, src') \<Rightarrow>
                let s1 = s\<lparr>bf_src := Some src', bf_vchBuf := overwrite (unat pos) bs (bf_vchBuf s)\<rparr>
                in if length bs = 0 then (Inl (if f_eof src' then End_of_file else Fread_failed), s1)
                   else (Inr True, s1\<lparr>bf_nSrcPos := bf_nSrcPos s + of_nat (length bs)\<rparr>)))"

definition CBufferedFile_fclose :: "CBufferedFile \<Rightarrow> CBufferedFile" where
  "CBufferedFile_fclose s = (case bf_src s of Some f \<Rightarrow> s\<lparr>bf_src := None\<rparr> | None \<Rightarrow> s)"

definition CBufferedFile_eof :: "CBufferedFile \<Rightarrow> bool" where
  "CBufferedFile_eof s \<longleftrightarrow> bf_nReadPos s = bf_nSrcPos s \<and> f_eof (the (bf_src s))"

partial_function (option) CBufferedFile_read_loop ::
  "u64 \<Rightarrow> byte list \<Rightarrow> CBufferedFile \<Rightarrow> ((failure + byte list) \<times> CBufferedFile) option" where
  "CBufferedFile_read_loop nSize pch s =
     (if nSize > 0 then
        (case (if bf_nReadPos s = bf_nSrcPos s then CBufferedFile_Fill s else (Inr False, s)) of
           (r, s1) \<Rightarrow>
             (case r of
                Inl e \<Rightarrow> Some (Inl e, s1)
              | Inr _ \<Rightarrow>
                  let pos = ucast (bf_nReadPos s1 mod bf_size s1) :: u32;
                      nNow = nSize;
                      nNow = (if nNow + ucast pos > bf_size s1 then bf_size s1 - ucast pos else nNow);
                      nNow = (if nNow + bf_nReadPos s1 > bf_nSrcPos s1
                        then bf_nSrcPos s1 - bf_nReadPos s1 else nNow)
                  in CBufferedFile_read_loop (nSize - nNow)
                       (pch @ take (unat nNow) (drop (unat pos) (bf_vchBuf s1)))
                       (s1\<lparr>bf_nReadPos := bf_nReadPos s1 + nNow\<rparr>)))
      else Some (Inr pch, s))"

definition CBufferedFile_read_opt ::
  "u64 \<Rightarrow> CBufferedFile \<Rightarrow> ((failure + byte list) \<times> CBufferedFile) option" where
  "CBufferedFile_read_opt nSize s =
     (if nSize + bf_nReadPos s > bf_nReadLimit s then Some (Inl Read_past_buffer_limit, s)
      else if nSize + bf_nRewind s > bf_size s then Some (Inl Read_larger_than_buffer, s)
      else CBufferedFile_read_loop nSize [] s)"

definition CBufferedFile_read :: "nat \<Rightarrow> CBufferedFile \<Rightarrow> (failure + byte list) \<times> CBufferedFile" where
  "CBufferedFile_read nSize s =
     (case CBufferedFile_read_opt (of_nat nSize) s of None \<Rightarrow> (Inl Does_not_return, s) | Some r \<Rightarrow> r)"

definition CBufferedFile_SetPos :: "u64 \<Rightarrow> CBufferedFile \<Rightarrow> bool \<times> CBufferedFile" where
  "CBufferedFile_SetPos nPos s =
     (if nPos > bf_nSrcPos s then (False, s\<lparr>bf_nReadPos := bf_nSrcPos s\<rparr>)
      else (True, s\<lparr>bf_nReadPos := nPos\<rparr>))"

text \<open>\<^verbatim>\<open>fseek\<close> fails on a negative offset, which is where \<^verbatim>\<open>long\<close> and \<^verbatim>\<open>uint64_t\<close> differ.\<close>

definition CBufferedFile_Seek :: "u64 \<Rightarrow> CBufferedFile \<Rightarrow> bool \<times> CBufferedFile" where
  "CBufferedFile_Seek nPos s =
     (case bf_src s of
        None \<Rightarrow> (False, s)
      | Some src \<Rightarrow>
          if sint nPos < 0 then (False, s)
          else (True, s\<lparr>bf_src := Some (src\<lparr>f_offset := unat nPos, f_eof := False\<rparr>),
                        bf_nSrcPos := nPos, bf_nReadPos := nPos\<rparr>))"

definition CBufferedFile_SetLimit :: "u64 \<Rightarrow> CBufferedFile \<Rightarrow> bool \<times> CBufferedFile" where
  "CBufferedFile_SetLimit nPos s =
     (if nPos < bf_nReadPos s then (False, s) else (True, s\<lparr>bf_nReadLimit := nPos\<rparr>))"

partial_function (option) CBufferedFile_FindByte ::
  "byte \<Rightarrow> CBufferedFile \<Rightarrow> ((failure + unit) \<times> CBufferedFile) option" where
  "CBufferedFile_FindByte ch s =
     (case (if bf_nReadPos s = bf_nSrcPos s then CBufferedFile_Fill s else (Inr False, s)) of
        (r, s1) \<Rightarrow>
          (case r of
             Inl e \<Rightarrow> Some (Inl e, s1)
           | Inr _ \<Rightarrow>
               if bf_vchBuf s1 ! unat (bf_nReadPos s1 mod bf_size s1) = ch then Some (Inr (), s1)
               else CBufferedFile_FindByte ch (s1\<lparr>bf_nReadPos := bf_nReadPos s1 + 1\<rparr>)))"

text \<open>The ring buffer: \<open>c\<close> is the file's content. The last \<open>size\<close> bytes read from the file are in the
  buffer, each at its position modulo the size.\<close>

definition ring :: "byte list \<Rightarrow> nat \<Rightarrow> byte list \<Rightarrow> bool" where
  "ring c n buf \<longleftrightarrow> (\<forall>i < n. n \<le> i + length buf \<longrightarrow> buf ! (i mod length buf) = c ! i)"

definition CBufferedFile_inv :: "byte list \<Rightarrow> nat \<Rightarrow> CBufferedFile \<Rightarrow> bool" where
  "CBufferedFile_inv c lim s \<longleftrightarrow>
     (\<exists>f. bf_src s = Some f \<and> f_content f = c \<and> FILE_ok f \<and> f_offset f = unat (bf_nSrcPos s))
     \<and> 0 < length (bf_vchBuf s) \<and> length (bf_vchBuf s) < 2 ^ 32
     \<and> length c + length (bf_vchBuf s) < 2 ^ 64 - 1
     \<and> lim + unat (bf_nRewind s) \<le> length (bf_vchBuf s)
     \<and> bf_nReadLimit s = u64_max
     \<and> unat (bf_nReadPos s) \<le> unat (bf_nSrcPos s)
     \<and> unat (bf_nSrcPos s) \<le> unat (bf_nReadPos s) + length (bf_vchBuf s)
     \<and> ring c (unat (bf_nSrcPos s)) (bf_vchBuf s)"

definition CBufferedFile_unread :: "CBufferedFile \<Rightarrow> byte list" where
  "CBufferedFile_unread s =
     (case bf_src s of Some f \<Rightarrow> drop (unat (bf_nReadPos s)) (f_content f) | None \<Rightarrow> [])"

lemma mod_add_less:
  "d < m \<Longrightarrow> (n + d) mod m = (if n mod m + d < m then n mod m + d else n mod m + d - (m :: nat))"
proof -
  assume d: "d < m"
  define a where "a = n mod m"
  have a: "a < m" using d by (simp add: a_def)
  have "(n + d) mod m = (a + d) mod m" by (simp add: a_def mod_add_left_eq)
  also have "\<dots> = (if a + d < m then a + d else a + d - m)"
    using a d by (simp add: le_mod_geq not_less)
  finally show ?thesis by (simp add: a_def)
qed

lemma ring_fill:
  assumes r: "ring c n buf" and k: "n mod length buf + k \<le> length buf" "n + k \<le> length c"
    and buf: "0 < length buf"
  shows "ring c (n + k) (overwrite (n mod length buf) (take k (drop n c)) buf)"
  unfolding ring_def
proof (intro allI impI)
  let ?m = "length buf" and ?b = "take k (drop n c)"
  have len: "length ?b = k" using k(2) by simp
  then have lo: "length (overwrite (n mod ?m) ?b buf) = ?m" using k(1) by simp
  fix i assume i: "i < n + k" "n + k \<le> i + length (overwrite (n mod ?m) ?b buf)"
  have nth: "overwrite (n mod ?m) ?b buf ! (i mod ?m) =
      (if n mod ?m \<le> i mod ?m \<and> i mod ?m < n mod ?m + k then ?b ! (i mod ?m - n mod ?m) else buf ! (i mod ?m))"
    using nth_overwrite [of "n mod ?m" ?b buf "i mod ?m"] len k(1) buf by simp
  show "overwrite (n mod ?m) ?b buf ! (i mod length (overwrite (n mod ?m) ?b buf)) = c ! i"
  proof (cases "n \<le> i")
    case True
    define d where "d = i - n"
    have d: "d < k" "i = n + d" using True i by (auto simp: d_def)
    then have "i mod ?m = n mod ?m + d" using mod_add_less [of d ?m n] k(1) by simp
    then show ?thesis unfolding lo nth using d k by simp
  next
    case False
    define d where "d = i + ?m - n"
    have d: "k \<le> d" "d < ?m" "i + ?m = n + d" using False i lo buf by (auto simp: d_def)
    have "i mod ?m = (n + d) mod ?m" using d(3) by (metis mod_add_self2)
    then have out: "\<not> (n mod ?m \<le> i mod ?m \<and> i mod ?m < n mod ?m + k)"
      using mod_add_less [of d ?m n] d by (auto split: if_splits)
    have "buf ! (i mod ?m) = c ! i"
      using r False i lo unfolding ring_def by auto
    then show ?thesis unfolding lo nth if_not_P [OF out] .
  qed
qed

lemma ring_slice:
  assumes "ring c n buf" "r + k \<le> n" "n \<le> r + length buf" "n \<le> length c"
    and "r mod length buf + k \<le> length buf"
  shows "take k (drop (r mod length buf) buf) = take k (drop r c)"
proof (cases "k = 0")
  case False
  show ?thesis
  proof (rule nth_equalityI)
    fix j assume "j < length (take k (drop (r mod length buf) buf))"
    then have j: "j < k" by simp
    have "(r + j) mod length buf = r mod length buf + j"
      using mod_add_less [of j "length buf" r] assms(5) j by simp
    moreover have "buf ! ((r + j) mod length buf) = c ! (r + j)"
      using assms(1-3) j unfolding ring_def by auto
    ultimately show "take k (drop (r mod length buf) buf) ! j = take k (drop r c) ! j"
      using j assms by simp
  qed (use assms in simp)
qed simp

lemma CBufferedFile_pos:
  assumes "0 < length (bf_vchBuf s)" "length (bf_vchBuf s) < 2 ^ 32"
  shows "unat (bf_size s) = length (bf_vchBuf s)"
    and "unat (ucast (x mod bf_size s) :: u32) = unat x mod length (bf_vchBuf s)"
proof -
  show sz: "unat (bf_size s) = length (bf_vchBuf s)"
    using assms by (simp add: unsigned_of_nat take_bit_nat_eq_self_iff)
  have "unat x mod length (bf_vchBuf s) < length (bf_vchBuf s)" using assms by simp
  also have "\<dots> < 2 ^ 32" by (rule assms(2))
  finally have "unat (x mod bf_size s) < 2 ^ LENGTH(32)" by (simp add: unat_mod sz)
  then show "unat (ucast (x mod bf_size s) :: u32) = unat x mod length (bf_vchBuf s)"
    by (simp add: unat_ucast_less unat_mod sz)
qed

text \<open>After \<^verbatim>\<open>Fill\<close> has thrown at the end of the file, \<^verbatim>\<open>eof\<close> is true.\<close>

definition CBufferedFile_ended :: "CBufferedFile \<Rightarrow> bool" where
  "CBufferedFile_ended s \<longleftrightarrow> CBufferedFile_eof s \<and> bf_src s \<noteq> None"

lemma CBufferedFile_Fill_ok:
  assumes inv: "CBufferedFile_inv c lim s" and eq: "bf_nReadPos s = bf_nSrcPos s" and lim: "0 < lim"
  shows "if unat (bf_nSrcPos s) = length c
    then \<exists>s'. CBufferedFile_Fill s = (Inl End_of_file, s') \<and> CBufferedFile_ended s'
    else \<exists>s'. CBufferedFile_Fill s = (Inr True, s') \<and> CBufferedFile_inv c lim s'
      \<and> bf_nReadPos s' = bf_nReadPos s \<and> unat (bf_nSrcPos s) < unat (bf_nSrcPos s')
      \<and> length (bf_vchBuf s') = length (bf_vchBuf s)
      \<and> bf_nRewind s' = bf_nRewind s
      \<and> unat (bf_nSrcPos s') + unat (bf_nRewind s) \<le> unat (bf_nReadPos s) + length (bf_vchBuf s)"
proof -
  let ?m = "length (bf_vchBuf s)" and ?n = "unat (bf_nSrcPos s)"
  from inv obtain f where f: "bf_src s = Some f" "f_content f = c" "FILE_ok f" "f_offset f = ?n"
    and m: "0 < ?m" "?m < 2 ^ 32" and c: "length c + ?m < 2 ^ 64 - 1"
    and rew: "lim + unat (bf_nRewind s) \<le> ?m" and ring: "ring c ?n (bf_vchBuf s)"
    by (auto simp: CBufferedFile_inv_def)
  note pos = CBufferedFile_pos [OF m]
  define pos32 where "pos32 = (ucast (bf_nSrcPos s mod bf_size s) :: u32)"
  have p: "unat pos32 = ?n mod ?m" by (simp add: pos32_def pos)
  have pm: "?n mod ?m < ?m" using m by simp
  have now0: "unat (ucast (bf_size s - ucast pos32) :: u32) = ?m - ?n mod ?m"
  proof -
    have "unat (ucast pos32 :: u64) = ?n mod ?m" by (simp add: unat_ucast_up p)
    then have "unat (bf_size s - ucast pos32) = ?m - ?n mod ?m"
      using pm by (simp add: unat_sub word_le_nat_alt pos(1))
    then show ?thesis using m by (simp add: unat_ucast_less)
  qed
  have avail: "unat (ucast (bf_size s - (bf_nSrcPos s - bf_nReadPos s) - bf_nRewind s) :: u32)
      = ?m - unat (bf_nRewind s)"
  proof -
    have "unat (bf_size s - bf_nRewind s) = ?m - unat (bf_nRewind s)"
      using rew by (simp add: unat_sub word_le_nat_alt pos(1))
    then show ?thesis using m by (simp add: unat_ucast_less eq)
  qed
  define now where "now = (let readNow = ucast (bf_size s - ucast pos32) :: u32;
      nAvail = ucast (bf_size s - (bf_nSrcPos s - bf_nReadPos s) - bf_nRewind s) :: u32
    in if nAvail < readNow then nAvail else readNow)"
  have now: "unat now = min (?m - ?n mod ?m) (?m - unat (bf_nRewind s))"
    by (simp add: now_def Let_def word_less_nat_alt now0 avail min_def)
  then have now_pos: "0 < unat now" using pm rew lim by simp
  then have now_nz: "now \<noteq> 0" by auto
  define bs where "bs = take (unat now) (drop ?n c)"
  define f' where "f' = f\<lparr>f_offset := ?n + length bs, f_eof := f_eof f \<or> length (drop ?n c) < unat now\<rparr>"
  have rd: "fread (unat now) f = (bs, f')"
    using f by (simp add: fread_ok bs_def f'_def FILE_unread_def)
  have fill: "CBufferedFile_Fill s =
      (let s1 = s\<lparr>bf_src := Some f', bf_vchBuf := overwrite (unat pos32) bs (bf_vchBuf s)\<rparr>
       in if length bs = 0 then (Inl (if f_eof f' then End_of_file else Fread_failed), s1)
          else (Inr True, s1\<lparr>bf_nSrcPos := bf_nSrcPos s + of_nat (length bs)\<rparr>))"
    using now_nz rd f(1) unfolding CBufferedFile_Fill_def Let_def pos32_def [symmetric]
    unfolding now_def [unfolded Let_def, symmetric] by simp
  show ?thesis
  proof (cases "?n = length c")
    case True
    then have "length bs = 0" "f_eof f'" using now_pos by (simp_all add: bs_def f'_def)
    then show ?thesis using True by (simp add: fill Let_def CBufferedFile_ended_def CBufferedFile_eof_def eq)
  next
    case False
    have n: "?n \<le> length c" using f by (simp add: FILE_ok_def)
    let ?k = "length bs"
    have k: "0 < ?k" "?n + ?k \<le> length c" "?k \<le> unat now" "bs = take ?k (drop ?n c)"
      using False n now_pos by (auto simp: bs_def min_def)
    have src: "unat (bf_nSrcPos s + of_nat ?k) = ?n + ?k"
      using k(2) c by (intro unat_add_of_nat) simp
    have "?k \<le> ?m - ?n mod ?m" using k(3) now by simp
    then have fits: "?n mod ?m + ?k \<le> ?m"
      using pm by (metis add.commute le_diff_conv2 less_imp_le)
    define s' where "s' = s\<lparr>bf_src := Some f', bf_vchBuf := overwrite (unat pos32) bs (bf_vchBuf s),
      bf_nSrcPos := bf_nSrcPos s + of_nat ?k\<rparr>"
    have len: "length (bf_vchBuf s') = ?m" using fits by (simp add: s'_def p)
    have "ring c (?n + ?k) (bf_vchBuf s')"
      using ring_fill [OF ring fits k(2) m(1)] k(4) by (simp add: s'_def p)
    moreover have "FILE_ok f'" using f k(2) by (auto simp: f'_def FILE_ok_def bs_def)
    moreover have "?k + unat (bf_nRewind s) \<le> ?m"
    proof -
      have "?k \<le> ?m - unat (bf_nRewind s)" using k(3) now by simp
      then show ?thesis using rew by linarith
    qed
    ultimately have inv': "CBufferedFile_inv c lim s'"
      using inv len src f k(2) eq unfolding CBufferedFile_inv_def
      by (simp add: s'_def f'_def)
    have "CBufferedFile_Fill s = (Inr True, s')" using k(1) by (simp add: fill s'_def)
    then show ?thesis using False inv' len src k(1) eq \<open>?k + unat (bf_nRewind s) \<le> ?m\<close>
      by (simp add: s'_def)
  qed
qed


lemma CBufferedFile_copy:
  fixes nSize :: u64
  assumes inv: "CBufferedFile_inv c lim s" and less: "unat (bf_nReadPos s) < unat (bf_nSrcPos s)"
    and N: "0 < unat nSize" "unat nSize \<le> length (bf_vchBuf s)"
  defines "pos \<equiv> ucast (bf_nReadPos s mod bf_size s) :: u32"
  defines "now1 \<equiv> (if nSize + ucast pos > bf_size s then bf_size s - ucast pos else nSize)"
  defines "now \<equiv> (if now1 + bf_nReadPos s > bf_nSrcPos s then bf_nSrcPos s - bf_nReadPos s else now1)"
  shows "0 < unat now" "unat now \<le> unat nSize"
    "take (unat now) (drop (unat pos) (bf_vchBuf s)) = take (unat now) (drop (unat (bf_nReadPos s)) c)"
    "unat (bf_nReadPos s + now) = unat (bf_nReadPos s) + unat now"
    "unat (bf_nReadPos s) + unat now \<le> unat (bf_nSrcPos s)"
    "CBufferedFile_inv c lim (s\<lparr>bf_nReadPos := bf_nReadPos s + now\<rparr>)"
proof -
  let ?m = "length (bf_vchBuf s)" and ?n = "unat (bf_nSrcPos s)" and ?r = "unat (bf_nReadPos s)"
  from inv have n: "?n \<le> length c" and m: "0 < ?m" "?m < 2 ^ 32" and c: "length c + ?m < 2 ^ 64 - 1"
    and ring: "ring c ?n (bf_vchBuf s)" and near: "?n \<le> ?r + ?m"
    by (auto simp: CBufferedFile_inv_def FILE_ok_def)
  define p where "p = ?r mod ?m"
  have p: "p < ?m" using m by (simp add: p_def)
  have pos: "unat pos = p" "unat (ucast pos :: u64) = p"
    by (simp_all add: pos_def CBufferedFile_pos [OF m] p_def unat_ucast_up)
  have sum: "unat (nSize + ucast pos) = unat nSize + p"
    using N p m by (simp add: unat_word_ariths pos)
  have now1: "unat now1 = min (unat nSize) (?m - p)"
    using p by (auto simp: now1_def word_less_nat_alt sum CBufferedFile_pos [OF m] unat_sub
        word_le_nat_alt pos min_def)
  have sum1: "unat (now1 + bf_nReadPos s) = unat now1 + ?r"
    using now1 N n c less by (simp add: unat_word_ariths)
  have now: "unat now = min (unat now1) (?n - ?r)"
    using less by (auto simp: now_def word_less_nat_alt sum1 unat_sub word_le_nat_alt min_def)
  show now_pos: "0 < unat now" using now now1 N p less by simp
  show "unat now \<le> unat nSize" unfolding now now1 by (simp add: min.coboundedI1)
  show adv: "?r + unat now \<le> ?n" using now less by simp
  have "?r + unat now < 2 ^ 64" using adv n c by linarith
  then show sum2: "unat (bf_nReadPos s + now) = ?r + unat now"
    by (simp add: unat_word_ariths)
  have "unat now \<le> ?m - p" unfolding now now1 by (simp add: min.coboundedI1)
  then have "p + unat now \<le> ?m" using p by simp
  then show "take (unat now) (drop (unat pos) (bf_vchBuf s)) = take (unat now) (drop ?r c)"
    using ring_slice [OF ring adv near n] by (simp add: pos p_def)
  show "CBufferedFile_inv c lim (s\<lparr>bf_nReadPos := bf_nReadPos s + now\<rparr>)"
    using inv adv sum2 near unfolding CBufferedFile_inv_def by simp
qed

text \<open>The last \<open>w\<close> bytes before the position are still buffered, or will be once the position is \<open>p\<close>.\<close>

definition CBufferedFile_fresh :: "nat \<Rightarrow> nat \<Rightarrow> CBufferedFile \<Rightarrow> bool" where
  "CBufferedFile_fresh w p s \<longleftrightarrow>
     unat (bf_nRewind s) = w \<and>
     unat (bf_nSrcPos s) + w \<le> max p (unat (bf_nReadPos s)) + length (bf_vchBuf s)"

lemma CBufferedFile_load:
  assumes "CBufferedFile_inv c lim s" "0 < lim"
  defines "ld \<equiv> (if bf_nReadPos s = bf_nSrcPos s then CBufferedFile_Fill s else (Inr False, s))"
  shows "if unat (bf_nReadPos s) = length c then \<exists>s1. ld = (Inl End_of_file, s1) \<and> CBufferedFile_ended s1
    else \<exists>b s1. ld = (Inr b, s1) \<and> CBufferedFile_inv c lim s1 \<and> bf_nReadPos s1 = bf_nReadPos s
      \<and> unat (bf_nReadPos s1) < unat (bf_nSrcPos s1) \<and> length (bf_vchBuf s1) = length (bf_vchBuf s)
      \<and> (CBufferedFile_fresh w p s \<longrightarrow> CBufferedFile_fresh w p s1)"
proof (cases "bf_nReadPos s = bf_nSrcPos s")
  case True
  with CBufferedFile_Fill_ok [OF assms(1) True assms(2)] show ?thesis
    by (auto simp: ld_def CBufferedFile_fresh_def split: if_splits)
next
  case False
  then have "unat (bf_nReadPos s) < unat (bf_nSrcPos s)" "unat (bf_nSrcPos s) \<le> length c"
    using assms(1) by (auto simp: CBufferedFile_inv_def FILE_ok_def le_less word_unat_eq_iff)
  with False assms(1) show ?thesis by (auto simp: ld_def)
qed

lemma CBufferedFile_read_loop_ok:
  "CBufferedFile_inv c lim s \<Longrightarrow> unat nSize \<le> lim \<Longrightarrow>
   if unat nSize \<le> length c - unat (bf_nReadPos s)
   then \<exists>s'. CBufferedFile_read_loop nSize pch s
       = Some (Inr (pch @ take (unat nSize) (drop (unat (bf_nReadPos s)) c)), s')
     \<and> CBufferedFile_inv c lim s' \<and> unat (bf_nReadPos s') = unat (bf_nReadPos s) + unat nSize
     \<and> (CBufferedFile_fresh w p s \<longrightarrow> CBufferedFile_fresh w p s')
   else \<exists>s'. CBufferedFile_read_loop nSize pch s = Some (Inl End_of_file, s') \<and> CBufferedFile_ended s'"
proof (induction "unat nSize" arbitrary: nSize pch s rule: less_induct)
  case less
  show ?case
  proof (cases "nSize = 0")
    case True
    then show ?thesis using less.prems by (simp add: CBufferedFile_read_loop.simps)
  next
    case False
    then have N: "0 < unat nSize" "nSize > 0" by (simp_all add: word_less_nat_alt unat_gt_0)
    then have lim: "0 < lim" using less.prems by simp
    have rc: "unat (bf_nReadPos s) \<le> length c"
      using less.prems(1) by (auto simp: CBufferedFile_inv_def FILE_ok_def)
    define ld where "ld = (if bf_nReadPos s = bf_nSrcPos s then CBufferedFile_Fill s else (Inr False, s))"
    note load = CBufferedFile_load [OF less.prems(1) lim, where w = w and p = p, folded ld_def]
    show ?thesis
    proof (cases "unat (bf_nReadPos s) = length c")
      case True
      with load obtain s1 where "ld = (Inl End_of_file, s1)" and ended: "CBufferedFile_ended s1" by auto
      then have "CBufferedFile_read_loop nSize pch s = Some (Inl End_of_file, s1)"
        using N by (subst CBufferedFile_read_loop.simps) (simp add: ld_def [symmetric])
      with True N ended show ?thesis by simp
    next
      case False
      with load obtain b s1 where ld: "ld = (Inr b, s1)" and inv1: "CBufferedFile_inv c lim s1"
        and rp: "bf_nReadPos s1 = bf_nReadPos s" and lt: "unat (bf_nReadPos s1) < unat (bf_nSrcPos s1)"
        and len: "length (bf_vchBuf s1) = length (bf_vchBuf s)"
        and fresh: "CBufferedFile_fresh w p s \<longrightarrow> CBufferedFile_fresh w p s1" by auto
      have Nm: "unat nSize \<le> length (bf_vchBuf s1)"
        using less.prems(2) inv1 by (auto simp: CBufferedFile_inv_def)
      define pos where "pos = (ucast (bf_nReadPos s1 mod bf_size s1) :: u32)"
      define now1 where "now1 = (if nSize + ucast pos > bf_size s1 then bf_size s1 - ucast pos else nSize)"
      define now where "now = (if now1 + bf_nReadPos s1 > bf_nSrcPos s1
        then bf_nSrcPos s1 - bf_nReadPos s1 else now1)"
      note copy = CBufferedFile_copy [OF inv1 lt N(1) Nm, folded pos_def, folded now1_def,
          folded now_def]
      define s2 where "s2 = s1\<lparr>bf_nReadPos := bf_nReadPos s1 + now\<rparr>"
      let ?r = "unat (bf_nReadPos s)"
      have step: "CBufferedFile_read_loop nSize pch s
          = CBufferedFile_read_loop (nSize - now) (pch @ take (unat now) (drop ?r c)) s2"
        using copy(3) unfolding rp
        by (subst CBufferedFile_read_loop.simps)
          (simp only: if_P [OF N(2)] ld_def [symmetric] ld prod.case sum.case Let_def
            pos_def [symmetric] now1_def [symmetric] now_def [symmetric] s2_def [symmetric])
      have sub: "unat (nSize - now) = unat nSize - unat now"
        using copy(2) by (simp add: unat_sub word_le_nat_alt)
      have r2: "unat (bf_nReadPos s2) = ?r + unat now" using copy(4) by (simp add: s2_def rp)
      have inv2: "CBufferedFile_inv c lim s2" using copy(6) by (simp add: s2_def)
      have fresh2: "CBufferedFile_fresh w p s1 \<longrightarrow> CBufferedFile_fresh w p s2"
        using copy(4) by (auto simp: CBufferedFile_fresh_def s2_def)
      have n1: "?r + unat now \<le> length c"
        using copy(5) inv1 by (auto simp: CBufferedFile_inv_def FILE_ok_def rp)
      have dec: "unat (nSize - now) < unat nSize" "unat (nSize - now) \<le> lim"
        using copy(1,2) sub less.prems(2) by simp_all
      note IH = less.hyps [OF dec(1) inv2 dec(2), of "pch @ take (unat now) (drop ?r c)"]
      have cond: "unat (nSize - now) \<le> length c - unat (bf_nReadPos s2) \<longleftrightarrow> unat nSize \<le> length c - ?r"
        using sub r2 n1 copy(2) by auto
      have bytes: "take (unat now) (drop ?r c) @ take (unat (nSize - now)) (drop (unat (bf_nReadPos s2)) c)
          = take (unat nSize) (drop ?r c)"
        using copy(2) sub r2 take_add [of "unat now" "unat nSize - unat now" "drop ?r c"]
        by (simp add: add.commute)
      have "unat (bf_nReadPos s2) + unat (nSize - now) = ?r + unat nSize"
        using sub copy(2) r2 by simp
      then show ?thesis using IH fresh fresh2
        unfolding cond step append.assoc bytes by (auto split: if_splits)
    qed
  qed
qed

lemma CBufferedFile_read_ok:
  assumes inv: "CBufferedFile_inv c lim s" and n: "n \<le> lim"
  shows "if n \<le> length (CBufferedFile_unread s)
    then \<exists>s'. CBufferedFile_read n s = (Inr (take n (CBufferedFile_unread s)), s')
      \<and> CBufferedFile_inv c lim s' \<and> CBufferedFile_unread s' = drop n (CBufferedFile_unread s)
      \<and> unat (bf_nReadPos s') = unat (bf_nReadPos s) + n
      \<and> (CBufferedFile_fresh w p s \<longrightarrow> CBufferedFile_fresh w p s')
    else \<exists>s'. CBufferedFile_read n s = (Inl End_of_file, s') \<and> CBufferedFile_ended s'"
proof -
  have m: "0 < length (bf_vchBuf s)" "length (bf_vchBuf s) < 2 ^ 32"
    and rew: "lim + unat (bf_nRewind s) \<le> length (bf_vchBuf s)" and max: "bf_nReadLimit s = u64_max"
    using inv by (auto simp: CBufferedFile_inv_def)
  have un: "CBufferedFile_unread t = drop (unat (bf_nReadPos t)) c" if "CBufferedFile_inv c lim t" for t
    using that by (auto simp: CBufferedFile_inv_def CBufferedFile_unread_def)
  have un_n: "unat (of_nat n :: u64) = n"
    using n rew m by (simp add: unsigned_of_nat take_bit_nat_eq_self_iff)
  have nolim: "\<not> x > u64_max" for x
    by (simp add: u64_max_def word_less_nat_alt)
  have "unat (of_nat n + bf_nRewind s) = n + unat (bf_nRewind s)"
    using n rew m by (simp add: unat_word_ariths un_n)
  then have "\<not> of_nat n + bf_nRewind s > bf_size s"
    using n rew by (simp add: word_less_nat_alt CBufferedFile_pos [OF m])
  then have "CBufferedFile_read n s = (case CBufferedFile_read_loop (of_nat n) [] s of
      None \<Rightarrow> (Inl Does_not_return, s) | Some r \<Rightarrow> r)"
    by (simp add: CBufferedFile_read_def CBufferedFile_read_opt_def max nolim)
  with CBufferedFile_read_loop_ok [OF inv, of "of_nat n" "[]"] n show ?thesis
    by (fastforce simp: un_n un [OF inv] un add.commute split: if_splits)
qed

interpretation buffered_file:
  byte_source CBufferedFile_read CBufferedFile_unread "CBufferedFile_inv c lim" lim for c lim
proof unfold_locales
  fix s n assume "CBufferedFile_inv c lim s" "n \<le> lim" "n \<le> length (CBufferedFile_unread s)"
  with CBufferedFile_read_ok show "\<exists>s'. CBufferedFile_read n s = (Inr (take n (CBufferedFile_unread s)), s')
      \<and> CBufferedFile_inv c lim s' \<and> CBufferedFile_unread s' = drop n (CBufferedFile_unread s)"
    by fastforce
next
  fix s n assume "CBufferedFile_inv c lim s" "n \<le> lim" "length (CBufferedFile_unread s) < n"
  with CBufferedFile_read_ok show "\<exists>e s'. CBufferedFile_read n s = (Inl e, s')"
    by (metis leD)
qed

text \<open>A deserialiser ends like on the bytes: with the value or the exception that it has there.\<close>

lemma CBufferedFile_run:
  "CBufferedFile_inv c lim s \<Longrightarrow> reads_at_most lim p \<Longrightarrow>
   (case run_list p (CBufferedFile_unread s) of
      (Inr x, rest) \<Rightarrow> \<exists>s'. run CBufferedFile_read p s = (Inr x, s') \<and> CBufferedFile_unread s' = rest
    | (Inl e, _) \<Rightarrow> \<exists>e' s'. run CBufferedFile_read p s = (Inl e', s') \<and> (e' = e \<or> e = End_of_data \<and> e' = End_of_file))"
proof (induction p arbitrary: s)
  case (Read n k)
  have n: "n \<le> lim" "\<And>bs. reads_at_most lim (k bs)" using Read.prems(2) by simp_all
  note rd = CBufferedFile_read_ok [OF Read.prems(1) n(1)]
  show ?case
  proof (cases "n \<le> length (CBufferedFile_unread s)")
    case True
    then obtain s' where s': "CBufferedFile_read n s = (Inr (take n (CBufferedFile_unread s)), s')"
      "CBufferedFile_inv c lim s'" "CBufferedFile_unread s' = drop n (CBufferedFile_unread s)" using rd by auto
    have turn: "run CBufferedFile_read (Read n k) s = run CBufferedFile_read (k (take n (CBufferedFile_unread s))) s'"
      "run_list (Read n k) (CBufferedFile_unread s) = run_list (k (take n (CBufferedFile_unread s))) (CBufferedFile_unread s')"
      using s' True by (simp_all add: list_read_def)
    show ?thesis unfolding turn by (rule Read.IH [OF rangeI s'(2) n(2)])
  next
    case False
    then show ?thesis using rd by (auto simp: list_read_def)
  qed
qed simp_all

text \<open>As long as \<^verbatim>\<open>SetPos\<close> has not gone back, the last \<^verbatim>\<open>nRewind\<close> bytes read are still buffered.\<close>

interpretation buffered_file_fresh:
  byte_source CBufferedFile_read CBufferedFile_unread
    "\<lambda>s. CBufferedFile_inv c lim s \<and> CBufferedFile_fresh w p s" lim for c lim w p
proof unfold_locales
  fix s n assume "CBufferedFile_inv c lim s \<and> CBufferedFile_fresh w p s" "n \<le> lim"
    "n \<le> length (CBufferedFile_unread s)"
  with CBufferedFile_read_ok show "\<exists>s'. CBufferedFile_read n s = (Inr (take n (CBufferedFile_unread s)), s')
      \<and> (CBufferedFile_inv c lim s' \<and> CBufferedFile_fresh w p s')
      \<and> CBufferedFile_unread s' = drop n (CBufferedFile_unread s)"
    by fastforce
next
  fix s n assume "CBufferedFile_inv c lim s \<and> CBufferedFile_fresh w p s" "n \<le> lim"
    "length (CBufferedFile_unread s) < n"
  with CBufferedFile_read_ok show "\<exists>e s'. CBufferedFile_read n s = (Inl e, s')"
    by (metis leD)
qed

lemma CBufferedFile_new_inv:
  assumes "FILE_ok f" "f_offset f = 0" "0 < unat nBufSize" "unat nBufSize < 2 ^ 32"
    "length (f_content f) + unat nBufSize < 2 ^ 64 - 1" "lim + unat nRewind \<le> unat nBufSize"
  defines "s \<equiv> CBufferedFile_new (Some f) nBufSize nRewind"
  shows "CBufferedFile_inv (f_content f) lim s" "CBufferedFile_fresh (unat nRewind) 0 s"
    "CBufferedFile_unread s = f_content f"
  using assms by (auto simp: CBufferedFile_inv_def CBufferedFile_new_def CBufferedFile_fresh_def
      CBufferedFile_unread_def ring_def)

lemma CBufferedFile_SetPos_ok:
  assumes inv: "CBufferedFile_inv c lim s" and fresh: "CBufferedFile_fresh w p0 s" and p0: "p0 \<le> unat (bf_nReadPos s)"
    and pos: "unat p \<le> unat (bf_nReadPos s)" "unat (bf_nReadPos s) \<le> unat p + w"
  shows "\<exists>s'. CBufferedFile_SetPos p s = (True, s') \<and> CBufferedFile_inv c lim s'
    \<and> CBufferedFile_unread s' = drop (unat p) c \<and> CBufferedFile_fresh w (unat (bf_nReadPos s)) s'"
proof -
  have "\<not> p > bf_nSrcPos s"
    using inv pos by (auto simp: CBufferedFile_inv_def word_less_nat_alt)
  moreover have "CBufferedFile_inv c lim (s\<lparr>bf_nReadPos := p\<rparr>)"
    using inv fresh pos p0 by (auto simp: CBufferedFile_inv_def CBufferedFile_fresh_def)
  ultimately show ?thesis using inv fresh p0
    by (auto simp: CBufferedFile_SetPos_def CBufferedFile_unread_def CBufferedFile_inv_def CBufferedFile_fresh_def)
qed

subsection \<open>Properties\<close>

text \<open>(C30) \<^verbatim>\<open>CDataStream\<close> is a first-in first-out queue of objects: an object put in with \<^verbatim>\<open><<\<close> behind
  nothing comes out unchanged with \<^verbatim>\<open>>>\<close>, and what was put in after it is left in the stream, as long
  as the buffer stays below four gigabytes.\<close>

theorem CDataStream_fifo:
  assumes "codec ser unser ok" "ok x" "reads_at_most lim unser"
    and "CDataStream_inv lim s" "CDataStream_unread s = []"
    and "length (vch s) + length (bytes_written (ser x @ ws)) + lim < 2 ^ 32"
  shows "\<exists>s'. CDataStream_shr (CDataStream_shl s (ser x @ ws)) unser = (Inr x, s')
    \<and> CDataStream_unread s' = bytes_written ws \<and> CDataStream_inv lim s'"
proof -
  let ?s = "CDataStream_shl s (ser x @ ws)"
  have inv: "CDataStream_inv lim ?s"
    unfolding CDataStream_shl_eq by (rule CDataStream_write_inv [OF assms(4,6)])
  have "CDataStream_unread ?s = bytes_written (ser x) @ bytes_written ws"
    using assms(4,5) by (simp add: CDataStream_shl_eq CDataStream_write_unread)
  then have "run_list unser (CDataStream_unread ?s) = (Inr x, bytes_written ws)"
    using codec.roundtrip [OF assms(1,2)] by simp
  from data_stream.run_ok [OF inv assms(3) this] show ?thesis
    unfolding CDataStream_shr_def by metis
qed

theorem CDataStream_fifo_witness:
  "\<exists>s'. CDataStream_shr (CDataStream_shl (CDataStream_Init [] 2 70015)
      (Serialize_vec (\<lambda>x. [Write (ser_writedata32 x)]) [7, 9] @ [CompactSize 300]))
      (Unserialize_vec 4 ser_readdata32) = (Inr [7, 9], s')
    \<and> CDataStream_unread s' = bytes_written [CompactSize 300] \<and> CDataStream_inv 8 s'"
  by (rule CDataStream_fifo [OF codec_vec [OF u32.codec_axioms]])
    (simp_all add: max_size_eq bounded_intros CDataStream_inv_def CDataStream_Init_def
      CDataStream_unread_def Serialize_vec_def WriteCompactSize_def write_simps)

text \<open>The bounds check of \<^verbatim>\<open>CDataStream::read\<close> compares a sum cut to 32 bits: a read leaves the buffer
  exactly when it asks for more than is there and the sum, modulo \<open>2 ^ 32\<close>, is not beyond the end.\<close>

theorem CDataStream_read_out_of_bounds:
  assumes "unat (ds_nReadPos s) \<le> length (vch s)"
  shows "fst (CDataStream_read n s) = Inl Out_of_bounds_access
    \<longleftrightarrow> length (vch s) < unat (ds_nReadPos s) + n
      \<and> (unat (ds_nReadPos s) + n) mod 2 ^ 32 \<le> length (vch s)"
proof -
  have "unat (ds_nReadPos s + of_nat n) = (unat (ds_nReadPos s) + n) mod 2 ^ 32"
    by (simp add: unat_word_ariths unsigned_of_nat take_bit_eq_mod mod_add_right_eq)
  then show ?thesis using assms by (auto simp: CDataStream_read_def Let_def)
qed

theorem CDataStream_read_out_of_bounds_witness:
  "fst (CDataStream_read (2 ^ 32 - 1)
      \<lparr>vch = [1, 2, 3], ds_nReadPos = 1, ds_nType = 0, ds_nVersion = 0\<rparr>) = Inl Out_of_bounds_access"
  by (subst CDataStream_read_out_of_bounds) simp_all

text \<open>Inserting a range at \<^verbatim>\<open>begin()\<close> puts it in front of the unread bytes, both when there is room
  before the read position (the special case, which overwrites bytes already read) and when there
  is not.\<close>

theorem CDataStream_insert_front:
  assumes "CDataStream_inv lim s" "length xs < 2 ^ 32"
  shows "\<exists>s'. CDataStream_insert_range s (CDataStream_begin s) xs = Inr s'
    \<and> CDataStream_str s' = xs @ CDataStream_str s"
  using CDataStream_insert_range_unread [OF assms] by (simp add: CDataStream_str_unread)

theorem CDataStream_insert_front_witness:
  "\<exists>s'. CDataStream_insert_range \<lparr>vch = [1, 2, 3], ds_nReadPos = 2, ds_nType = 0, ds_nVersion = 0\<rparr> 2 [9]
      = Inr s' \<and> CDataStream_str s' = [9, 3]"
  using CDataStream_insert_front [of 0 "\<lparr>vch = [1, 2, 3], ds_nReadPos = 2, ds_nType = 0, ds_nVersion = 0\<rparr>" "[9]"]
  by (simp add: CDataStream_inv_def CDataStream_begin_def CDataStream_str_def CDataStream_end_def)

text \<open>What \<^verbatim>\<open>CVectorWriter\<close> writes at a position of a vector, growing it as needed, a
  \<^verbatim>\<open>VectorReader\<close> started at that position reads back, and the bytes before the position are kept.\<close>

theorem CVectorWriter_VectorReader:
  assumes "codec ser unser ok" "ok x" "reads_at_most lim unser"
    and "nPos + length (bytes_written (ser x)) + length v + lim < 2 ^ 64"
  shows "let d = cvw_vchData (CVectorWriter_shift (CVectorWriter_new t ver v nPos) (ser x)) in
    take (min nPos (length v)) d = take nPos v \<and>
    (\<exists>r r'. VectorReader_new t ver d (of_nat nPos) = Inr r
      \<and> run VectorReader_read unser r = (Inr x, r'))"
proof -
  let ?w = "CVectorWriter_new t ver v nPos"
  let ?v = "cvw_vchData ?w"
  define d where "d = cvw_vchData (CVectorWriter_shift ?w (ser x))"
  have w: "CVectorWriter_inv ?w" "cvw_nPos ?w = nPos"
    by (rule CVectorWriter_new_inv) (simp add: CVectorWriter_new_def)
  have d: "d = overwrite nPos (bytes_written (ser x)) ?v"
    by (simp add: d_def CVectorWriter_shift_eq [OF w(1)] CVectorWriter_write_eq [OF w(1)] w(2))
  have v: "nPos \<le> length ?v" "take (min nPos (length v)) ?v = take nPos v"
    using w by (auto simp: CVectorWriter_inv_def CVectorWriter_new_def)
  have "length d \<le> nPos + length (bytes_written (ser x)) + length v"
    by (simp add: d overwrite_def CVectorWriter_new_def)
  then have len: "length d + lim < 2 ^ 64" using assms(4) by simp
  have ge: "nPos \<le> length d" using v by (simp add: d overwrite_def)
  have pos: "unat (of_nat nPos :: u64) = nPos"
    using assms(4) by (simp add: unsigned_of_nat take_bit_nat_eq_self_iff)
  define r where "r = \<lparr>vr_type = t, vr_version = ver, vr_data = d, vr_pos = of_nat nPos\<rparr>"
  have new: "VectorReader_new t ver d (of_nat nPos) = Inr r"
    using ge by (simp add: VectorReader_new_def pos r_def)
  note r = VectorReader_new_inv [OF len new]
  have "VectorReader_unread r = bytes_written (ser x) @ drop (nPos + length (bytes_written (ser x))) ?v"
    using r v(1) by (simp add: pos d drop_overwrite)
  then have "run_list unser (VectorReader_unread r)
      = (Inr x, drop (nPos + length (bytes_written (ser x))) ?v)"
    using codec.roundtrip [OF assms(1,2)] by simp
  then obtain r' where "run VectorReader_read unser r = (Inr x, r')"
    using vector_reader.run_ok [OF _ assms(3)] r by metis
  moreover have "take (min nPos (length v)) d = take nPos v"
    using v by (simp add: d overwrite_def)
  ultimately show ?thesis using new by (auto simp: d_def [symmetric])
qed

theorem CVectorWriter_VectorReader_witness:
  "let d = cvw_vchData (CVectorWriter_shift (CVectorWriter_new 0 0 [1, 2, 3] 1) [CompactSize 1000]) in
    take (min 1 (length [1, 2, 3 :: byte])) d = take 1 [1, 2, 3] \<and>
    (\<exists>r r'. VectorReader_new 0 0 d (of_nat 1) = Inr r
      \<and> run VectorReader_read ReadCompactSize r = (Inr 1000, r'))"
  by (rule CVectorWriter_VectorReader [OF compact.codec_axioms, where lim = 8])
    (simp_all add: MAX_SIZE_def bounded_intros WriteCompactSize_def write_simps)

text \<open>Numbers written with \<^verbatim>\<open>BitStreamWriter\<close>, each in its own number of bits, and flushed, are read
  back by \<^verbatim>\<open>BitStreamReader\<close> with the same widths, each reduced to its width, and no byte is left.\<close>

theorem BitStream_roundtrip:
  assumes "\<forall>(data, nbits) \<in> set items. 0 \<le> nbits \<and> nbits \<le> 64"
  shows "\<exists>w r. BitStreamWriter_Write_items items (BitStreamWriter_new []) = Inr w
    \<and> run_list (BitStreamReader_Read_items (map snd items) BitStreamReader_new)
        (bw_ostream (BitStreamWriter_Flush w))
      = (Inr (map (\<lambda>(data, nbits). take_bit (nat nbits) data) items, r), [])"
proof -
  have "BitStreamWriter_inv (BitStreamWriter_new [])"
    by (simp add: BitStreamWriter_inv_def BitStreamWriter_new_def)
  from BitStreamWriter_Write_items_bits [OF assms this] obtain w where
    w: "BitStreamWriter_Write_items items (BitStreamWriter_new []) = Inr w" "BitStreamWriter_inv w"
      "BitStreamWriter_bits w = concat (map item_bits items)"
    by (auto simp: BitStreamWriter_bits_def BitStreamWriter_new_def)
  obtain pad where pad: "concat (map byte_bits (bw_ostream (BitStreamWriter_Flush w)))
      = BitStreamWriter_bits w @ pad" "length pad < 8"
    using BitStreamWriter_Flush_bits [OF w(2)] .
  have "br_offset BitStreamReader_new \<le> 8" "BitStreamReader_bits BitStreamReader_new = []"
    by (simp_all add: BitStreamReader_new_def BitStreamReader_bits_def)
  with BitStreamReader_Read_items_bits [OF assms, of BitStreamReader_new
      "bw_ostream (BitStreamWriter_Flush w)" pad] pad(1) w(3)
  obtain r bs' where r: "run_list (BitStreamReader_Read_items (map snd items) BitStreamReader_new)
        (bw_ostream (BitStreamWriter_Flush w))
      = (Inr (map (\<lambda>(data, nbits). take_bit (nat nbits) data) items, r), bs')"
    "BitStreamReader_bits r @ concat (map byte_bits bs') = pad" by auto
  from r(2) pad(2) have "bs' = []" by (cases bs') auto
  with w(1) r(1) show ?thesis by blast
qed

theorem BitStream_roundtrip_witness:
  "\<exists>w r. BitStreamWriter_Write_items [(5, 3), (0x1234, 12)] (BitStreamWriter_new []) = Inr w
    \<and> run_list (BitStreamReader_Read_items [3, 12] BitStreamReader_new)
        (bw_ostream (BitStreamWriter_Flush w)) = (Inr ([5, 0x234], r), [])"
  using BitStream_roundtrip [of "[(5, 3), (0x1234, 12)]"]
  by (simp add: take_bit_eq_mod)

text \<open>(C10) Deserialising from a \<^verbatim>\<open>CBufferedFile\<close> gives what deserialising from the bytes of the file
  gives, whatever the size of the ring buffer: the same value with the same bytes left, or the same
  exception, where the end of the bytes is the exception for the end of the file. In particular no loop of
  the buffered file goes on for ever and nothing undefined happens, unless the deserialiser itself does it.
  The single reads together with the rewind distance must fit in the buffer.\<close>

theorem CBufferedFile_refines_file:
  assumes "FILE_ok f" "f_offset f = 0" "0 < unat nBufSize" "unat nBufSize < 2 ^ 32"
    "length (f_content f) + unat nBufSize < 2 ^ 64 - 1" "lim + unat nRewind \<le> unat nBufSize"
    and "reads_at_most lim p"
  shows "case run_list p (f_content f) of
      (Inr x, rest) \<Rightarrow> \<exists>s'. run CBufferedFile_read p (CBufferedFile_new (Some f) nBufSize nRewind)
          = (Inr x, s') \<and> CBufferedFile_unread s' = rest
    | (Inl e, _) \<Rightarrow> \<exists>e' s'. run CBufferedFile_read p (CBufferedFile_new (Some f) nBufSize nRewind)
          = (Inl e', s') \<and> (e' = e \<or> e = End_of_data \<and> e' = End_of_file)"
proof -
  note new = CBufferedFile_new_inv [OF assms(1-6)]
  from CBufferedFile_run [OF new(1) assms(7)] show ?thesis
    unfolding new(3) by (auto split: prod.splits sum.splits)
qed

theorem CBufferedFile_refines_file_witness:
  "\<exists>s'. run CBufferedFile_read (Unserialize_elems ser_readdata16 3 [])
      (CBufferedFile_new (Some \<lparr>f_content = [1, 0, 2, 0, 3, 0, 4], f_offset = 0, f_readable = 7,
         f_capacity = 7, f_eof = False\<rparr>) 5 2) = (Inr [1, 2, 3], s') \<and> CBufferedFile_unread s' = [4]"
proof -
  let ?f = "\<lparr>f_content = [1, 0, 2, 0, 3, 0, 4], f_offset = 0, f_readable = 7, f_capacity = 7, f_eof = False\<rparr>"
  have "reads_at_most 3 (Unserialize_elems ser_readdata16 3 [])"
    by (intro reads_at_most_Unserialize_elems bounded_intros) simp
  moreover have "run_list (Unserialize_elems ser_readdata16 3 []) [1, 0, 2, 0, 3, 0, 4] = (Inr [1, 2, 3], [4])"
  proof -
    have "length [1, 2, 3 :: u16] = 3"
      "bytes_written (concat (map (\<lambda>x. [Write (ser_writedata16 x)]) [1, 2, 3])) = [1, 0, 2, 0, 3, 0]"
      by (simp_all add: write_simps le_bytes_2)
    then show ?thesis using u16.elems_roundtrip [of "[1, 2, 3]" "[]" "[4]"] by (simp only: append.simps simp_thms) simp
  qed
  ultimately show ?thesis
    using CBufferedFile_refines_file [of ?f 5 3 2 "Unserialize_elems ser_readdata16 3 []"]
    by (simp add: FILE_ok_def)
qed

text \<open>(C32) The rewind guarantee of \<^verbatim>\<open>CBufferedFile\<close>: after any deserialisation that only reads, \<^verbatim>\<open>SetPos\<close> to a
  position at most \<^verbatim>\<open>nRewind\<close> bytes back succeeds, and the stream then continues with the bytes of the
  file from that position, although the ring buffer has been overwritten in between.\<close>

theorem CBufferedFile_rewind:
  assumes "FILE_ok f" "f_offset f = 0" "0 < unat nBufSize" "unat nBufSize < 2 ^ 32"
    "length (f_content f) + unat nBufSize < 2 ^ 64 - 1" "lim + unat nRewind \<le> unat nBufSize"
    and "reads_at_most lim p" "run_list p (f_content f) = (Inr x, rest)"
    and "unat nPos \<le> length (f_content f) - length rest"
    and "length (f_content f) - length rest \<le> unat nPos + unat nRewind"
  shows "\<exists>s s'. run CBufferedFile_read p (CBufferedFile_new (Some f) nBufSize nRewind) = (Inr x, s)
    \<and> CBufferedFile_SetPos nPos s = (True, s') \<and> CBufferedFile_unread s' = drop (unat nPos) (f_content f)"
proof -
  note new = CBufferedFile_new_inv [OF assms(1-6)]
  obtain s where s: "run CBufferedFile_read p (CBufferedFile_new (Some f) nBufSize nRewind) = (Inr x, s)"
    "CBufferedFile_inv (f_content f) lim s \<and> CBufferedFile_fresh (unat nRewind) 0 s" "CBufferedFile_unread s = rest"
    using buffered_file_fresh.run_refines [OF conjI [OF new(1,2)] assms(7)] assms(8) new(3) by auto
  have "rest = drop (unat (bf_nReadPos s)) (f_content f)"
    using s(2,3) by (auto simp: CBufferedFile_unread_def CBufferedFile_inv_def)
  moreover have "unat (bf_nReadPos s) \<le> length (f_content f)"
    using s(2) by (auto simp: CBufferedFile_inv_def FILE_ok_def)
  ultimately have "unat nPos \<le> unat (bf_nReadPos s)"
    "unat (bf_nReadPos s) \<le> unat nPos + unat nRewind"
    using assms(9,10) by simp_all
  with CBufferedFile_SetPos_ok [of "f_content f" lim s _ 0] s show ?thesis by (metis le0)
qed

theorem CBufferedFile_rewind_witness:
  "\<exists>s s'. run CBufferedFile_read (Unserialize_elems ser_readdata8 6 [])
      (CBufferedFile_new (Some \<lparr>f_content = [1, 2, 3, 4, 5, 6, 7], f_offset = 0, f_readable = 7,
         f_capacity = 7, f_eof = False\<rparr>) 5 2) = (Inr [1, 2, 3, 4, 5, 6], s)
    \<and> CBufferedFile_SetPos 4 s = (True, s') \<and> CBufferedFile_unread s' = [5, 6, 7]"
proof -
  let ?f = "\<lparr>f_content = [1, 2, 3, 4, 5, 6, 7], f_offset = 0, f_readable = 7, f_capacity = 7, f_eof = False\<rparr>"
  have "reads_at_most 1 (Unserialize_elems ser_readdata8 6 [])"
    by (intro reads_at_most_Unserialize_elems bounded_intros) simp
  moreover have "run_list (Unserialize_elems ser_readdata8 6 []) [1, 2, 3, 4, 5, 6, 7]
      = (Inr [1, 2, 3, 4, 5, 6], [7])"
  proof -
    have "length [1, 2, 3, 4, 5, 6 :: byte] = 6"
      "bytes_written (concat (map (\<lambda>x. [Write (ser_writedata8 x)]) [1, 2, 3, 4, 5, 6])) = [1, 2, 3, 4, 5, 6]"
      by (simp_all add: write_simps)
    then show ?thesis using u8.elems_roundtrip [of "[1, 2, 3, 4, 5, 6]" "[]" "[7]"] by (simp only: append.simps simp_thms) simp
  qed
  ultimately show ?thesis
    using CBufferedFile_rewind [of ?f 5 1 2 "Unserialize_elems ser_readdata8 6 []"
        "[1, 2, 3, 4, 5, 6]" "[7]" 4]
    by (simp add: FILE_ok_def)
qed

text \<open>\<^verbatim>\<open>CDataStream::Xor\<close> with the same key undoes itself, on every stream shorter than \<open>2 ^ 64\<close> bytes.\<close>

theorem CDataStream_Xor_involutive:
  assumes "CDataStream_inv lim s"
  shows "CDataStream_Xor (CDataStream_Xor s key) key = s"
proof (cases "key = []")
  case False
  let ?n = "unat (CDataStream_size s)"
  have "?n \<le> length (vch s)"
  proof -
    have "length (CDataStream_unread s) < 2 ^ 64"
      using assms by (simp add: CDataStream_inv_def CDataStream_unread_def less_imp_diff_less)
    then have "?n = length (CDataStream_unread s)"
      by (simp add: CDataStream_size_unread [OF assms] unsigned_of_nat take_bit_nat_eq_self_iff)
    then show ?thesis by (simp add: CDataStream_unread_def)
  qed
  then have "length (CDataStream_Xor_loop key ?n 0 0 (vch s)) = length (vch s)"
    "CDataStream_Xor_loop key ?n 0 0 (CDataStream_Xor_loop key ?n 0 0 (vch s)) = vch s"
    using nth_CDataStream_Xor_loop [of 0 key 0 ?n "vch s"] CDataStream_Xor_loop_twice [OF False, of ?n "vch s"]
      False by auto
  then show ?thesis using False by (simp add: CDataStream_Xor_def CDataStream_size_def)
qed (simp add: CDataStream_Xor_def)

theorem CDataStream_Xor_involutive_witness:
  "CDataStream_Xor (CDataStream_Xor (CDataStream_Init [1, 2, 3] 0 0) [0xF0, 0x0F]) [0xF0, 0x0F]
    = CDataStream_Init [1, 2, 3] 0 0"
  by (rule CDataStream_Xor_involutive [of 0]) (simp add: CDataStream_Init_unread)

end
