(* ===== verification/StrEncodings.thy ===== *)
theory StrEncodings
  imports Prelude
begin

section \<open>Text encodings: util_strencodings.h, strencodings.cpp\<close>

text \<open>
  A \<^verbatim>\<open>std::string\<close> is a \<open>string\<close> and a \<^verbatim>\<open>std::vector<unsigned char>\<close> a list of bytes. A \<^verbatim>\<open>const char *\<close> is
  the list of the characters before the terminating NUL; the end of the list is that NUL. Character
  arithmetic is on the codes \<open>code c\<close>. The functions that report success in a \<^verbatim>\<open>bool\<close> and their result
  through a pointer return an option.
\<close>

abbreviation code :: "char \<Rightarrow> nat" where
  "code c \<equiv> of_char c"

abbreviation chr :: "nat \<Rightarrow> char" where
  "chr n \<equiv> char_of n"

lemma code_less [simp]: "code c < 256"
  by simp

subsection \<open>Characters\<close>

definition IsDigit :: "char \<Rightarrow> bool" where
  "IsDigit c \<longleftrightarrow> code CHR ''0'' \<le> code c \<and> code c \<le> code CHR ''9''"

definition IsSpace :: "char \<Rightarrow> bool" where
  "IsSpace c \<longleftrightarrow> c = CHR '' '' \<or> c = CHR 0x0C \<or> c = CHR 0x0A \<or> c = CHR 0x0D \<or> c = CHR 0x09
     \<or> c = CHR 0x0B"

definition ToLower :: "char \<Rightarrow> char" where
  "ToLower c = (if code CHR ''A'' \<le> code c \<and> code c \<le> code CHR ''Z''
     then chr ((code c - code CHR ''A'') + code CHR ''a'') else c)"

definition ToUpper :: "char \<Rightarrow> char" where
  "ToUpper c = (if code CHR ''a'' \<le> code c \<and> code c \<le> code CHR ''z''
     then chr ((code c - code CHR ''a'') + code CHR ''A'') else c)"

definition Downcase :: "string \<Rightarrow> string" where
  "Downcase str = map ToLower str"

fun Capitalize :: "string \<Rightarrow> string" where
  "Capitalize [] = []"
| "Capitalize (c # str) = ToUpper c # str"

definition CHARS_ALPHA_NUM :: string where
  "CHARS_ALPHA_NUM = ''abcdefghijklmnopqrstuvwxyzABCDEFGHIJKLMNOPQRSTUVWXYZ0123456789''"

datatype SafeChars = SAFE_CHARS_DEFAULT | SAFE_CHARS_UA_COMMENT | SAFE_CHARS_FILENAME | SAFE_CHARS_URI

fun SAFE_CHARS :: "SafeChars \<Rightarrow> string" where
  "SAFE_CHARS SAFE_CHARS_DEFAULT = CHARS_ALPHA_NUM @ '' .,;-_/:?@()''"
| "SAFE_CHARS SAFE_CHARS_UA_COMMENT = CHARS_ALPHA_NUM @ '' .,;-_?@''"
| "SAFE_CHARS SAFE_CHARS_FILENAME = CHARS_ALPHA_NUM @ ''.-_''"
| "SAFE_CHARS SAFE_CHARS_URI = CHARS_ALPHA_NUM @ ''!*'' @ [CHR 0x27] @ ''();:@&=+$,/?#[]-_.~%''"

fun SanitizeString_loop :: "string \<Rightarrow> SafeChars \<Rightarrow> string \<Rightarrow> string" where
  "SanitizeString_loop [] rule strResult = strResult"
| "SanitizeString_loop (c # str) rule strResult =
     SanitizeString_loop str rule
       (if c \<in> set (SAFE_CHARS rule) then strResult @ [c] else strResult)"

definition SanitizeString :: "string \<Rightarrow> SafeChars \<Rightarrow> string" where
  "SanitizeString str rule = SanitizeString_loop str rule []"

subsection \<open>Hexadecimal\<close>

definition p_util_hexdigit :: "int list" where
  "p_util_hexdigit =
     replicate 16 (-1) @ replicate 16 (-1) @ replicate 16 (-1)
     @ [0, 1, 2, 3, 4, 5, 6, 7, 8, 9, -1, -1, -1, -1, -1, -1]
     @ [-1, 0xa, 0xb, 0xc, 0xd, 0xe, 0xf, -1, -1, -1, -1, -1, -1, -1, -1, -1]
     @ replicate 16 (-1)
     @ [-1, 0xa, 0xb, 0xc, 0xd, 0xe, 0xf, -1, -1, -1, -1, -1, -1, -1, -1, -1]
     @ replicate 16 (-1) @ replicate 16 (-1) @ replicate 16 (-1) @ replicate 16 (-1)
     @ replicate 16 (-1) @ replicate 16 (-1) @ replicate 16 (-1) @ replicate 16 (-1)
     @ replicate 16 (-1)"

definition HexDigit :: "char \<Rightarrow> int" where
  "HexDigit c = p_util_hexdigit ! code c"

definition IsHex :: "string \<Rightarrow> bool" where
  "IsHex str \<longleftrightarrow>
     (if \<exists>c \<in> set str. HexDigit c < 0 then False else length str > 0 \<and> length str mod 2 = 0)"

definition IsHexNumber :: "string \<Rightarrow> bool" where
  "IsHexNumber str =
     (let starting_location =
        (if length str > 2 \<and> str ! 0 = CHR ''0'' \<and> str ! 1 = CHR ''x'' then 2 else 0 :: nat)
      in if \<exists>c \<in> set (drop starting_location str). HexDigit c < 0 then False
         else length str > starting_location)"

fun ParseHex :: "string \<Rightarrow> byte list" where
  "ParseHex [] = []"
| "ParseHex [a] = []"
| "ParseHex (a # b # psz) =
     (if IsSpace a then ParseHex (b # psz)
      else if HexDigit a = -1 then []
      else let n = word_of_int (16 * HexDigit a) in
        if HexDigit b = -1 then []
        else (n OR word_of_int (HexDigit b)) # ParseHex psz)"

definition hexmap :: string where
  "hexmap = ''0123456789abcdef''"

fun HexStr :: "byte list \<Rightarrow> string" where
  "HexStr [] = []"
| "HexStr (val # rest) =
     hexmap ! unat (drop_bit 4 val) # hexmap ! unat (val AND 15) # HexStr rest"

lemma p_util_hexdigit_nth:
  "n < 256 \<Longrightarrow> p_util_hexdigit ! n =
    (if 48 \<le> n \<and> n \<le> 57 then int n - 48
     else if 65 \<le> n \<and> n \<le> 70 then int n - 55
     else if 97 \<le> n \<and> n \<le> 102 then int n - 87 else -1)"
proof -
  have "list_all (\<lambda>n. p_util_hexdigit ! n =
    (if 48 \<le> n \<and> n \<le> 57 then int n - 48
     else if 65 \<le> n \<and> n \<le> 70 then int n - 55
     else if 97 \<le> n \<and> n \<le> 102 then int n - 87 else -1)) [0..<256]" by code_simp
  then show "n < 256 \<Longrightarrow> ?thesis" by (simp add: list_all_iff)
qed

lemma HexDigit_eq:
  "HexDigit c =
    (if 48 \<le> code c \<and> code c \<le> 57 then int (code c) - 48
     else if 65 \<le> code c \<and> code c \<le> 70 then int (code c) - 55
     else if 97 \<le> code c \<and> code c \<le> 102 then int (code c) - 87 else -1)"
  unfolding HexDigit_def by (rule p_util_hexdigit_nth) (rule code_less)

lemma hexmap_digits:
  "n < 16 \<Longrightarrow> HexDigit (hexmap ! n) = int n \<and> HexDigit (hexmap ! n) \<noteq> -1
     \<and> \<not> IsSpace (hexmap ! n)"
proof -
  have "list_all (\<lambda>n. HexDigit (hexmap ! n) = int n \<and> HexDigit (hexmap ! n) \<noteq> -1
      \<and> \<not> IsSpace (hexmap ! n)) [0..<16]" by code_simp
  then show "n < 16 \<Longrightarrow> ?thesis" by (simp add: list_all_iff)
qed

lemma nibbles: "unat (drop_bit 4 (b :: byte)) < 16" "unat (b AND 15) < 16"
proof -
  have "unat b div 16 < 16" using unat_bounds(1) [of b] by linarith
  then show "unat (drop_bit 4 b) < 16" by (simp add: drop_bit_eq_div unat_div)
  have "b AND 15 = take_bit 4 b" using take_bit_eq_mask [of 4 b] by (simp add: mask_eq_exp_minus_1)
  then have "unat (b AND 15) = take_bit 4 (unat b)" by (simp only: unsigned_take_bit_eq)
  then have "unat (b AND 15) = unat b mod 16" by (simp add: take_bit_eq_mod)
  then show "unat (b AND 15) < 16" by simp
qed

lemma nibbles_join:
  "word_of_int (16 * int (unat (drop_bit 4 b))) OR word_of_int (int (unat (b AND 15))) = (b :: byte)"
proof -
  have "word_of_int (16 * int (unat (drop_bit 4 b))) = push_bit 4 (drop_bit 4 b)"
    by (simp add: push_bit_eq_mult)
  moreover have "b AND 15 = take_bit 4 b"
    using take_bit_eq_mask [of 4 b] by (simp add: mask_eq_exp_minus_1)
  ultimately show ?thesis
    by simp (rule bit_eqI, auto simp: bit_simps)
qed

lemma ParseHex_HexStr_append: "ParseHex (HexStr bs @ rest) = bs @ ParseHex rest"
proof (induction bs)
  case Nil
  then show ?case by simp
next
  case (Cons b bs)
  then show ?case
    using hexmap_digits [OF nibbles(1), of b] hexmap_digits [OF nibbles(2), of b] nibbles_join [of b]
    by (simp add: Let_def)
qed

lemma IsHex_HexStr: "bs \<noteq> [] \<Longrightarrow> IsHex (HexStr bs)"
proof -
  have digit: "n < 16 \<Longrightarrow> 0 \<le> HexDigit (hexmap ! n)" for n using hexmap_digits by simp
  have "c \<in> set (HexStr bs) \<Longrightarrow> 0 \<le> HexDigit c" for c
    by (induction bs) (auto simp only: HexStr.simps list.set insert_iff empty_iff digit nibbles)
  moreover have "length (HexStr bs) = 2 * length bs" by (induction bs) auto
  ultimately show "bs \<noteq> [] \<Longrightarrow> ?thesis" by (force simp: IsHex_def)
qed

subsection \<open>Conversion between number bases\<close>

text \<open>\<^verbatim>\<open>ConvertBits\<close>: the values it hands to \<^verbatim>\<open>outfn\<close>, and what it returns. \<open>mask n\<close> is \<^verbatim>\<open>(1 << n) - 1\<close>. \<open>ConvertBits_emit\<close> is the inner
  loop, which returns \<^verbatim>\<open>bits\<close> too.\<close>

function ConvertBits_emit :: "nat \<Rightarrow> u64 \<Rightarrow> nat \<Rightarrow> u64 list \<times> nat" where
  "ConvertBits_emit tobits acc bits =
     (if tobits \<le> bits \<and> 0 < tobits then
        let bits = bits - tobits;
            v = drop_bit bits acc AND mask tobits
        in (case ConvertBits_emit tobits acc bits of (outs, bits) \<Rightarrow> (v # outs, bits))
      else ([], bits))"
  by pat_completeness auto
termination by (relation "measure (\<lambda>(_, _, bits). bits)") auto

declare ConvertBits_emit.simps [simp del]

fun ConvertBits_loop ::
  "nat \<Rightarrow> nat \<Rightarrow> u64 \<Rightarrow> nat \<Rightarrow> byte list \<Rightarrow> u64 list \<times> u64 \<times> nat" where
  "ConvertBits_loop frombits tobits acc bits [] = ([], acc, bits)"
| "ConvertBits_loop frombits tobits acc bits (v # it) =
     (let acc = (push_bit frombits acc OR ucast v) AND mask (frombits + tobits - 1) in
      case ConvertBits_emit tobits acc (bits + frombits) of (outs, bits) \<Rightarrow>
      case ConvertBits_loop frombits tobits acc bits it of (outs', r) \<Rightarrow> (outs @ outs', r))"

definition ConvertBits :: "nat \<Rightarrow> nat \<Rightarrow> bool \<Rightarrow> byte list \<Rightarrow> u64 list \<times> bool" where
  "ConvertBits frombits tobits pad it =
     (case ConvertBits_loop frombits tobits 0 0 it of (outs, acc, bits) \<Rightarrow>
        let v = push_bit (tobits - bits) acc AND mask tobits in
        if pad then (if bits \<noteq> 0 then outs @ [v] else outs, True)
        else (outs, \<not> (frombits \<le> bits \<or> v \<noteq> 0)))"

lemma low_bits_emit_1:
  fixes acc :: u64
  assumes "t \<le> bits" "0 < t"
  shows "low_bits bits acc = low_bits t (drop_bit (bits - t) acc AND mask t) @ low_bits (bits - t) acc"
  using assms by (intro nth_equalityI) (auto simp: nth_append bit_simps not_less
      dest: bit_imp_le_length)

lemma ConvertBits_emit_bits:
  assumes "0 < t"
  shows "case ConvertBits_emit t acc bits of (outs, r) \<Rightarrow>
    concat (map (low_bits t) outs) @ low_bits r acc = low_bits bits acc \<and> r < t
    \<and> (\<forall>v \<in> set outs. take_bit t v = v)"
  using assms
proof (induction t acc bits rule: ConvertBits_emit.induct)
  case (1 t acc bits)
  show ?case
  proof (cases "t \<le> bits")
    case True
    obtain outs r where e: "ConvertBits_emit t acc (bits - t) = (outs, r)" by fastforce
    with "1.IH" [OF _ refl refl] True "1.prems" have IH:
      "concat (map (low_bits t) outs) @ low_bits r acc = low_bits (bits - t) acc" "r < t"
      "\<forall>v \<in> set outs. take_bit t v = v" by auto
    show ?thesis
      using True "1.prems" IH low_bits_emit_1 [OF True "1.prems", of acc]
      by (subst ConvertBits_emit.simps) (simp add: e take_bit_eq_mask ac_simps)
  next
    case False
    then show ?thesis by (simp add: ConvertBits_emit.simps)
  qed
qed

lemma low_bits_shift_in:
  fixes acc :: u64 and v :: byte
  assumes "bits < t" "t \<le> 8" "0 < f" "f \<le> 8" "take_bit f v = v"
  shows "low_bits (bits + f) ((push_bit f acc OR ucast v) AND mask (f + t - 1))
    = low_bits bits acc @ low_bits f v"
proof (rule nth_equalityI)
  have v: "\<not> bit v i" if "f \<le> i" for i
    using that assms(5) by (metis bit_take_bit_iff not_le)
  fix i assume "i < length (low_bits (bits + f) ((push_bit f acc OR ucast v) AND mask (f + t - 1)))"
  then have i: "i < bits + f" by simp
  define j where "j = bits + f - 1 - i"
  have j: "j < f + t - 1" "j < 64" using i assms by (auto simp: j_def)
  have j_eq: "bits + f - Suc i = j" by (simp add: j_def)
  have "low_bits (bits + f) ((push_bit f acc OR ucast v) AND mask (f + t - 1)) ! i
      \<longleftrightarrow> (f \<le> j \<and> bit acc (j - f)) \<or> bit v j"
    using i j by (auto simp: bit_simps j_eq)
  also have "\<dots> \<longleftrightarrow> (low_bits bits acc @ low_bits f v) ! i"
  proof (cases "i < bits")
    case True
    then have "f \<le> j" "j - f = bits - 1 - i" by (auto simp: j_def)
    with True v show ?thesis by (simp add: nth_append)
  next
    case False
    then have "j < f" "j = f - 1 - (i - bits)" "i - bits < f" using i assms(3) by (auto simp: j_def)
    with False show ?thesis by (simp add: nth_append)
  qed
  finally show "low_bits (bits + f) ((push_bit f acc OR ucast v) AND mask (f + t - 1)) ! i
      = (low_bits bits acc @ low_bits f v) ! i" .
qed simp

lemma ConvertBits_loop_bits:
  assumes "0 < t" "t \<le> 8" "0 < f" "f \<le> 8"
  shows "bits < t \<Longrightarrow> \<forall>v \<in> set it. take_bit f v = v \<Longrightarrow>
    case ConvertBits_loop f t acc bits it of (outs, acc', r) \<Rightarrow>
      concat (map (low_bits t) outs) @ low_bits r acc'
        = low_bits bits acc @ concat (map (low_bits f) it) \<and> r < t
      \<and> (\<forall>v \<in> set outs. take_bit t v = v)"
proof (induction it arbitrary: acc bits)
  case Nil
  then show ?case by simp
next
  case (Cons v it)
  define a where "a = (push_bit f acc OR ucast v) AND mask (f + t - 1)"
  obtain outs r where e: "ConvertBits_emit t a (bits + f) = (outs, r)" by fastforce
  obtain outs' acc' r' where l: "ConvertBits_loop f t a r it = (outs', acc', r')"
    using prod_cases3 by blast
  have emit: "concat (map (low_bits t) outs) @ low_bits r a = low_bits bits acc @ low_bits f v"
    "r < t" "\<forall>v \<in> set outs. take_bit t v = v"
    using ConvertBits_emit_bits [OF assms(1), of a "bits + f"] e
      low_bits_shift_in [of bits t f v acc] assms Cons.prems
    by (auto simp: a_def)
  have rest: "concat (map (low_bits t) outs') @ low_bits r' acc'
      = low_bits r a @ concat (map (low_bits f) it)" "r' < t" "\<forall>v \<in> set outs'. take_bit t v = v"
    using Cons.IH [OF emit(2), of a] Cons.prems(2) l by auto
  have "concat (map (low_bits t) (outs @ outs')) @ low_bits r' acc'
      = (low_bits bits acc @ low_bits f v) @ concat (map (low_bits f) it)"
    by (subst emit(1) [symmetric]) (simp add: rest(1))
  moreover have "ConvertBits_loop f t acc bits (v # it) = (outs @ outs', acc', r')"
    by (simp only: ConvertBits_loop.simps Let_def a_def [symmetric] e l prod.case)
  ultimately show ?case using emit(3) rest(2,3) by (simp add: ball_Un)
qed

lemma ConvertBits_pad_bits:
  assumes "0 < t" "t \<le> 8" "0 < f" "f \<le> 8" "\<forall>v \<in> set it. take_bit f v = v"
  obtains outs p where "ConvertBits f t True it = (outs, True)" "p < t"
    "concat (map (low_bits t) outs) = concat (map (low_bits f) it) @ replicate p False"
    "\<forall>v \<in> set outs. take_bit t v = v"
proof -
  obtain outs acc bits where l: "ConvertBits_loop f t 0 0 it = (outs, acc, bits)"
    using prod_cases3 by blast
  have loop: "concat (map (low_bits t) outs) @ low_bits bits acc = concat (map (low_bits f) it)"
    "bits < t" "\<forall>v \<in> set outs. take_bit t v = v"
    using ConvertBits_loop_bits [OF assms(1-4), of 0 it 0] assms l by auto
  show ?thesis
  proof (cases "bits = 0")
    case True
    with loop l that [of outs 0] show ?thesis by (simp add: ConvertBits_def)
  next
    case False
    define v where "v = push_bit (t - bits) acc AND mask t"
    have "low_bits t v = low_bits bits acc @ replicate (t - bits) False"
      using loop(2) assms(2)
      by (intro nth_equalityI) (auto simp: v_def nth_append bit_simps)
    then have "concat (map (low_bits t) (outs @ [v]))
        = concat (map (low_bits f) it) @ replicate (t - bits) False"
      using loop(1) by simp
    moreover have "take_bit t v = v" by (simp add: v_def take_bit_eq_mask ac_simps)
    ultimately show ?thesis using that [of "outs @ [v]" "t - bits"] False loop l
      by (simp add: ConvertBits_def v_def)
  qed
qed

lemma low_bits_zero_iff:
  "n \<le> m \<Longrightarrow> m \<le> 64 \<Longrightarrow>
   push_bit (m - n) (acc :: u64) AND mask m = 0 \<longleftrightarrow> (\<forall>b \<in> set (low_bits n acc). \<not> b)"
proof -
  assume n: "n \<le> m" "m \<le> 64"
  have "push_bit (m - n) acc AND mask m = 0 \<longleftrightarrow> (\<forall>i < n. \<not> bit acc i)"
  proof
    assume z: "push_bit (m - n) acc AND mask m = 0"
    show "\<forall>i < n. \<not> bit acc i"
    proof (intro allI impI)
      fix i assume "i < n"
      moreover have "\<not> bit (push_bit (m - n) acc AND mask m) (i + (m - n))" unfolding z by simp
      ultimately show "\<not> bit acc i" using n by (auto simp: bit_simps)
    qed
  next
    assume "\<forall>i < n. \<not> bit acc i"
    then show "push_bit (m - n) acc AND mask m = 0"
      by (intro bit_eqI) (auto simp: bit_simps)
  qed
  also have "\<dots> \<longleftrightarrow> (\<forall>b \<in> set (low_bits n acc). \<not> b)"
  proof
    assume z: "\<forall>b \<in> set (low_bits n acc). \<not> b"
    show "\<forall>i < n. \<not> bit acc i"
    proof (intro allI impI)
      fix i assume "i < n"
      then have "low_bits n acc ! (n - 1 - i) \<in> set (low_bits n acc)" by (intro nth_mem) simp
      with z have "\<not> low_bits n acc ! (n - 1 - i)" by blast
      with \<open>i < n\<close> show "\<not> bit acc i" by simp
    qed
  qed (auto simp: low_bits_def)
  finally show ?thesis .
qed

lemma ConvertBits_nopad_bits:
  assumes "0 < t" "t \<le> 8" "0 < f" "f \<le> 8" "\<forall>v \<in> set it. take_bit f v = v"
  obtains outs rem where "ConvertBits f t False it = (outs, length rem < f \<and> (\<forall>b \<in> set rem. \<not> b))"
    "length rem < t" "concat (map (low_bits f) it) = concat (map (low_bits t) outs) @ rem"
    "\<forall>v \<in> set outs. take_bit t v = v"
proof -
  obtain outs acc bits where l: "ConvertBits_loop f t 0 0 it = (outs, acc, bits)"
    using prod_cases3 by blast
  have loop: "concat (map (low_bits t) outs) @ low_bits bits acc = concat (map (low_bits f) it)"
    "bits < t" "\<forall>v \<in> set outs. take_bit t v = v"
    using ConvertBits_loop_bits [OF assms(1-4), of 0 it 0] assms l by auto
  have "push_bit (t - bits) acc AND mask t = 0 \<longleftrightarrow> (\<forall>b \<in> set (low_bits bits acc). \<not> b)"
    using loop(2) assms(2) by (intro low_bits_zero_iff) simp_all
  then have "ConvertBits f t False it
      = (outs, length (low_bits bits acc) < f \<and> (\<forall>b \<in> set (low_bits bits acc). \<not> b))"
    by (simp add: ConvertBits_def l Let_def not_le)
  with that [of outs "low_bits bits acc"] loop show ?thesis by simp
qed

lemma low_bits_unique:
  assumes "low_bits n x = low_bits n y" "take_bit n x = x" "take_bit n y = y"
  shows "x = y"
  using assms(1)
  by (rule low_bits_inject) (metis assms(2,3) bit_take_bit_iff not_le)+

lemma length_chunks: "length (concat (map (low_bits n) zs)) = n * length zs"
  by (induction zs) auto

lemma chunks_unique:
  assumes "0 < n"
  shows "concat (map (low_bits n) xs) @ r = concat (map (low_bits n) ys) @ r' \<Longrightarrow>
    length r < n \<Longrightarrow> length r' < n \<Longrightarrow> \<forall>x \<in> set xs. take_bit n x = x \<Longrightarrow>
    \<forall>y \<in> set ys. take_bit n y = y \<Longrightarrow> xs = ys \<and> r = r'"
proof (induction xs arbitrary: ys)
  case Nil
  show ?case
  proof (cases ys)
    case Nil
    with Nil.prems show ?thesis by simp
  next
    case (Cons y ys')
    with arg_cong [OF Nil.prems(1), of length] Nil.prems(2) show ?thesis by simp
  qed
next
  case (Cons x xs)
  show ?case
  proof (cases ys)
    case Nil
    with arg_cong [OF Cons.prems(1), of length] Cons.prems(3) show ?thesis by simp
  next
    case ys: (Cons y ys')
    with Cons.prems(1) have "low_bits n x = low_bits n y"
      "concat (map (low_bits n) xs) @ r = concat (map (low_bits n) ys') @ r'"
      by (simp_all add: append_eq_append_conv)
    moreover have "x = y"
      by (rule low_bits_unique) (use \<open>low_bits n x = low_bits n y\<close> Cons.prems(4,5) ys in auto)
    moreover have "xs = ys' \<and> r = r'"
      by (rule Cons.IH) (use \<open>concat (map (low_bits n) xs) @ r = concat (map (low_bits n) ys') @ r'\<close>
        Cons.prems(2-) ys in auto)
    ultimately show ?thesis using ys by blast
  qed
qed

text \<open>Encoding in a smaller base with padding and decoding without it are inverse to each other.\<close>

locale base_conversion =
  fixes f t :: nat
  assumes widths: "0 < t" "t \<le> f" "f \<le> 8"
begin

lemma bounds: "0 < f" "t \<le> 8"
  using widths by auto

lemma low_bits_ucast [simp]:
  "low_bits n (ucast (v :: byte) :: u64) = low_bits n v"
  "n \<le> 8 \<Longrightarrow> low_bits n (ucast (w :: u64) :: byte) = low_bits n w"
  by (auto simp: low_bits_def bit_simps dest: bit_imp_le_length)

lemma take_bit_ucast:
  "take_bit n (v :: byte) = v \<Longrightarrow> take_bit n (ucast v :: u64) = ucast v"
  "take_bit n (w :: u64) = w \<Longrightarrow> take_bit n (ucast w :: byte) = ucast w"
  by (metis unsigned_take_bit_eq) (rule bit_eqI, metis bit_take_bit_iff bit_unsigned_iff)

lemma map_low_bits:
  "concat (map (low_bits n) (map ucast vs :: u64 list)) = concat (map (low_bits n) (vs :: byte list))"
  "n \<le> 8 \<Longrightarrow> concat (map (low_bits n) (map ucast ws :: byte list)) = concat (map (low_bits n) (ws :: u64 list))"
  by (simp_all add: comp_def)

lemma decode_encode:
  assumes "\<forall>v \<in> set it. take_bit f v = v"
  shows "ConvertBits t f False (map ucast (fst (ConvertBits f t True it))) = (map ucast it, True)"
proof -
  obtain outs p where enc: "ConvertBits f t True it = (outs, True)" "p < t"
    "concat (map (low_bits t) outs) = concat (map (low_bits f) it) @ replicate p False"
    "\<forall>v \<in> set outs. take_bit t v = v"
    by (rule ConvertBits_pad_bits [OF widths(1) bounds(2,1) widths(3) assms])
  have "\<forall>v \<in> set (map ucast outs :: byte list). take_bit t v = v"
    using enc(4) by (auto intro: take_bit_ucast)
  note vals = this
  obtain ys rem where dec: "ConvertBits t f False (map ucast outs)
      = (ys, length rem < t \<and> (\<forall>b \<in> set rem. \<not> b))" "length rem < f"
    "concat (map (low_bits t) (map ucast outs :: byte list)) = concat (map (low_bits f) ys) @ rem"
    "\<forall>v \<in> set ys. take_bit f v = v"
    by (rule ConvertBits_nopad_bits [OF bounds(1) widths(3,1) bounds(2) vals])
  have "ys = map ucast it \<and> rem = replicate p False"
  proof (rule chunks_unique [OF bounds(1)])
    show "concat (map (low_bits f) ys) @ rem
        = concat (map (low_bits f) (map ucast it :: u64 list)) @ replicate p False"
      unfolding dec(3) [symmetric] map_low_bits(1) map_low_bits(2) [OF bounds(2)] by (rule enc(3))
    show "\<forall>y \<in> set (map ucast it :: u64 list). take_bit f y = y"
      using assms by (auto intro: take_bit_ucast)
  qed (use dec enc(2) widths in auto)
  with dec(1) enc(1,2) show ?thesis by simp
qed

lemma encode_decode:
  assumes dec: "ConvertBits t f False vs = (ys, True)" and vs: "\<forall>v \<in> set vs. take_bit t v = v"
  shows "ConvertBits f t True (map ucast ys) = (map ucast vs, True)"
proof -
  obtain rem where rem: "length rem < t" "\<forall>b \<in> set rem. \<not> b"
    "concat (map (low_bits t) vs) = concat (map (low_bits f) ys) @ rem"
    "\<forall>v \<in> set ys. take_bit f v = v"
    by (rule ConvertBits_nopad_bits [OF bounds(1) widths(3,1) bounds(2) vs]) (use dec in auto)
  have "\<forall>v \<in> set (map ucast ys :: byte list). take_bit f v = v"
    using rem(4) by (auto intro: take_bit_ucast)
  note vals = this
  obtain outs p where enc: "ConvertBits f t True (map ucast ys) = (outs, True)" "p < t"
    "concat (map (low_bits t) outs)
      = concat (map (low_bits f) (map ucast ys :: byte list)) @ replicate p False"
    "\<forall>v \<in> set outs. take_bit t v = v"
    by (rule ConvertBits_pad_bits [OF widths(1) bounds(2,1) widths(3) vals])
  have "t * length outs = f * length ys + p"
    using arg_cong [OF enc(3), of length] unfolding map_low_bits(2) [OF widths(3)] length_append length_chunks by simp
  moreover have "t * length vs = f * length ys + length rem"
    using arg_cong [OF rem(3), of length] unfolding length_append length_chunks by simp
  ultimately have "(t * length vs + p) mod t = (t * length outs + length rem) mod t"
    by (simp add: ac_simps)
  then have p: "p = length rem" using enc(2) rem(1) by simp
  have "rem = replicate p False"
    unfolding p using rem(2) by (intro replicate_eqI) auto
  then have "concat (map (low_bits t) outs) @ [] = concat (map (low_bits t) (map ucast vs :: u64 list)) @ []"
    using enc(3) rem(3) unfolding map_low_bits(1) map_low_bits(2) [OF widths(3)] by simp
  from chunks_unique [OF widths(1) this] have "outs = map ucast vs"
    using widths(1) enc(4) vs by (auto intro: take_bit_ucast)
  with enc(1) show ?thesis by simp
qed

end

interpretation base64: base_conversion 8 6
  by unfold_locales simp_all

interpretation base32: base_conversion 8 5
  by unfold_locales simp_all

text \<open>The two alphabets. The padding loops stop at the next multiple of four or eight.\<close>

function pad_equals :: "nat \<Rightarrow> string \<Rightarrow> string" where
  "pad_equals m str = (if length str mod m \<noteq> 0 \<and> 0 < m then pad_equals m (str @ ''='') else str)"
  by pat_completeness auto
termination
proof (relation "measure (\<lambda>(m, str). (m - length str mod m) mod m)")
  fix m :: nat and str :: string
  assume "length str mod m \<noteq> 0 \<and> 0 < m"
  moreover from this have "length str mod m < m" by simp
  ultimately show "((m, str @ ''=''), m, str) \<in> measure (\<lambda>(m, str). (m - length str mod m) mod m)"
    by (cases "Suc (length str mod m) = m") (auto simp: mod_Suc)
qed simp

declare pad_equals.simps [simp del]

definition pbase64 :: string where
  "pbase64 = ''ABCDEFGHIJKLMNOPQRSTUVWXYZabcdefghijklmnopqrstuvwxyz0123456789+/''"

definition EncodeBase64 :: "byte list \<Rightarrow> string" where
  "EncodeBase64 pch =
     pad_equals 4 (map (\<lambda>v. pbase64 ! unat v) (fst (ConvertBits 8 6 True pch)))"

definition decode64_table :: "int list" where
  "decode64_table =
     [-1, -1, -1, -1, -1, -1, -1, -1, -1, -1, -1, -1, -1, -1, -1, -1, -1, -1, -1, -1]
     @ [-1, -1, -1, -1, -1, -1, -1, -1, -1, -1, -1, -1, -1, -1, -1, -1, -1, -1, -1, -1]
     @ [-1, -1, -1, 62, -1, -1, -1, 63, 52, 53, 54, 55, 56, 57, 58, 59, 60, 61, -1, -1]
     @ [-1, -1, -1, -1, -1,  0,  1,  2,  3,  4,  5,  6,  7,  8,  9, 10, 11, 12, 13, 14]
     @ [15, 16, 17, 18, 19, 20, 21, 22, 23, 24, 25, -1, -1, -1, -1, -1, -1, 26, 27, 28]
     @ [29, 30, 31, 32, 33, 34, 35, 36, 37, 38, 39, 40, 41, 42, 43, 44, 45, 46, 47, 48]
     @ [49, 50, 51, -1, -1, -1, -1, -1, -1, -1, -1, -1, -1, -1, -1, -1, -1, -1, -1, -1]
     @ [-1, -1, -1, -1, -1, -1, -1, -1, -1, -1, -1, -1, -1, -1, -1, -1, -1, -1, -1, -1]
     @ [-1, -1, -1, -1, -1, -1, -1, -1, -1, -1, -1, -1, -1, -1, -1, -1, -1, -1, -1, -1]
     @ [-1, -1, -1, -1, -1, -1, -1, -1, -1, -1, -1, -1, -1, -1, -1, -1, -1, -1, -1, -1]
     @ [-1, -1, -1, -1, -1, -1, -1, -1, -1, -1, -1, -1, -1, -1, -1, -1, -1, -1, -1, -1]
     @ [-1, -1, -1, -1, -1, -1, -1, -1, -1, -1, -1, -1, -1, -1, -1, -1, -1, -1, -1, -1]
     @ [-1, -1, -1, -1, -1, -1, -1, -1, -1, -1, -1, -1, -1, -1, -1, -1]"

text \<open>The loop that collects the values up to the first character outside the alphabet: they and what
  is left of the string.\<close>

fun decode_values :: "int list \<Rightarrow> string \<Rightarrow> byte list \<Rightarrow> byte list \<times> string" where
  "decode_values table [] val = (val, [])"
| "decode_values table (c # p) val =
     (let x = table ! code c in
      if x = -1 then (val, c # p) else decode_values table p (val @ [word_of_int x]))"

text \<open>\<^verbatim>\<open>while (valid && *p != 0)\<close>: \<^verbatim>\<open>valid\<close> and what is left of the string afterwards.\<close>

fun eat_equals :: "bool \<Rightarrow> string \<Rightarrow> bool \<times> string" where
  "eat_equals valid [] = (valid, [])"
| "eat_equals valid (c # p) =
     (if \<not> valid then (valid, c # p)
      else if c \<noteq> CHR ''='' then (False, c # p) else eat_equals valid p)"

definition DecodeBase64 :: "string \<Rightarrow> byte list \<times> bool" where
  "DecodeBase64 e =
     (case decode_values decode64_table e [] of (val, q) \<Rightarrow>
      case ConvertBits 6 8 False val of (ret, valid) \<Rightarrow>
      case eat_equals valid q of (valid, p) \<Rightarrow>
        (map ucast ret,
         valid \<and> (length e - length p) mod 4 = 0 \<and> length q - length p < 4))"

definition pbase32 :: string where
  "pbase32 = ''abcdefghijklmnopqrstuvwxyz234567''"

definition EncodeBase32 :: "byte list \<Rightarrow> string" where
  "EncodeBase32 pch =
     pad_equals 8 (map (\<lambda>v. pbase32 ! unat v) (fst (ConvertBits 8 5 True pch)))"

definition decode32_table :: "int list" where
  "decode32_table =
     [-1, -1, -1, -1, -1, -1, -1, -1, -1, -1, -1, -1, -1, -1, -1, -1, -1, -1, -1, -1]
     @ [-1, -1, -1, -1, -1, -1, -1, -1, -1, -1, -1, -1, -1, -1, -1, -1, -1, -1, -1, -1]
     @ [-1, -1, -1, -1, -1, -1, -1, -1, -1, -1, 26, 27, 28, 29, 30, 31, -1, -1, -1, -1]
     @ [-1, -1, -1, -1, -1,  0,  1,  2,  3,  4,  5,  6,  7,  8,  9, 10, 11, 12, 13, 14]
     @ [15, 16, 17, 18, 19, 20, 21, 22, 23, 24, 25, -1, -1, -1, -1, -1, -1,  0,  1,  2]
     @ [3,  4,  5,  6,  7,  8,  9, 10, 11, 12, 13, 14, 15, 16, 17, 18, 19, 20, 21, 22]
     @ [23, 24, 25, -1, -1, -1, -1, -1, -1, -1, -1, -1, -1, -1, -1, -1, -1, -1, -1, -1]
     @ [-1, -1, -1, -1, -1, -1, -1, -1, -1, -1, -1, -1, -1, -1, -1, -1, -1, -1, -1, -1]
     @ [-1, -1, -1, -1, -1, -1, -1, -1, -1, -1, -1, -1, -1, -1, -1, -1, -1, -1, -1, -1]
     @ [-1, -1, -1, -1, -1, -1, -1, -1, -1, -1, -1, -1, -1, -1, -1, -1, -1, -1, -1, -1]
     @ [-1, -1, -1, -1, -1, -1, -1, -1, -1, -1, -1, -1, -1, -1, -1, -1, -1, -1, -1, -1]
     @ [-1, -1, -1, -1, -1, -1, -1, -1, -1, -1, -1, -1, -1, -1, -1, -1, -1, -1, -1, -1]
     @ [-1, -1, -1, -1, -1, -1, -1, -1, -1, -1, -1, -1, -1, -1, -1, -1]"

definition DecodeBase32 :: "string \<Rightarrow> byte list \<times> bool" where
  "DecodeBase32 e =
     (case decode_values decode32_table e [] of (val, q) \<Rightarrow>
      case ConvertBits 5 8 False val of (ret, valid) \<Rightarrow>
      case eat_equals valid q of (valid, p) \<Rightarrow>
        (map ucast ret,
         valid \<and> (length e - length p) mod 8 = 0 \<and> length q - length p < 8))"

lemma pad_equals_eq:
  "0 < m \<Longrightarrow> pad_equals m str = str @ replicate ((m - length str mod m) mod m) CHR ''=''"
proof (induction m str rule: pad_equals.induct)
  case (1 m str)
  show ?case
  proof (cases "length str mod m = 0")
    case True
    then show ?thesis by (simp add: pad_equals.simps)
  next
    case False
    let ?r = "length str mod m"
    have r: "0 < ?r" "?r < m" using False "1.prems" by simp_all
    have "(m - length (str @ ''='') mod m) mod m = m - ?r - 1"
      using r by (cases "Suc ?r = m") (auto simp: mod_Suc)
    moreover have "(m - ?r) mod m = Suc (m - ?r - 1)" using r by simp
    ultimately show ?thesis using False "1.IH" "1.prems"
      by (subst pad_equals.simps) simp
  qed
qed

lemma decode_values_eq:
  "decode_values table p val =
    (val @ map (\<lambda>c. word_of_int (table ! code c)) (takeWhile (\<lambda>c. table ! code c \<noteq> -1) p),
     dropWhile (\<lambda>c. table ! code c \<noteq> -1) p)"
  by (induction table p val rule: decode_values.induct) (auto simp: Let_def)

lemma eat_equals_True:
  "eat_equals True q = (valid, p) \<Longrightarrow>
   (valid \<longleftrightarrow> (\<forall>c \<in> set q. c = CHR ''='')) \<and> (valid \<longrightarrow> p = [])"
  by (induction q) (auto split: if_splits)

lemma eat_equals_False: "fst (eat_equals False q) = False"
  by (cases q) auto

lemma eat_equals_replicate: "eat_equals True (replicate n CHR ''='') = (True, [])"
  by (induction n) auto

lemma decode64_table_inverse:
  "n < 64 \<Longrightarrow> decode64_table ! code (pbase64 ! n) = int n"
  "k < 256 \<Longrightarrow> decode64_table ! k \<noteq> -1 \<Longrightarrow>
     0 \<le> decode64_table ! k \<and> decode64_table ! k < 64
     \<and> code (pbase64 ! nat (decode64_table ! k)) = k"
  "decode64_table ! code CHR ''='' = -1"
proof -
  have "list_all (\<lambda>n. decode64_table ! code (pbase64 ! n) = int n) [0..<64]" by code_simp
  then show "n < 64 \<Longrightarrow> decode64_table ! code (pbase64 ! n) = int n" by (simp add: list_all_iff)
  have "list_all (\<lambda>k. decode64_table ! k \<noteq> -1 \<longrightarrow> 0 \<le> decode64_table ! k \<and> decode64_table ! k < 64
     \<and> code (pbase64 ! nat (decode64_table ! k)) = k) [0..<256]" by code_simp
  then show "k < 256 \<Longrightarrow> decode64_table ! k \<noteq> -1 \<Longrightarrow>
     0 \<le> decode64_table ! k \<and> decode64_table ! k < 64
     \<and> code (pbase64 ! nat (decode64_table ! k)) = k" by (simp add: list_all_iff)
  show "decode64_table ! code CHR ''='' = -1" by code_simp
qed

lemma decode32_table_inverse:
  "n < 32 \<Longrightarrow> decode32_table ! code (pbase32 ! n) = int n"
  "decode32_table ! code CHR ''='' = -1"
proof -
  have "list_all (\<lambda>n. decode32_table ! code (pbase32 ! n) = int n) [0..<32]" by code_simp
  then show "n < 32 \<Longrightarrow> decode32_table ! code (pbase32 ! n) = int n" by (simp add: list_all_iff)
  show "decode32_table ! code CHR ''='' = -1" by code_simp
qed

text \<open>An alphabet and its table make a base conversion a text encoding; when the table has one character
  for each value, the text is determined by the bytes.\<close>

locale base_text = base_conversion 8 t for t +
  fixes m :: nat and table :: "int list" and alphabet :: string
  assumes m_pos: "0 < m"
    and table_alphabet: "n < 2 ^ t \<Longrightarrow> table ! code (alphabet ! n) = int n"
    and table_equals: "table ! code CHR ''='' = -1"
begin

lemma text_decode_encode:
  assumes s: "s = pad_equals m (map (\<lambda>v. alphabet ! unat v) (fst (ConvertBits 8 t True pch)))"
  shows "(case decode_values table s [] of (val, q) \<Rightarrow>
      case ConvertBits t 8 False val of (ret, valid) \<Rightarrow>
      case eat_equals valid q of (valid, p) \<Rightarrow>
        (map ucast ret, valid \<and> (length s - length p) mod m = 0 \<and> length q - length p < m))
    = (pch, True)"
proof -
  define outs where "outs = fst (ConvertBits 8 t True pch)"
  have b8: "\<forall>v \<in> set pch. take_bit 8 v = v" by (simp add: take_bit_word_eq_self)
  obtain outs' p where "ConvertBits 8 t True pch = (outs', True)" "\<forall>v \<in> set outs'. take_bit t v = v"
    by (rule ConvertBits_pad_bits [OF widths(1) bounds(2,1) widths(3) b8])
  then have outs: "\<forall>v \<in> set outs. unat v < 2 ^ t"
    by (auto simp: outs_def) (metis unsigned_take_bit_eq take_bit_nat_less_exp)
  let ?w = "map (\<lambda>v. alphabet ! unat v) outs" and ?n = "(m - length outs mod m) mod m"
  have s: "s = ?w @ replicate ?n CHR ''=''"
    using s by (simp add: pad_equals_eq [OF m_pos] outs_def)
  have digit: "table ! code c \<noteq> -1" if "c \<in> set ?w" for c
    using that outs by (auto simp: table_alphabet)
  have tw: "takeWhile (\<lambda>c. table ! code c \<noteq> -1) s = ?w"
    "dropWhile (\<lambda>c. table ! code c \<noteq> -1) s = replicate ?n CHR ''=''"
    unfolding s
    using takeWhile_pad [of ?w "\<lambda>c. table ! code c \<noteq> -1" "CHR ''=''" ?n] digit table_equals
    by simp_all
  have vals: "map (\<lambda>c. word_of_int (table ! code c)) ?w = (map ucast outs :: byte list)"
    using outs by (auto simp: table_alphabet)
  have "decode_values table s [] = (map ucast outs, replicate ?n CHR ''='')"
    unfolding decode_values_eq tw vals by simp
  moreover have "ConvertBits t 8 False (map ucast outs) = (map ucast pch, True)"
    using decode_encode [OF b8] by (simp add: outs_def)
  moreover have "length s mod m = 0"
    unfolding s using padded_length [OF m_pos, of "length outs"] by simp
  ultimately show ?thesis using m_pos by (simp add: eat_equals_replicate ucast_ucast_up comp_def)
qed

end

locale canonical_base_text = base_text +
  assumes alphabet_table: "k < 256 \<Longrightarrow> table ! k \<noteq> -1 \<Longrightarrow>
    0 \<le> table ! k \<and> table ! k < 2 ^ t \<and> code (alphabet ! nat (table ! k)) = k"
begin

lemma text_encode_decode:
  assumes "(case decode_values table s [] of (val, q) \<Rightarrow>
      case ConvertBits t 8 False val of (ret, valid) \<Rightarrow>
      case eat_equals valid q of (valid, p) \<Rightarrow>
        (map ucast ret, valid \<and> (length s - length p) mod m = 0 \<and> length q - length p < m))
    = (bs :: byte list, True)"
  shows "s = pad_equals m (map (\<lambda>v. alphabet ! unat v) (fst (ConvertBits 8 t True bs)))"
proof -
  define w where "w = takeWhile (\<lambda>c. table ! code c \<noteq> -1) s"
  define q where "q = dropWhile (\<lambda>c. table ! code c \<noteq> -1) s"
  define vals :: "byte list" where "vals = map (\<lambda>c. word_of_int (table ! code c)) w"
  have s: "s = w @ q" by (simp add: w_def q_def)
  have dv: "decode_values table s [] = (vals, q)" by (simp add: decode_values_eq vals_def w_def q_def)
  obtain ret valid where conv: "ConvertBits t 8 False vals = (ret, valid)" by fastforce
  obtain valid' p where eat: "eat_equals valid q = (valid', p)" by fastforce
  from assms have res: "bs = map ucast ret" "valid'" "(length s - length p) mod m = 0"
    "length q - length p < m" by (simp_all add: dv conv eat)
  have "valid" using eat res(2) eat_equals_False [of q] by (cases valid) auto
  with eat eat_equals_True [of q valid' p] res(2) have q: "\<forall>c \<in> set q. c = CHR ''=''" "p = []" by auto
  then have q_rep: "q = replicate (length q) CHR ''=''" by (intro replicate_eqI) auto
  have w: "\<forall>c \<in> set w. table ! code c \<noteq> -1" by (auto simp: w_def dest: set_takeWhileD)
  have small: "2 ^ t \<le> (256 :: int)"
    using power_increasing [of t 8 "2 :: int"] bounds(2) by simp
  have unat: "unat (word_of_int (table ! code c) :: byte) = nat (table ! code c)"
    "alphabet ! nat (table ! code c) = c" if "c \<in> set w" for c
  proof -
    have a: "0 \<le> table ! code c" "table ! code c < 2 ^ t" "code (alphabet ! nat (table ! code c)) = code c"
      using alphabet_table [OF code_less] w that by auto
    then show "unat (word_of_int (table ! code c) :: byte) = nat (table ! code c)"
      using small by (simp add: unsigned_of_int take_bit_int_eq_self)
    show "alphabet ! nat (table ! code c) = c" using a(3) by simp
  qed
  have "take_bit t v = v" if v: "v \<in> set vals" for v
  proof -
    obtain c where c: "c \<in> set w" "v = word_of_int (table ! code c)" using v by (auto simp: vals_def)
    then have "unat v < 2 ^ t"
      using unat(1) [OF c(1)] alphabet_table [OF code_less, of c] w by (simp add: nat_less_iff)
    then show ?thesis
      by (simp add: word_unat_eq_iff unsigned_take_bit_eq take_bit_nat_eq_self)
  qed
  with encode_decode [of vals ret] conv \<open>valid\<close>
  have "ConvertBits 8 t True bs = (map ucast vals, True)" by (simp add: res(1))
  then have "map (\<lambda>v. alphabet ! unat v) (fst (ConvertBits 8 t True bs)) = w"
    using unat by (simp add: vals_def comp_def unat_ucast_up map_idI)
  moreover have "pad_equals m w = w @ q"
  proof -
    have len: "(length w + length q) mod m = 0" "length q < m" using res(3,4) q(2) s by simp_all
    have "(m - length w mod m) mod m = length q"
    proof (cases "length w mod m = 0")
      case True
      then show ?thesis using len by (simp add: mod_add_left_eq [symmetric, of "length w"])
    next
      case False
      define r where "r = length w mod m"
      have r: "0 < r" "r < m" using False m_pos by (auto simp: r_def)
      have "(r + length q) mod m = 0" using len(1) by (simp add: r_def mod_add_left_eq)
      then have "r + length q = m" using r len(2)
        by (cases "r + length q < m") (auto simp: le_mod_geq)
      then show ?thesis using r by (simp add: r_def [symmetric])
    qed
    then show ?thesis using q_rep by (simp add: pad_equals_eq [OF m_pos])
  qed
  ultimately show ?thesis by (simp add: s)
qed

end

interpretation text64: canonical_base_text 6 4 decode64_table pbase64
  using decode64_table_inverse by unfold_locales simp_all

interpretation text32: base_text 5 8 decode32_table pbase32
  using decode32_table_inverse by unfold_locales simp_all

subsection \<open>Numbers\<close>

text \<open>\<^verbatim>\<open>strtol\<close> and \<^verbatim>\<open>strtoul\<close> of the C library at base ten, with a 64-bit \<^verbatim>\<open>long\<close>: the number, what is left of
  the string (\<^verbatim>\<open>endp\<close>) and whether \<^verbatim>\<open>errno\<close> was set.\<close>

definition digits_value :: "string \<Rightarrow> int" where
  "digits_value ds = foldl (\<lambda>n c. 10 * n + (int (code c) - int (code CHR ''0''))) 0 ds"

fun take_sign :: "string \<Rightarrow> bool \<times> string" where
  "take_sign [] = (False, [])"
| "take_sign (c # s) =
     (if c = CHR ''-'' then (True, s) else if c = CHR ''+'' then (False, s) else (False, c # s))"

definition strtoll :: "string \<Rightarrow> int \<times> string \<times> bool" where
  "strtoll s =
     (case take_sign (dropWhile IsSpace s) of (neg, t) \<Rightarrow>
        let ds = takeWhile IsDigit t; rest = dropWhile IsDigit t;
            v = (if neg then - digits_value ds else digits_value ds)
        in if ds = [] then (0, s, False)
           else if v > 2 ^ 63 - 1 then (2 ^ 63 - 1, rest, True)
           else if v < - (2 ^ 63) then (- (2 ^ 63), rest, True)
           else (v, rest, False))"

definition strtoull :: "string \<Rightarrow> int \<times> string \<times> bool" where
  "strtoull s =
     (case take_sign (dropWhile IsSpace s) of (neg, t) \<Rightarrow>
        let ds = takeWhile IsDigit t; rest = dropWhile IsDigit t; v = digits_value ds
        in if ds = [] then (0, s, False)
           else if v > 2 ^ 64 - 1 then (2 ^ 64 - 1, rest, True)
           else ((if neg then (- v) mod 2 ^ 64 else v), rest, False))"

definition c_str :: "string \<Rightarrow> string" where
  "c_str str = takeWhile (\<lambda>c. c \<noteq> CHR 0x00) str"

definition ParsePrechecks :: "string \<Rightarrow> bool" where
  "ParsePrechecks str =
     (if str = [] then False
      else if IsSpace (hd str) \<or> IsSpace (last str) then False
      else if length str \<noteq> length (c_str str) then False
      else True)"

text \<open>What was stored through \<^verbatim>\<open>out\<close>, if anything, and the result.\<close>

definition ParseInt32 :: "string \<Rightarrow> 32 word option \<times> bool" where
  "ParseInt32 str =
     (if \<not> ParsePrechecks str then (None, False)
      else case strtoll (c_str str) of (n, endp, errno) \<Rightarrow>
        (Some (word_of_int n), endp = [] \<and> \<not> errno \<and> - (2 ^ 31) \<le> n \<and> n \<le> 2 ^ 31 - 1))"

definition ParseInt64 :: "string \<Rightarrow> u64 option \<times> bool" where
  "ParseInt64 str =
     (if \<not> ParsePrechecks str then (None, False)
      else case strtoll (c_str str) of (n, endp, errno) \<Rightarrow>
        (Some (word_of_int n), endp = [] \<and> \<not> errno \<and> - (2 ^ 63) \<le> n \<and> n \<le> 2 ^ 63 - 1))"

definition ParseUInt32 :: "string \<Rightarrow> u32 option \<times> bool" where
  "ParseUInt32 str =
     (if \<not> ParsePrechecks str then (None, False)
      else if length str \<ge> 1 \<and> hd str = CHR ''-'' then (None, False)
      else case strtoull (c_str str) of (n, endp, errno) \<Rightarrow>
        (Some (word_of_int n), endp = [] \<and> \<not> errno \<and> n \<le> 2 ^ 32 - 1))"

definition ParseUInt64 :: "string \<Rightarrow> u64 option \<times> bool" where
  "ParseUInt64 str =
     (if \<not> ParsePrechecks str then (None, False)
      else if length str \<ge> 1 \<and> hd str = CHR ''-'' then (None, False)
      else case strtoull (c_str str) of (n, endp, errno) \<Rightarrow>
        (Some (word_of_int n), endp = [] \<and> \<not> errno \<and> n \<le> 2 ^ 64 - 1))"

definition atoi64 :: "string \<Rightarrow> u64" where
  "atoi64 psz = (case strtoll psz of (n, _, _) \<Rightarrow> word_of_int n)"

definition i64tostr :: "u64 \<Rightarrow> string" where
  "i64tostr n = ''''"

definition itostr :: "32 word \<Rightarrow> string" where
  "itostr n = ''''"

text \<open>The reference: an optional sign and at least one digit, and nothing else.\<close>

definition int_text :: "string \<Rightarrow> int option" where
  "int_text s =
     (case take_sign s of (neg, ds) \<Rightarrow>
        if ds \<noteq> [] \<and> (\<forall>c \<in> set ds. IsDigit c)
        then Some (if neg then - digits_value ds else digits_value ds) else None)"

lemma IsDigit_not: "IsDigit c \<Longrightarrow> \<not> IsSpace c \<and> c \<noteq> CHR 0x00 \<and> c \<noteq> CHR ''-'' \<and> c \<noteq> CHR ''+''"
  by (auto simp: IsDigit_def IsSpace_def)

lemma int_text_prechecks:
  assumes "int_text s = Some v"
  shows "ParsePrechecks s" "c_str s = s" "dropWhile IsSpace s = s"
proof -
  obtain neg ds where ds: "take_sign s = (neg, ds)" "ds \<noteq> []" "\<forall>c \<in> set ds. IsDigit c"
    using assms by (auto simp: int_text_def split: prod.splits if_splits)
  have chars: "\<forall>c \<in> set s. \<not> IsSpace c \<and> c \<noteq> CHR 0x00" "s \<noteq> []"
  proof -
    obtain c t where s: "s = c # t" using ds by (cases s) auto
    consider "c = CHR ''-''" "ds = t" | "c = CHR ''+''" "ds = t" | "ds = c # t"
      using ds(1) s by (auto split: if_splits)
    then show "\<forall>c \<in> set s. \<not> IsSpace c \<and> c \<noteq> CHR 0x00" "s \<noteq> []"
      using ds(3) IsDigit_not s by (cases; auto simp: IsSpace_def)+
  qed
  then show c: "c_str s = s" by (auto simp: c_str_def takeWhile_eq_all_conv)
  show "dropWhile IsSpace s = s" using chars by (cases s) auto
  show "ParsePrechecks s" using chars c by (simp add: ParsePrechecks_def)
qed

lemma takeWhile_all_iff: "takeWhile P xs \<noteq> [] \<and> dropWhile P xs = [] \<longleftrightarrow> xs \<noteq> [] \<and> (\<forall>x \<in> set xs. P x)"
  by (induction xs) auto

lemma prechecked:
  assumes "ParsePrechecks str"
  shows "c_str str = str" "str \<noteq> []" "dropWhile IsSpace str = str"
proof -
  show "str \<noteq> []" "c_str str = str"
    using assms takeWhile_length_eq [of _ str] by (auto simp: ParsePrechecks_def c_str_def split: if_splits)
  then show "dropWhile IsSpace str = str"
    using assms by (cases str) (auto simp: ParsePrechecks_def split: if_splits)
qed

lemma strtoll_iff:
  assumes "ParsePrechecks str"
  shows "strtoll (c_str str) = (n, [], False) \<and> - (2 ^ 63) \<le> n \<and> n \<le> 2 ^ 63 - 1
    \<longleftrightarrow> int_text str = Some n \<and> - (2 ^ 63) \<le> n \<and> n \<le> 2 ^ 63 - 1"
proof -
  have c: "c_str str = str" "str \<noteq> []" "dropWhile IsSpace str = str"
    by (rule prechecked [OF assms])+
  obtain neg t where t: "take_sign str = (neg, t)" by fastforce
  show ?thesis
  proof (cases "t \<noteq> [] \<and> (\<forall>x \<in> set t. IsDigit x)")
    case True
    then have tw: "takeWhile IsDigit t = t" "dropWhile IsDigit t = []"
      by (simp_all add: takeWhile_eq_all_conv dropWhile_eq_Nil_conv)
    show ?thesis unfolding c strtoll_def int_text_def t prod.case Let_def tw
      using True by (auto split: if_splits)
  next
    case False
    then have "t = [] \<or> dropWhile IsDigit t \<noteq> []" by (auto simp: dropWhile_eq_Nil_conv)
    with False c(2) show ?thesis by (auto simp: c strtoll_def int_text_def t Let_def split: if_splits)
  qed
qed

lemma ParseInt32_iff: "ParseInt32 str = (Some n, True) \<longleftrightarrow> int_text str = Some (sint n)"
proof
  assume a: "ParseInt32 str = (Some n, True)"
  then obtain k where "ParsePrechecks str" "strtoll (c_str str) = (k, [], False)" "n = word_of_int k"
    "- (2 ^ 31) \<le> k" "k \<le> 2 ^ 31 - 1"
    by (auto simp: ParseInt32_def split: if_splits prod.splits)
  with strtoll_iff [of str k] show "int_text str = Some (sint n)" by (simp add: sint_word_of_int)
next
  assume a: "int_text str = Some (sint n)"
  have "- (2 ^ 31) \<le> sint n" "sint n < 2 ^ 31"
    using sint_greater_eq [of n] sint_lt [of n] by simp_all
  with a strtoll_iff [OF int_text_prechecks(1) [OF a], of "sint n"] int_text_prechecks(1) [OF a]
  show "ParseInt32 str = (Some n, True)" by (simp add: ParseInt32_def)
qed

lemma ParseInt64_iff: "ParseInt64 str = (Some n, True) \<longleftrightarrow> int_text str = Some (sint n)"
proof
  assume a: "ParseInt64 str = (Some n, True)"
  then obtain k where "ParsePrechecks str" "strtoll (c_str str) = (k, [], False)" "n = word_of_int k"
    "- (2 ^ 63) \<le> k" "k \<le> 2 ^ 63 - 1"
    by (auto simp: ParseInt64_def split: if_splits prod.splits)
  with strtoll_iff [of str k] show "int_text str = Some (sint n)" by (simp add: sint_word_of_int)
next
  assume a: "int_text str = Some (sint n)"
  have "- (2 ^ 63) \<le> sint n" "sint n < 2 ^ 63"
    using sint_greater_eq [of n] sint_lt [of n] by simp_all
  with a strtoll_iff [OF int_text_prechecks(1) [OF a], of "sint n"] int_text_prechecks(1) [OF a]
  show "ParseInt64 str = (Some n, True)" by (simp add: ParseInt64_def)
qed

lemma digits_value_foldl_nonneg:
  "\<forall>c \<in> set ds. IsDigit c \<Longrightarrow> 0 \<le> n \<Longrightarrow>
   0 \<le> foldl (\<lambda>n c. 10 * n + (int (code c) - int (code CHR ''0''))) n ds"
proof (induction ds arbitrary: n)
  case (Cons c ds)
  then have "0 \<le> 10 * n + (int (code c) - int (code CHR ''0''))"
    by (simp add: IsDigit_def)
  with Cons show ?case by simp
qed simp

lemma digits_value_nonneg: "\<forall>c \<in> set ds. IsDigit c \<Longrightarrow> 0 \<le> digits_value ds"
  unfolding digits_value_def by (rule digits_value_foldl_nonneg) simp_all

lemma strtoull_iff:
  assumes "ParsePrechecks str" "hd str \<noteq> CHR ''-''"
  shows "strtoull (c_str str) = (n, [], False) \<longleftrightarrow> int_text str = Some n \<and> n \<le> 2 ^ 64 - 1"
proof -
  have c: "c_str str = str" "str \<noteq> []" "dropWhile IsSpace str = str"
    by (rule prechecked [OF assms(1)])+
  obtain t where t: "take_sign str = (False, t)" using c(2) assms(2) by (cases "take_sign str"; cases str) (auto split: if_splits)
  show ?thesis
  proof (cases "t \<noteq> [] \<and> (\<forall>x \<in> set t. IsDigit x)")
    case True
    then have tw: "takeWhile IsDigit t = t" "dropWhile IsDigit t = []"
      by (simp_all add: takeWhile_eq_all_conv dropWhile_eq_Nil_conv)
    show ?thesis unfolding c strtoull_def int_text_def t prod.case Let_def tw
      using True by (auto split: if_splits)
  next
    case False
    then have "t = [] \<or> dropWhile IsDigit t \<noteq> []" by (auto simp: dropWhile_eq_Nil_conv)
    with False c(2) show ?thesis by (auto simp: c strtoull_def int_text_def t Let_def split: if_splits)
  qed
qed

lemma ParseUInt_value:
  assumes "ParsePrechecks str" "hd str \<noteq> CHR ''-''" "int_text str = Some n"
  shows "0 \<le> n"
proof -
  obtain c s where "str = c # s" using prechecked(2) [OF assms(1)] by (cases str) auto
  then show ?thesis using assms(2,3) by (auto simp: int_text_def split: if_splits intro!: digits_value_nonneg)
qed

lemma ParseUInt32_iff: "ParseUInt32 str = (Some n, True) \<longleftrightarrow> int_text str = Some (uint n) \<and> hd str \<noteq> CHR ''-''"
proof
  assume "ParseUInt32 str = (Some n, True)"
  then obtain k where k: "ParsePrechecks str" "hd str \<noteq> CHR ''-''" "strtoull (c_str str) = (k, [], False)"
    "n = word_of_int k" "k \<le> 2 ^ 32 - 1"
    by (cases str) (auto simp: ParseUInt32_def ParsePrechecks_def split: if_splits prod.splits)
  then have "int_text str = Some k" by (simp add: strtoull_iff)
  with ParseUInt_value [OF k(1,2) this] k show "int_text str = Some (uint n) \<and> hd str \<noteq> CHR ''-''"
    by (simp add: uint_word_of_int take_bit_int_eq_self)
next
  assume a: "int_text str = Some (uint n) \<and> hd str \<noteq> CHR ''-''"
  have "uint n < 2 ^ 32" using unsigned_less [of n] by simp
  with a strtoull_iff [of str "uint n"] int_text_prechecks(1) [of str "uint n"]
  show "ParseUInt32 str = (Some n, True)" by (simp add: ParseUInt32_def)
qed

lemma ParseUInt64_iff: "ParseUInt64 str = (Some n, True) \<longleftrightarrow> int_text str = Some (uint n) \<and> hd str \<noteq> CHR ''-''"
proof
  assume "ParseUInt64 str = (Some n, True)"
  then obtain k where k: "ParsePrechecks str" "hd str \<noteq> CHR ''-''" "strtoull (c_str str) = (k, [], False)"
    "n = word_of_int k" "k \<le> 2 ^ 64 - 1"
    by (cases str) (auto simp: ParseUInt64_def ParsePrechecks_def split: if_splits prod.splits)
  then have "int_text str = Some k" by (simp add: strtoull_iff)
  with ParseUInt_value [OF k(1,2) this] k show "int_text str = Some (uint n) \<and> hd str \<noteq> CHR ''-''"
    by (simp add: uint_word_of_int take_bit_int_eq_self)
next
  assume a: "int_text str = Some (uint n) \<and> hd str \<noteq> CHR ''-''"
  have "uint n < 2 ^ 64" using unsigned_less [of n] by simp
  with a strtoull_iff [of str "uint n"] int_text_prechecks(1) [of str "uint n"]
  show "ParseUInt64 str = (Some n, True)" by (simp add: ParseUInt64_def)
qed

subsection \<open>Host and port\<close>

fun find_last_of :: "char \<Rightarrow> string \<Rightarrow> nat \<Rightarrow> nat option" where
  "find_last_of c s 0 = (if s \<noteq> [] \<and> hd s = c then Some 0 else None)"
| "find_last_of c s (Suc n) =
     (if Suc n < length s \<and> s ! Suc n = c then Some (Suc n) else find_last_of c s n)"

text \<open>\<^verbatim>\<open>colon - 1\<close> at zero is \<^verbatim>\<open>npos\<close>, from which the search covers the whole string.\<close>

definition SplitHostPort :: "string \<Rightarrow> 32 word \<Rightarrow> 32 word \<times> string" where
  "SplitHostPort inp portOut =
     (let colon = find_last_of CHR '':'' inp (length inp);
          fHaveColon = (colon \<noteq> None);
          col = (case colon of Some k \<Rightarrow> k | None \<Rightarrow> 0);
          fBracketed = (fHaveColon \<and> (inp ! 0 = CHR ''['' \<and> inp ! (col - 1) = CHR '']''));
          fMultiColon = (fHaveColon \<and>
            find_last_of CHR '':'' inp (if col = 0 then length inp else col - 1) \<noteq> None);
          (inp, portOut) =
            (if fHaveColon \<and> (col = 0 \<or> fBracketed \<or> \<not> fMultiColon) then
               (case ParseInt32 (drop (col + 1) inp) of
                  (Some n, True) \<Rightarrow>
                    if sint n > 0 \<and> sint n < 0x10000 then (take col inp, n) else (inp, portOut)
                | _ \<Rightarrow> (inp, portOut))
             else (inp, portOut));
          hostOut =
            (if length inp > 0 \<and> inp ! 0 = CHR ''['' \<and> inp ! (length inp - 1) = CHR '']''
             then take (length inp - 2) (drop 1 inp) else inp)
      in (portOut, hostOut))"

lemma find_last_of_append:
  assumes "c \<notin> set t"
  shows "length s \<le> n \<Longrightarrow> find_last_of c (s @ c # t) n = Some (length s)"
proof (induction n)
  case 0
  then show ?case by simp
next
  case (Suc n)
  show ?case
  proof (cases "length s = Suc n")
    case True
    then have "(s @ c # t) ! Suc n = c" by (metis nth_append_length)
    with True show ?thesis by simp
  next
    case False
    with Suc.prems have l: "length s \<le> n" by simp
    have "\<not> (Suc n < length (s @ c # t) \<and> (s @ c # t) ! Suc n = c)"
    proof
      assume a: "Suc n < length (s @ c # t) \<and> (s @ c # t) ! Suc n = c"
      have "(s @ c # t) ! Suc n = t ! (n - length s)"
        using l by (simp add: nth_append Suc_diff_le)
      moreover have "n - length s < length t" using a l by (simp add: less_diff_conv2)
      ultimately show False using a assms nth_mem by metis
    qed
    then show ?thesis unfolding find_last_of.simps using Suc.IH [OF l] by (simp only: if_False)
  qed
qed

lemma find_last_of_None: "c \<notin> set (take (Suc n) s) \<Longrightarrow> find_last_of c s n = None"
proof (induction n)
  case 0
  then show ?case by (cases s) auto
next
  case (Suc n)
  have "c \<notin> set (take (Suc n) s)" using Suc.prems set_take_subset_set_take [of "Suc n" "Suc (Suc n)" s] by auto
  moreover have "\<not> (Suc n < length s \<and> s ! Suc n = c)"
    using Suc.prems by (auto simp: take_Suc_conv_app_nth)
  ultimately show ?case using Suc.IH by simp
qed

subsection \<open>Paragraphs\<close>

definition find_first_of :: "string \<Rightarrow> string \<Rightarrow> nat \<Rightarrow> nat option" where
  "find_first_of cs s ptr =
     (let k = ptr + length (takeWhile (\<lambda>c. c \<notin> set cs) (drop ptr s))
      in if k < length s then Some k else None)"

fun find_last_of_set :: "string \<Rightarrow> string \<Rightarrow> nat \<Rightarrow> nat option" where
  "find_last_of_set cs s 0 = (if s \<noteq> [] \<and> hd s \<in> set cs then Some 0 else None)"
| "find_last_of_set cs s (Suc n) =
     (if Suc n < length s \<and> s ! Suc n \<in> set cs then Some (Suc n) else find_last_of_set cs s n)"

lemma find_first_of_ge: "find_first_of cs s ptr = Some k \<Longrightarrow> ptr \<le> k \<and> k < length s"
  by (auto simp: find_first_of_def Let_def split: if_splits)

text \<open>The loop; \<open>out\<close> is what the stream holds, and \<^verbatim>\<open>width - indented\<close> wraps at 64 bits as \<^verbatim>\<open>size_t\<close> does.\<close>

function FormatParagraph_loop :: "string \<Rightarrow> u64 \<Rightarrow> u64 \<Rightarrow> nat \<Rightarrow> u64 \<Rightarrow> string \<Rightarrow> string" where
  "FormatParagraph_loop inp width indent ptr indented out =
     (if ptr < length inp then
        let lineend = (case find_first_of [CHR 0x0A] inp ptr of None \<Rightarrow> length inp | Some k \<Rightarrow> k);
            linelen = lineend - ptr;
            rem_width = width - indented
        in if linelen \<le> unat rem_width then
             FormatParagraph_loop inp width indent (lineend + 1) 0
               (out @ take (linelen + 1) (drop ptr inp))
           else
             let finalspace = find_last_of_set [CHR '' '', CHR 0x0A] inp (ptr + unat rem_width);
                 finalspace = (case finalspace of
                     Some k \<Rightarrow> if k < ptr then find_first_of [CHR 0x0A, CHR '' ''] inp ptr else Some k
                   | None \<Rightarrow> find_first_of [CHR 0x0A, CHR '' ''] inp ptr)
             in (case finalspace of
                   None \<Rightarrow> out @ drop ptr inp
                 | Some k \<Rightarrow>
                     (let out = out @ take (k - ptr) (drop ptr inp) @ [CHR 0x0A] in
                      if inp ! k = CHR 0x0A then FormatParagraph_loop inp width indent (k + 1) 0 out
                      else if indent \<noteq> 0 then
                        FormatParagraph_loop inp width indent (k + 1) indent
                          (out @ replicate (unat indent) CHR '' '')
                      else FormatParagraph_loop inp width indent (k + 1) indented out))
      else out)"
  by pat_completeness auto
termination
proof (relation "measure (\<lambda>(inp, _, _, ptr, _, _). Suc (length inp) - ptr)", goal_cases)
  case 1
  then show ?case by simp
next
  case (2 inp width indent ptr indented out lineend linelen rem_width)
  then have "ptr \<le> lineend" using find_first_of_ge by (auto split: option.splits)
  with 2 show ?case by simp
next
  case (3 inp width indent ptr indented out lineend linelen rem_width fs fs' k out')
  then have "ptr \<le> k" using find_first_of_ge by (auto split: option.splits if_splits)
  with 3 show ?case by simp
next
  case (4 inp width indent ptr indented out lineend linelen rem_width fs fs' k out')
  then have "ptr \<le> k" using find_first_of_ge by (auto split: option.splits if_splits)
  with 4 show ?case by simp
next
  case (5 inp width indent ptr indented out lineend linelen rem_width fs fs' k out')
  then have "ptr \<le> k" using find_first_of_ge by (auto split: option.splits if_splits)
  with 5 show ?case by simp
qed

declare FormatParagraph_loop.simps [simp del]

definition FormatParagraph :: "string \<Rightarrow> u64 \<Rightarrow> u64 \<Rightarrow> string" where
  "FormatParagraph inp width indent = FormatParagraph_loop inp width indent 0 0 []"

text \<open>What the searches find; with no indent the loop only turns blanks into line ends.\<close>

lemma find_first_of_in: "find_first_of cs s ptr = Some k \<Longrightarrow> s ! k \<in> set cs"
proof -
  let ?t = "drop ptr s"
  let ?n = "length (takeWhile (\<lambda>c. c \<notin> set cs) ?t)"
  assume "find_first_of cs s ptr = Some k"
  then have k: "k = ptr + ?n" "k < length s" by (auto simp: find_first_of_def Let_def split: if_splits)
  then have "?n < length ?t" by simp
  from nth_length_takeWhile [OF this] have "?t ! ?n \<in> set cs" by simp
  with k show ?thesis by simp
qed

lemma find_last_of_set_in: "find_last_of_set cs s n = Some k \<Longrightarrow> k < length s \<and> s ! k \<in> set cs"
  by (induction n) (auto simp: hd_conv_nth split: if_splits)

definition breaks :: "string \<Rightarrow> string \<Rightarrow> bool" where
  "breaks = list_all2 (\<lambda>i c. c = i \<or> (i = CHR '' '' \<and> c = CHR 0x0A))"

lemma breaks_refl: "breaks s s"
  by (simp add: breaks_def list_all2_refl)

lemma breaks_append: "breaks s t \<Longrightarrow> breaks s' t' \<Longrightarrow> breaks (s @ s') (t @ t')"
  by (simp add: breaks_def list_all2_appendI)

lemma breaks_split:
  assumes "ptr \<le> k" "k < length s" "s ! k \<in> {CHR '' '', CHR 0x0A}" "breaks (drop (k + 1) s) t"
  shows "breaks (drop ptr s) (take (k - ptr) (drop ptr s) @ [CHR 0x0A] @ t)"
proof -
  have "drop ptr s = take (k - ptr) (drop ptr s) @ drop k s"
    using assms(1) append_take_drop_id [of "k - ptr" "drop ptr s"] by simp
  also have "drop k s = [s ! k] @ drop (k + 1) s" using assms(2) by (simp add: Cons_nth_drop_Suc)
  finally have eq: "drop ptr s = take (k - ptr) (drop ptr s) @ [s ! k] @ drop (k + 1) s" .
  have "breaks [s ! k] [CHR 0x0A]" using assms(3) by (auto simp: breaks_def)
  with breaks_refl assms(4)
  have "breaks (take (k - ptr) (drop ptr s) @ [s ! k] @ drop (k + 1) s)
      (take (k - ptr) (drop ptr s) @ [CHR 0x0A] @ t)"
    by (intro breaks_append)
  then show ?thesis by (simp only: eq [symmetric])
qed

lemma FormatParagraph_loop_breaks:
  "indent = 0 \<Longrightarrow> indented = 0 \<Longrightarrow>
   \<exists>t. FormatParagraph_loop inp width indent ptr indented out = out @ t \<and> breaks (drop ptr inp) t"
proof (induction inp width indent ptr indented out rule: FormatParagraph_loop.induct)
  case (1 inp width indent ptr indented out)
  show ?case
  proof (cases "ptr < length inp")
    case False
    then show ?thesis by (simp add: FormatParagraph_loop.simps breaks_def)
  next
    case ptr: True
    define lineend where "lineend = (case find_first_of [CHR 0x0A] inp ptr of None \<Rightarrow> length inp | Some k \<Rightarrow> k)"
    define linelen where "linelen = lineend - ptr"
    define rem_width where "rem_width = width - indented"
    define fs where "fs = find_last_of_set [CHR '' '', CHR 0x0A] inp (ptr + unat rem_width)"
    define fs' where "fs' = (case fs of
       Some k \<Rightarrow> if k < ptr then find_first_of [CHR 0x0A, CHR '' ''] inp ptr else Some k
     | None \<Rightarrow> find_first_of [CHR 0x0A, CHR '' ''] inp ptr)"
    have le: "ptr \<le> lineend" using ptr find_first_of_ge by (auto simp: lineend_def split: option.splits)
    note IH = "1.IH" [OF ptr lineend_def linelen_def rem_width_def]
    note unfold = FormatParagraph_loop.simps [of inp width indent ptr indented out, unfolded if_P [OF ptr]
      Let_def, folded lineend_def, folded linelen_def rem_width_def, folded fs_def, folded fs'_def]
    show ?thesis
    proof (cases "linelen \<le> unat rem_width")
      case True
      have eq: "drop ptr inp = take (linelen + 1) (drop ptr inp) @ drop (lineend + 1) inp"
        using le append_take_drop_id [of "linelen + 1" "drop ptr inp"] by (simp add: linelen_def)
      from IH(1) [OF True "1.prems"(1) refl] obtain t where t:
        "FormatParagraph_loop inp width indent (lineend + 1) 0 (out @ take (linelen + 1) (drop ptr inp))
          = (out @ take (linelen + 1) (drop ptr inp)) @ t" "breaks (drop (lineend + 1) inp) t" by blast
      have "breaks (drop ptr inp) (take (linelen + 1) (drop ptr inp) @ t)"
        by (subst eq) (rule breaks_append [OF breaks_refl t(2)])
      then show ?thesis unfolding unfold if_P [OF True] t(1) by simp
    next
      case False
      show ?thesis
      proof (cases fs')
        case None
        then show ?thesis unfolding unfold if_not_P [OF False] None option.case
          by (simp add: breaks_refl)
      next
        case (Some k)
        then have k: "ptr \<le> k" "k < length inp" "inp ! k \<in> {CHR '' '', CHR 0x0A}"
          using find_first_of_ge [of "[CHR 0x0A, CHR '' '']" inp ptr k]
            find_first_of_in [of "[CHR 0x0A, CHR '' '']" inp ptr k]
            find_last_of_set_in [of "[CHR '' '', CHR 0x0A]" inp "ptr + unat rem_width" k]
          by (auto simp: fs'_def fs_def split: option.splits if_splits)
        let ?out = "out @ take (k - ptr) (drop ptr inp) @ [CHR 0x0A]"
        have "\<exists>t. FormatParagraph_loop inp width indent ptr indented out = ?out @ t
            \<and> breaks (drop (k + 1) inp) t"
        proof (cases "inp ! k = CHR 0x0A")
          case True
          from IH(2) [OF False fs_def fs'_def Some refl True "1.prems"(1) refl] show ?thesis
            unfolding unfold if_not_P [OF False] Some option.case if_P [OF True] .
        next
          case nl: False
          have ind: "\<not> indent \<noteq> 0" using "1.prems" by simp
          from IH(4) [OF False fs_def fs'_def Some refl nl ind "1.prems"] show ?thesis
            unfolding unfold if_not_P [OF False] Some option.case if_not_P [OF nl] if_not_P [OF ind] .
        qed
        then obtain t where t: "FormatParagraph_loop inp width indent ptr indented out = ?out @ t"
          "breaks (drop (k + 1) inp) t" by blast
        with breaks_split [OF k t(2)] show ?thesis by simp
      qed
    qed
  qed
qed

subsection \<open>Fixed-point numbers\<close>

text \<open>The \<^verbatim>\<open>int64_t\<close> variables are integers: the mantissa is kept below \<open>UPPER_BOUND\<close> and the exponents are
  bounded by the checks of the code. \<^verbatim>\<open>ptr\<close> is what is left of the string.\<close>

definition UPPER_BOUND :: int where
  "UPPER_BOUND = 1000000000000000000 - 1"

fun mantissa_shift :: "nat \<Rightarrow> int \<Rightarrow> int option" where
  "mantissa_shift 0 mantissa = Some mantissa"
| "mantissa_shift (Suc k) mantissa =
     (if mantissa > UPPER_BOUND div 10 then None else mantissa_shift k (mantissa * 10))"

definition ProcessMantissaDigit :: "char \<Rightarrow> int \<Rightarrow> nat \<Rightarrow> (int \<times> nat) option" where
  "ProcessMantissaDigit ch mantissa mantissa_tzeros =
     (if ch = CHR ''0'' then Some (mantissa, mantissa_tzeros + 1)
      else case mantissa_shift (mantissa_tzeros + 1) mantissa of
          None \<Rightarrow> None
        | Some m \<Rightarrow> Some (m + (int (code ch) - int (code CHR ''0'')), 0))"

fun mantissa_digits :: "string \<Rightarrow> int \<Rightarrow> nat \<Rightarrow> nat \<Rightarrow> (string \<times> int \<times> nat \<times> nat) option" where
  "mantissa_digits [] mantissa tzeros count = Some ([], mantissa, tzeros, count)"
| "mantissa_digits (c # ptr) mantissa tzeros count =
     (if IsDigit c then
        (case ProcessMantissaDigit c mantissa tzeros of
           None \<Rightarrow> None
         | Some (mantissa, tzeros) \<Rightarrow> mantissa_digits ptr mantissa tzeros (count + 1))
      else Some (c # ptr, mantissa, tzeros, count))"

fun exponent_digits :: "string \<Rightarrow> int \<Rightarrow> (string \<times> int) option" where
  "exponent_digits [] exponent = Some ([], exponent)"
| "exponent_digits (c # ptr) exponent =
     (if IsDigit c then
        if exponent > UPPER_BOUND div 10 then None
        else exponent_digits ptr (exponent * 10 + int (code c) - int (code CHR ''0''))
      else Some (c # ptr, exponent))"

fun scale_mantissa :: "nat \<Rightarrow> int \<Rightarrow> int option" where
  "scale_mantissa 0 mantissa = Some mantissa"
| "scale_mantissa (Suc k) mantissa =
     (if mantissa > UPPER_BOUND div 10 \<or> mantissa < - (UPPER_BOUND div 10) then None
      else scale_mantissa k (mantissa * 10))"

text \<open>The parts of the function, in order: the integer part, the fraction, the exponent, the result.\<close>

definition ParseFixedPoint_integer :: "string \<Rightarrow> (string \<times> int \<times> nat) option" where
  "ParseFixedPoint_integer ptr =
     (case ptr of
        [] \<Rightarrow> None
      | c # rest \<Rightarrow>
          if c = CHR ''0'' then Some (rest, 0, 0)
          else if code CHR ''1'' \<le> code c \<and> code c \<le> code CHR ''9'' then
            (case mantissa_digits ptr 0 0 0 of
               None \<Rightarrow> None
             | Some (ptr, mantissa, tzeros, _) \<Rightarrow> Some (ptr, mantissa, tzeros))
          else None)"

definition ParseFixedPoint_fraction ::
  "string \<Rightarrow> int \<Rightarrow> nat \<Rightarrow> (string \<times> int \<times> nat \<times> nat) option" where
  "ParseFixedPoint_fraction ptr mantissa tzeros =
     (if ptr \<noteq> [] \<and> hd ptr = CHR ''.'' then
        (if tl ptr \<noteq> [] \<and> IsDigit (hd (tl ptr)) then mantissa_digits (tl ptr) mantissa tzeros 0
         else None)
      else Some (ptr, mantissa, tzeros, 0))"

definition ParseFixedPoint_exponent :: "string \<Rightarrow> (string \<times> int \<times> bool) option" where
  "ParseFixedPoint_exponent ptr =
     (if ptr \<noteq> [] \<and> (hd ptr = CHR ''e'' \<or> hd ptr = CHR ''E'') then
        (case take_sign (tl ptr) of (exponent_sign, ptr) \<Rightarrow>
           if ptr \<noteq> [] \<and> IsDigit (hd ptr) then
             (case exponent_digits ptr 0 of
                None \<Rightarrow> None
              | Some (ptr, exponent) \<Rightarrow> Some (ptr, exponent, exponent_sign))
           else None)
      else Some (ptr, 0, False))"

definition ParseFixedPoint_finish ::
  "int \<Rightarrow> bool \<Rightarrow> int \<Rightarrow> bool \<Rightarrow> nat \<Rightarrow> nat \<Rightarrow> int \<Rightarrow> int option" where
  "ParseFixedPoint_finish mantissa mantissa_sign exponent exponent_sign point_ofs tzeros decimals =
     (let exponent = (if exponent_sign then - exponent else exponent);
          exponent = exponent - int point_ofs + int tzeros;
          mantissa = (if mantissa_sign then - mantissa else mantissa);
          exponent = exponent + decimals
      in if exponent < 0 then None
         else if exponent \<ge> 18 then None
         else case scale_mantissa (nat exponent) mantissa of
             None \<Rightarrow> None
           | Some m \<Rightarrow> if m > UPPER_BOUND \<or> m < - UPPER_BOUND then None else Some m)"

definition ParseFixedPoint :: "string \<Rightarrow> int \<Rightarrow> int option" where
  "ParseFixedPoint val decimals =
     (let (mantissa_sign, ptr) =
        (if val \<noteq> [] \<and> hd val = CHR ''-'' then (True, tl val) else (False, val)) in
      case ParseFixedPoint_integer ptr of
        None \<Rightarrow> None
      | Some (ptr, mantissa, tzeros) \<Rightarrow>
      case ParseFixedPoint_fraction ptr mantissa tzeros of
        None \<Rightarrow> None
      | Some (ptr, mantissa, tzeros, point_ofs) \<Rightarrow>
      case ParseFixedPoint_exponent ptr of
        None \<Rightarrow> None
      | Some (ptr, exponent, exponent_sign) \<Rightarrow>
          if ptr \<noteq> [] then None
          else ParseFixedPoint_finish mantissa mantissa_sign exponent exponent_sign point_ofs tzeros
            decimals)"

text \<open>The mantissa with its trailing zeros put back is the number the digits read so far spell.\<close>

lemma mantissa_shift_Some: "mantissa_shift k m = Some m' \<Longrightarrow> m' = m * 10 ^ k"
proof (induction k arbitrary: m)
  case (Suc k)
  then have "mantissa_shift k (m * 10) = Some m'" by (simp split: if_splits)
  from Suc.IH [OF this] show ?case by simp
qed simp

lemma mantissa_digits_value:
  "mantissa_digits s m tz count = Some (rest, m', tz', count') \<Longrightarrow>
   \<exists>ds. s = ds @ rest \<and> (\<forall>c \<in> set ds. IsDigit c) \<and> (rest \<noteq> [] \<longrightarrow> \<not> IsDigit (hd rest))
     \<and> count' = count + length ds
     \<and> m' * 10 ^ tz'
       = foldl (\<lambda>n c. 10 * n + (int (code c) - int (code CHR ''0''))) (m * 10 ^ tz) ds"
proof (induction s arbitrary: m tz count)
  case Nil
  then show ?case by auto
next
  case (Cons c s)
  show ?case
  proof (cases "IsDigit c")
    case True
    with Cons.prems obtain m1 tz1 where p: "ProcessMantissaDigit c m tz = Some (m1, tz1)"
      and r: "mantissa_digits s m1 tz1 (count + 1) = Some (rest, m', tz', count')"
      by (auto split: option.splits)
    have v: "m1 * 10 ^ tz1 = 10 * (m * 10 ^ tz) + (int (code c) - int (code CHR ''0''))"
    proof (cases "c = CHR ''0''")
      case True
      with p show ?thesis by (auto simp: ProcessMantissaDigit_def)
    next
      case False
      with p obtain q where "mantissa_shift (tz + 1) m = Some q"
        "m1 = q + (int (code c) - int (code CHR ''0''))" "tz1 = 0"
        by (auto simp: ProcessMantissaDigit_def split: option.splits)
      then show ?thesis using mantissa_shift_Some [of "tz + 1" m q] by simp
    qed
    from Cons.IH [OF r] obtain ds where ds: "s = ds @ rest" "\<forall>c \<in> set ds. IsDigit c"
      "rest \<noteq> [] \<longrightarrow> \<not> IsDigit (hd rest)" "count' = count + 1 + length ds"
      "m' * 10 ^ tz'
       = foldl (\<lambda>n c. 10 * n + (int (code c) - int (code CHR ''0''))) (m1 * 10 ^ tz1) ds" by auto
    show ?thesis using True ds unfolding v by (intro exI [of _ "c # ds"]) simp
  next
    case False
    with Cons.prems show ?thesis by (auto intro: exI [of _ "[]"])
  qed
qed

lemma scale_mantissa_Some: "scale_mantissa k m = Some m' \<Longrightarrow> m' = m * 10 ^ k"
proof (induction k arbitrary: m)
  case (Suc k)
  then have "scale_mantissa k (m * 10) = Some m'" by (simp split: if_splits)
  from Suc.IH [OF this] show ?case by simp
qed simp

lemma exponent_digits_value:
  "exponent_digits s e = Some (rest, e') \<Longrightarrow>
   \<exists>ds. s = ds @ rest \<and> (\<forall>c \<in> set ds. IsDigit c)
     \<and> e' = foldl (\<lambda>n c. 10 * n + (int (code c) - int (code CHR ''0''))) e ds"
proof (induction s arbitrary: e)
  case Nil
  then show ?case by auto
next
  case (Cons c s)
  show ?case
  proof (cases "IsDigit c")
    case True
    with Cons.prems have "exponent_digits s (e * 10 + int (code c) - int (code CHR ''0''))
        = Some (rest, e')" by (auto split: if_splits)
    from Cons.IH [OF this] obtain ds where "s = ds @ rest" "\<forall>c \<in> set ds. IsDigit c"
      "e' = foldl (\<lambda>n c. 10 * n + (int (code c) - int (code CHR ''0'')))
        (e * 10 + int (code c) - int (code CHR ''0'')) ds" by auto
    with True show ?thesis by (intro exI [of _ "c # ds"]) (simp add: algebra_simps)
  next
    case False
    with Cons.prems show ?thesis by (auto intro: exI [of _ "[]"])
  qed
qed

lemma ParseFixedPoint_integer_value:
  assumes "ParseFixedPoint_integer ptr = Some (rest, m, tz)"
  obtains ds where "ptr = ds @ rest" "ds \<noteq> []" "\<forall>c \<in> set ds. IsDigit c"
    "ds = ''0'' \<or> hd ds \<noteq> CHR ''0''" "m * 10 ^ tz = digits_value ds"
proof (cases ptr)
  case Nil
  with assms show ?thesis by (simp add: ParseFixedPoint_integer_def)
next
  case (Cons c t)
  show ?thesis
  proof (cases "c = CHR ''0''")
    case True
    with assms Cons that [of "''0''"] show ?thesis
      by (simp add: ParseFixedPoint_integer_def digits_value_def IsDigit_def)
  next
    case False
    with assms Cons obtain n where n: "mantissa_digits ptr 0 0 0 = Some (rest, m, tz, n)"
      and c: "IsDigit c"
      by (auto simp: ParseFixedPoint_integer_def IsDigit_def split: if_splits option.splits)
    from mantissa_digits_value [OF n] obtain ds where ds: "ptr = ds @ rest" "\<forall>c \<in> set ds. IsDigit c"
      "rest \<noteq> [] \<longrightarrow> \<not> IsDigit (hd rest)" "m * 10 ^ tz = digits_value ds"
      by (auto simp: digits_value_def)
    then have "ds \<noteq> []" using Cons c by (cases ds) auto
    moreover from this ds(1) Cons False have "hd ds \<noteq> CHR ''0''" by (cases ds) auto
    ultimately show ?thesis using that [of ds] ds by blast
  qed
qed

lemma ParseFixedPoint_fraction_value:
  assumes "ParseFixedPoint_fraction ptr m tz = Some (rest, m', tz', ofs)"
  obtains fs where "ptr = (if fs = [] then [] else CHR ''.'' # fs) @ rest"
    "\<forall>c \<in> set fs. IsDigit c" "ofs = length fs"
    "m' * 10 ^ tz' = foldl (\<lambda>n c. 10 * n + (int (code c) - int (code CHR ''0''))) (m * 10 ^ tz) fs"
proof (cases "ptr \<noteq> [] \<and> hd ptr = CHR ''.''")
  case False
  with assms that [of "[]"] show ?thesis by (auto simp: ParseFixedPoint_fraction_def)
next
  case True
  then have d: "tl ptr \<noteq> []" "IsDigit (hd (tl ptr))"
    and m: "mantissa_digits (tl ptr) m tz 0 = Some (rest, m', tz', ofs)"
    using assms by (auto simp: ParseFixedPoint_fraction_def split: if_splits)
  from mantissa_digits_value [OF m] obtain fs where fs: "tl ptr = fs @ rest" "\<forall>c \<in> set fs. IsDigit c"
    "rest \<noteq> [] \<longrightarrow> \<not> IsDigit (hd rest)" "ofs = length fs"
    "m' * 10 ^ tz' = foldl (\<lambda>n c. 10 * n + (int (code c) - int (code CHR ''0''))) (m * 10 ^ tz) fs"
    by auto
  then have "fs \<noteq> []" using d by (cases fs) auto
  moreover have "ptr = CHR ''.'' # tl ptr" using True by (cases ptr) auto
  ultimately show ?thesis using that [of fs] fs by simp
qed

definition exponent_text :: "string \<Rightarrow> int \<Rightarrow> bool" where
  "exponent_text es e \<longleftrightarrow> es = [] \<and> e = 0
     \<or> (\<exists>c t. es = c # t \<and> (c = CHR ''e'' \<or> c = CHR ''E'') \<and> int_text t = Some e)"

lemma ParseFixedPoint_exponent_value:
  assumes "ParseFixedPoint_exponent ptr = Some ([], e, s)"
  shows "exponent_text ptr (if s then - e else e)"
proof (cases "ptr \<noteq> [] \<and> (hd ptr = CHR ''e'' \<or> hd ptr = CHR ''E'')")
  case False
  with assms show ?thesis by (auto simp: ParseFixedPoint_exponent_def exponent_text_def)
next
  case True
  obtain s' p where s: "take_sign (tl ptr) = (s', p)" by fastforce
  with True assms have "p \<noteq> []" "s' = s" and x: "exponent_digits p 0 = Some ([], e)"
    by (auto simp: ParseFixedPoint_exponent_def split: if_splits option.splits)
  from exponent_digits_value [OF x] have "\<forall>c \<in> set p. IsDigit c" "e = digits_value p"
    by (auto simp: digits_value_def)
  with s \<open>p \<noteq> []\<close> \<open>s' = s\<close> have "int_text (tl ptr) = Some (if s then - e else e)"
    by (auto simp: int_text_def)
  moreover have "ptr = hd ptr # tl ptr" using True by simp
  ultimately show ?thesis using True unfolding exponent_text_def by metis
qed

lemma ParseFixedPoint_finish_value:
  assumes "ParseFixedPoint_finish m neg e s ofs tz decimals = Some a"
  shows "\<bar>a\<bar> < 10 ^ 18 \<and> (let x = decimals + (if s then - e else e) - int ofs in
    a * 10 ^ nat (- x) = (if neg then - (m * 10 ^ tz) else m * 10 ^ tz) * 10 ^ nat x)"
proof -
  define x where "x = decimals + (if s then - e else e) - int ofs"
  define sm where "sm = (if neg then - m else m)"
  have k: "0 \<le> x + int tz" "x + int tz < 18" "scale_mantissa (nat (x + int tz)) sm = Some a"
    "\<bar>a\<bar> \<le> UPPER_BOUND"
    using assms by (auto simp: ParseFixedPoint_finish_def Let_def x_def sm_def algebra_simps
        split: if_splits option.splits)
  have a: "a = sm * 10 ^ nat (x + int tz)" using scale_mantissa_Some [OF k(3)] .
  have "a * 10 ^ nat (- x) = sm * 10 ^ tz * 10 ^ nat x"
  proof (cases "0 \<le> x")
    case True
    then have "nat (x + int tz) = nat x + tz" by simp
    with True show ?thesis by (simp add: a power_add)
  next
    case False
    then have "nat (x + int tz) + nat (- x) = tz" using k(1) by simp
    then have "10 ^ nat (x + int tz) * 10 ^ nat (- x) = (10 ^ tz :: int)"
      by (simp add: power_add [symmetric])
    with False show ?thesis by (simp add: a)
  qed
  moreover have "sm * 10 ^ tz = (if neg then - (m * 10 ^ tz) else m * 10 ^ tz)" by (simp add: sm_def)
  ultimately show ?thesis using k(4) by (simp add: Let_def x_def UPPER_BOUND_def)
qed

subsection \<open>Comparison\<close>

definition TimingResistantEqual :: "byte list \<Rightarrow> byte list \<Rightarrow> bool" where
  "TimingResistantEqual a b =
     (if length b = 0 then length a = 0
      else foldl (\<lambda>accumulator i. accumulator OR ucast (a ! i XOR b ! (i mod length b)))
        (of_nat (length a) XOR of_nat (length b) :: u64) [0..<length a] = 0)"

lemma foldl_or_zero: "foldl (\<lambda>acc i. acc OR f i) x is = (0 :: u64) \<longleftrightarrow> x = 0 \<and> (\<forall>i \<in> set is. f i = 0)"
proof (induction "is" arbitrary: x)
  case (Cons i "is")
  have "x OR f i = 0 \<longleftrightarrow> x = 0 \<and> f i = 0"
    by (metis or.comm_neutral or.left_neutral or_eq_0_iff)
  with Cons show ?case by auto
qed simp

subsection \<open>Properties\<close>

text \<open>(C28) Base64: \<^verbatim>\<open>DecodeBase64\<close> accepts exactly the texts \<^verbatim>\<open>EncodeBase64\<close> writes, and returns the bytes
  each was written from. Wrong padding, characters outside the alphabet, a dangling digit and
  non-zero bits behind the last byte are all rejected.\<close>

theorem DecodeBase64_iff: "DecodeBase64 s = (bs, True) \<longleftrightarrow> s = EncodeBase64 bs"
proof
  assume "DecodeBase64 s = (bs, True)"
  then show "s = EncodeBase64 bs"
    unfolding DecodeBase64_def EncodeBase64_def by (rule text64.text_encode_decode)
next
  assume "s = EncodeBase64 bs"
  then show "DecodeBase64 s = (bs, True)"
    unfolding DecodeBase64_def EncodeBase64_def by (rule text64.text_decode_encode)
qed

text \<open>Base32: decoding what \<^verbatim>\<open>EncodeBase32\<close> wrote gives the bytes back and is valid. (Decoding also takes
  capital letters, so not every valid text is one \<^verbatim>\<open>EncodeBase32\<close> writes.)\<close>

theorem DecodeBase32_EncodeBase32: "DecodeBase32 (EncodeBase32 bs) = (bs, True)"
  unfolding DecodeBase32_def by (rule text32.text_decode_encode) (simp add: EncodeBase32_def)

text \<open>\<^verbatim>\<open>ParseHex\<close> reads back what \<^verbatim>\<open>HexStr\<close> writes, also when other text follows, and \<^verbatim>\<open>IsHex\<close> accepts it.\<close>

theorem ParseHex_HexStr:
  "ParseHex (HexStr bs @ rest) = bs @ ParseHex rest \<and> (IsHex (HexStr bs) \<longleftrightarrow> bs \<noteq> [])"
  using ParseHex_HexStr_append [of bs rest] IsHex_HexStr [of bs]
  by (cases "bs = []") (simp_all add: IsHex_def)

text \<open>(C37) \<^verbatim>\<open>ParseInt32\<close> and \<^verbatim>\<open>ParseInt64\<close> succeed exactly on an optional sign followed by decimal digits, with
  nothing before or after, whose value is in range, and return that value. \<^verbatim>\<open>ParseUInt32\<close> and \<^verbatim>\<open>ParseUInt64\<close> do
  so for the unsigned range, and take no minus sign, also not before a zero.\<close>

theorem ParseInt_iff:
  "(ParseInt32 str = (Some m, True) \<longleftrightarrow> int_text str = Some (sint m))
    \<and> (ParseInt64 str = (Some n, True) \<longleftrightarrow> int_text str = Some (sint n))
    \<and> (ParseUInt32 str = (Some k, True) \<longleftrightarrow> int_text str = Some (uint k) \<and> hd str \<noteq> CHR ''-'')
    \<and> (ParseUInt64 str = (Some l, True) \<longleftrightarrow> int_text str = Some (uint l) \<and> hd str \<noteq> CHR ''-'')"
  using ParseInt32_iff ParseInt64_iff ParseUInt32_iff ParseUInt64_iff by blast

text \<open>A successful \<^verbatim>\<open>ParseFixedPoint\<close> has read a number in JSON syntax (an optional minus, an integer
  without superfluous leading zeros, an optional fraction and exponent, nothing else), and the
  amount is exactly its value times \<open>10 ^ decimals\<close>, never rounded, and less than \<open>10 ^ 18\<close> in
  magnitude.\<close>

theorem ParseFixedPoint_exact:
  assumes "ParseFixedPoint val decimals = Some a"
  shows "\<bar>a\<bar> < 10 ^ 18 \<and> (\<exists>neg ds fs es e.
    val = (if neg then ''-'' else []) @ ds @ (if fs = [] then [] else CHR ''.'' # fs) @ es
    \<and> ds \<noteq> [] \<and> (\<forall>c \<in> set (ds @ fs). IsDigit c) \<and> (ds = ''0'' \<or> hd ds \<noteq> CHR ''0'')
    \<and> exponent_text es e
    \<and> (let x = decimals + e - int (length fs); v = digits_value (ds @ fs) in
        a * 10 ^ nat (- x) = (if neg then - v else v) * 10 ^ nat x))"
proof -
  define neg where "neg = (val \<noteq> [] \<and> hd val = CHR ''-'')"
  define p where "p = (if neg then tl val else val)"
  have val: "val = (if neg then ''-'' else []) @ p" by (cases val) (auto simp: neg_def p_def)
  obtain p1 m1 tz1 p2 m2 tz2 ofs e s where
    i: "ParseFixedPoint_integer p = Some (p1, m1, tz1)"
    and f: "ParseFixedPoint_fraction p1 m1 tz1 = Some (p2, m2, tz2, ofs)"
    and x: "ParseFixedPoint_exponent p2 = Some ([], e, s)"
    and fin: "ParseFixedPoint_finish m2 neg e s ofs tz2 decimals = Some a"
    using assms by (auto simp: ParseFixedPoint_def Let_def p_def neg_def split: if_splits option.splits)
  obtain ds where ds: "p = ds @ p1" "ds \<noteq> []" "\<forall>c \<in> set ds. IsDigit c"
    "ds = ''0'' \<or> hd ds \<noteq> CHR ''0''" "m1 * 10 ^ tz1 = digits_value ds"
    by (rule ParseFixedPoint_integer_value [OF i])
  obtain fs where fs: "p1 = (if fs = [] then [] else CHR ''.'' # fs) @ p2" "\<forall>c \<in> set fs. IsDigit c"
    "ofs = length fs"
    "m2 * 10 ^ tz2 = foldl (\<lambda>n c. 10 * n + (int (code c) - int (code CHR ''0''))) (m1 * 10 ^ tz1) fs"
    by (rule ParseFixedPoint_fraction_value [OF f])
  have v: "m2 * 10 ^ tz2 = digits_value (ds @ fs)"
    unfolding fs(4) ds(5) by (simp add: digits_value_def)
  from ParseFixedPoint_finish_value [OF fin] ParseFixedPoint_exponent_value [OF x]
  show ?thesis unfolding v fs(3) val ds(1) fs(1)
    using ds(2-4) fs(2)
    by (intro conjI exI [of _ neg] exI [of _ ds] exI [of _ fs] exI [of _ p2]
        exI [of _ "if s then - e else e"]) (auto simp: Let_def)
qed

theorem ParseFixedPoint_exact_witness:
  "ParseFixedPoint ''-12.340e1'' 3 = Some (- 123400) \<and> \<bar>- 123400\<bar> < (10 :: int) ^ 18"
proof -
  have "ParseFixedPoint ''-12.340e1'' 3 = Some (- 123400)" by code_simp
  with ParseFixedPoint_exact [OF this] show ?thesis by blast
qed

text \<open>A host without a colon, a colon and the decimal text of a port from 1 to 65535 are split into that
  host, brackets removed, and that port.\<close>

theorem SplitHostPort_joined:
  assumes "CHR '':'' \<notin> set host" "int_text port = Some (sint n)" "0 < sint n" "sint n < 65536"
  shows "SplitHostPort (host @ CHR '':'' # port) p0 =
    (n, if host \<noteq> [] \<and> hd host = CHR ''['' \<and> last host = CHR '']'' then butlast (tl host) else host)"
proof -
  let ?s = "host @ CHR '':'' # port"
  have nocolon: "CHR '':'' \<notin> set port"
  proof -
    obtain neg ds where d: "take_sign port = (neg, ds)" "\<forall>c \<in> set ds. IsDigit c"
      using assms(2) by (auto simp: int_text_def split: prod.splits if_splits)
    then have "set port \<subseteq> {CHR ''-'', CHR ''+''} \<union> set ds"
      by (cases port) (auto split: if_splits)
    moreover have "\<not> IsDigit CHR '':''" by (simp add: IsDigit_def)
    ultimately show ?thesis using d(2) by auto
  qed
  have colon: "find_last_of CHR '':'' ?s (length ?s) = Some (length host)"
    by (rule find_last_of_append [OF nocolon]) simp
  have multi: "find_last_of CHR '':'' ?s (length host - 1) = None" if "host \<noteq> []"
    by (rule find_last_of_None) (use that assms(1) in simp)
  have parse: "ParseInt32 port = (Some n, True)" using assms(2) by (simp only: ParseInt32_iff)
  have "(if length host > 0 \<and> host ! 0 = CHR ''['' \<and> host ! (length host - 1) = CHR '']''
      then take (length host - 2) (drop 1 host) else host)
    = (if host \<noteq> [] \<and> hd host = CHR ''['' \<and> last host = CHR '']'' then butlast (tl host) else host)"
    by (auto simp: hd_conv_nth last_conv_nth butlast_conv_take drop_Suc numeral_2_eq_2)
  then show ?thesis
    using colon multi parse assms(3,4) by (auto simp: SplitHostPort_def Let_def)
qed

theorem SplitHostPort_joined_witness:
  "SplitHostPort ''[x]:8333'' 0 = (8333, ''x'')"
  using SplitHostPort_joined [of "''[x]''" "''8333''" 8333 0]
  by (simp add: int_text_def digits_value_def IsDigit_def)

text \<open>\<^verbatim>\<open>TimingResistantEqual\<close>, which looks at every byte of its first argument, decides equality.\<close>

theorem TimingResistantEqual_iff:
  assumes "length a < 2 ^ 64" "length b < 2 ^ 64"
  shows "TimingResistantEqual a b \<longleftrightarrow> a = b"
proof (cases "length b = 0")
  case True
  then show ?thesis by (auto simp: TimingResistantEqual_def)
next
  case False
  have un: "unat (of_nat (length c) :: u64) = length c" if "length c < 2 ^ 64" for c :: "byte list"
    using that by (simp add: unsigned_of_nat take_bit_nat_eq_self_iff)
  have len: "of_nat (length a) = (of_nat (length b) :: u64) \<longleftrightarrow> length a = length b"
    using un [OF assms(1)] un [OF assms(2)] by metis
  have zero: "(ucast z :: u64) = 0 \<longleftrightarrow> z = 0" for z :: byte
  proof
    assume "(ucast z :: u64) = 0"
    then have "ucast (ucast z :: u64) = (0 :: byte)" by (simp only: unsigned_0)
    moreover have "ucast (ucast z :: u64) = z" by (rule ucast_ucast_up) simp
    ultimately show "z = 0" by (simp only:)
  qed simp
  have "TimingResistantEqual a b \<longleftrightarrow>
      length a = length b \<and> (\<forall>i < length a. a ! i = b ! (i mod length b))"
    using False
    by (simp only: TimingResistantEqual_def if_False foldl_or_zero len zero word_xor_zero_iff
        set_upt atLeastLessThan_iff Ball_def zero_le simp_thms)
  also have "\<dots> \<longleftrightarrow> length a = length b \<and> (\<forall>i < length a. a ! i = b ! i)"
    by (intro conj_cong refl) auto
  finally show ?thesis by (simp only: list_eq_iff_nth_eq)
qed

theorem TimingResistantEqual_iff_witness:
  "\<not> TimingResistantEqual [1, 2, 3] [1, 2, 4]"
  by (subst TimingResistantEqual_iff) simp_all

text \<open>With no indent \<^verbatim>\<open>FormatParagraph\<close> only breaks lines: whatever the width, its output is its input
  with some blanks turned into line ends, no character added, lost or moved; and it always returns.\<close>

theorem FormatParagraph_only_breaks:
  "length (FormatParagraph inp width 0) = length inp
    \<and> (\<forall>i < length inp. FormatParagraph inp width 0 ! i = inp ! i
        \<or> (inp ! i = CHR '' '' \<and> FormatParagraph inp width 0 ! i = CHR 0x0A))"
  using FormatParagraph_loop_breaks [of 0 0 inp width 0 "[]"]
  by (auto simp: FormatParagraph_def breaks_def list_all2_conv_all_nth)

theorem FormatParagraph_only_breaks_witness:
  "length (FormatParagraph ''ab cd'' 3 0) = 5"
  using FormatParagraph_only_breaks [of "''ab cd''" 3] by simp

end
