(* ===== verification/Uint256.thy ===== *)
theory Uint256
  imports Serialize StrEncodings
begin

section \<open>Opaque blobs: uint256.h, uint256.cpp\<close>

text \<open>
  \<^verbatim>\<open>base_blob<BITS>\<close> is its array \<^verbatim>\<open>data\<close>; \<^verbatim>\<open>WIDTH\<close> is the parameter \<open>w\<close> of the operations that need it, 20 for
  \<^verbatim>\<open>uint160\<close> and 32 for \<^verbatim>\<open>uint256\<close>, and \<open>blob_ok w\<close> says the array has that length. The comparison operators
  are the order of the type, so that the library's ordered containers apply to blobs.
\<close>

datatype base_blob = Blob (blob_data: "byte list")

type_synonym uint256 = base_blob
type_synonym uint160 = base_blob

definition blob_ok :: "nat \<Rightarrow> base_blob \<Rightarrow> bool" where
  "blob_ok w b \<longleftrightarrow> length (blob_data b) = w"

definition base_blob_new :: "nat \<Rightarrow> base_blob" where
  "base_blob_new w = Blob (replicate w 0)"

definition base_blob_of_vec :: "nat \<Rightarrow> byte list \<Rightarrow> base_blob option" where
  "base_blob_of_vec w vch = (if length vch = w then Some (Blob vch) else None)"

fun IsNull_loop :: "byte list \<Rightarrow> bool" where
  "IsNull_loop [] = True"
| "IsNull_loop (b # bs) = (if b \<noteq> 0 then False else IsNull_loop bs)"

definition base_blob_IsNull :: "base_blob \<Rightarrow> bool" where
  "base_blob_IsNull b = IsNull_loop (blob_data b)"

definition base_blob_SetNull :: "base_blob \<Rightarrow> base_blob" where
  "base_blob_SetNull b = Blob (replicate (length (blob_data b)) 0)"

fun memcmp :: "byte list \<Rightarrow> byte list \<Rightarrow> int" where
  "memcmp [] [] = 0"
| "memcmp [] (y # ys) = -1"
| "memcmp (x # xs) [] = 1"
| "memcmp (x # xs) (y # ys) = (if x = y then memcmp xs ys else uint x - uint y)"

definition base_blob_Compare :: "base_blob \<Rightarrow> base_blob \<Rightarrow> int" where
  "base_blob_Compare a b = memcmp (blob_data a) (blob_data b)"

lemma memcmp_zero_iff: "memcmp xs ys = 0 \<longleftrightarrow> xs = ys"
  by (induction xs ys rule: memcmp.induct) (auto simp: word_uint_eq_iff)

lemma memcmp_refl [simp]: "memcmp xs xs = 0"
  by (simp add: memcmp_zero_iff)

lemma memcmp_swap: "memcmp ys xs = - memcmp xs ys"
  by (induction xs ys rule: memcmp.induct) auto

lemma memcmp_trans: "memcmp xs ys \<le> 0 \<Longrightarrow> memcmp ys zs \<le> 0 \<Longrightarrow> memcmp xs zs \<le> 0"
proof (induction xs arbitrary: ys zs)
  case Nil
  then show ?case by (cases ys; cases zs) auto
next
  case (Cons x xs)
  then obtain y ys' where ys: "ys = y # ys'" by (cases ys) auto
  with Cons.prems obtain z zs' where zs: "zs = z # zs'" by (cases zs) auto
  from Cons.prems have le: "uint x \<le> uint y" "uint y \<le> uint z" unfolding ys zs
    by (auto split: if_splits)
  show ?case
  proof (cases "x = z")
    case True
    with le have "x = y" by (simp add: word_uint_eq_iff)
    with True Cons.prems Cons.IH [of ys' zs'] ys zs show ?thesis by simp
  next
    case False
    with le zs show ?thesis by simp
  qed
qed

instantiation base_blob :: linorder
begin

definition less_eq_base_blob :: "base_blob \<Rightarrow> base_blob \<Rightarrow> bool" where
  "less_eq_base_blob a b \<longleftrightarrow> base_blob_Compare a b \<le> 0"

definition less_base_blob :: "base_blob \<Rightarrow> base_blob \<Rightarrow> bool" where
  "less_base_blob a b \<longleftrightarrow> base_blob_Compare a b < 0"

instance
proof
  fix x y z :: base_blob
  show "x < y \<longleftrightarrow> x \<le> y \<and> \<not> y \<le> x"
    using memcmp_swap [of "blob_data x" "blob_data y"]
    by (auto simp: less_eq_base_blob_def less_base_blob_def base_blob_Compare_def)
  show "x \<le> x" by (simp add: less_eq_base_blob_def base_blob_Compare_def)
  show "x \<le> z" if "x \<le> y" "y \<le> z"
    using that memcmp_trans by (auto simp: less_eq_base_blob_def base_blob_Compare_def)
  show "x = y" if "x \<le> y" "y \<le> x"
  proof -
    have "memcmp (blob_data x) (blob_data y) = 0"
      using that memcmp_swap [of "blob_data x" "blob_data y"]
      by (simp add: less_eq_base_blob_def base_blob_Compare_def)
    then show ?thesis by (simp add: memcmp_zero_iff base_blob.expand)
  qed
  show "x \<le> y \<or> y \<le> x"
    using memcmp_swap [of "blob_data x" "blob_data y"]
    by (auto simp: less_eq_base_blob_def base_blob_Compare_def)
qed

end

definition base_blob_GetHex :: "base_blob \<Rightarrow> string" where
  "base_blob_GetHex b = HexStr (rev (blob_data b))"

text \<open>The digits are taken from the last to the first, so the loop runs over their reverse.\<close>

fun SetHex_loop :: "string \<Rightarrow> nat \<Rightarrow> byte list \<Rightarrow> byte list" where
  "SetHex_loop [] p1 dat = dat"
| "SetHex_loop [c] p1 dat = (if p1 < length dat then dat[p1 := word_of_int (HexDigit c)] else dat)"
| "SetHex_loop (c # d # psz) p1 dat =
     (if p1 < length dat then
        SetHex_loop psz (p1 + 1)
          (dat[p1 := word_of_int (HexDigit c) OR push_bit 4 (word_of_int (HexDigit d))])
      else dat)"

definition base_blob_SetHex :: "nat \<Rightarrow> string \<Rightarrow> base_blob" where
  "base_blob_SetHex w psz =
     (let dat = replicate w 0;
          psz = dropWhile IsSpace psz;
          psz = (case psz of c # d # t \<Rightarrow> if c = CHR ''0'' \<and> ToLower d = CHR ''x'' then t else psz
                 | _ \<Rightarrow> psz);
          digits = takeWhile (\<lambda>c. HexDigit c \<noteq> -1) psz
      in Blob (SetHex_loop (rev digits) 0 dat))"

definition base_blob_SetHex_str :: "nat \<Rightarrow> string \<Rightarrow> base_blob" where
  "base_blob_SetHex_str w str = base_blob_SetHex w (c_str str)"

definition base_blob_ToString :: "base_blob \<Rightarrow> string" where
  "base_blob_ToString b = base_blob_GetHex b"

definition base_blob_GetUint64 :: "base_blob \<Rightarrow> nat \<Rightarrow> u64" where
  "base_blob_GetUint64 b pos =
     (let ptr = drop (pos * 8) (blob_data b) in
      ucast (ptr ! 0) OR
      push_bit 8 (ucast (ptr ! 1)) OR
      push_bit 16 (ucast (ptr ! 2)) OR
      push_bit 24 (ucast (ptr ! 3)) OR
      push_bit 32 (ucast (ptr ! 4)) OR
      push_bit 40 (ucast (ptr ! 5)) OR
      push_bit 48 (ucast (ptr ! 6)) OR
      push_bit 56 (ucast (ptr ! 7)))"

definition base_blob_Serialize :: "base_blob \<Rightarrow> wop list" where
  "base_blob_Serialize b = [Write (blob_data b)]"

definition base_blob_Unserialize :: "nat \<Rightarrow> base_blob reader" where
  "base_blob_Unserialize w = Read w (\<lambda>bs. Return (Blob bs))"

definition uint256S :: "string \<Rightarrow> uint256" where
  "uint256S str = base_blob_SetHex 32 str"

lemma base_blob_codec: "strict_codec base_blob_Serialize (base_blob_Unserialize w) (blob_ok w)"
  by unfold_locales
    (auto simp: base_blob_Serialize_def base_blob_Unserialize_def blob_ok_def list_read_def
      split: if_splits)

interpretation uint256: strict_codec base_blob_Serialize "base_blob_Unserialize 32" "blob_ok 32"
  by (rule base_blob_codec)

interpretation uint160: strict_codec base_blob_Serialize "base_blob_Unserialize 20" "blob_ok 20"
  by (rule base_blob_codec)

lemma reads_at_most_base_blob [bounded_intros]:
  "w \<le> l \<Longrightarrow> reads_at_most l (base_blob_Unserialize w)"
  by (simp add: base_blob_Unserialize_def)

lemma IsNull_loop_iff: "IsNull_loop bs \<longleftrightarrow> bs = replicate (length bs) 0"
  by (induction bs) auto

lemma base_blob_IsNull_iff: "blob_ok w b \<Longrightarrow> base_blob_IsNull b \<longleftrightarrow> b = base_blob_new w"
  by (cases b) (auto simp: base_blob_IsNull_def IsNull_loop_iff blob_ok_def base_blob_new_def)

lemma base_blob_GetUint64_le_word:
  assumes "8 * pos + 8 \<le> length (blob_data b)"
  shows "base_blob_GetUint64 b pos = le_word (take 8 (drop (8 * pos) (blob_data b)))"
proof -
  have eight: "\<exists>a0 a1 a2 a3 a4 a5 a6 a7. l = [a0, a1, a2, a3, a4, a5, a6, a7]"
    if "length l = Suc (Suc (Suc (Suc (Suc (Suc (Suc (Suc 0)))))))" for l :: "byte list"
    using that by (auto simp: length_Suc_conv)
  have "\<exists>a0 a1 a2 a3 a4 a5 a6 a7.
      take 8 (drop (8 * pos) (blob_data b)) = [a0, a1, a2, a3, a4, a5, a6, a7]"
    by (rule eight) (use assms in simp)
  then obtain a0 a1 a2 a3 a4 a5 a6 a7
    where t: "take 8 (drop (8 * pos) (blob_data b)) = [a0, a1, a2, a3, a4, a5, a6, a7]" by blast
  have nth: "drop (pos * 8) (blob_data b) ! i = [a0, a1, a2, a3, a4, a5, a6, a7] ! i" if "i < 8" for i
    using t that by (metis mult.commute nth_take)
  show ?thesis unfolding t base_blob_GetUint64_def Let_def
    by (simp add: nth push_bit_or or.assoc)
qed

text \<open>The hexadecimal digits of the reversed bytes, read from the end, fill the array from the front.\<close>

lemma rev_HexStr_Cons:
  "rev (HexStr (rev (b # bs))) =
    hexmap ! unat (b AND 15) # hexmap ! unat (drop_bit 4 b) # rev (HexStr (rev bs))"
proof -
  have app: "HexStr (xs @ ys) = HexStr xs @ HexStr ys" for xs ys by (induction xs) auto
  show ?thesis by (simp add: app)
qed

lemma SetHex_loop_HexStr:
  "p1 + length bs = length dat \<Longrightarrow>
   SetHex_loop (rev (HexStr (rev bs))) p1 dat = take p1 dat @ bs"
proof (induction bs arbitrary: p1 dat)
  case Nil
  then show ?case by simp
next
  case (Cons b bs)
  have b: "word_of_int (HexDigit (hexmap ! unat (b AND 15)))
      OR push_bit 4 (word_of_int (HexDigit (hexmap ! unat (drop_bit 4 b)))) = b"
    using hexmap_digits [OF nibbles(1), of b] hexmap_digits [OF nibbles(2), of b] nibbles_join [of b]
    by (simp add: or.commute push_bit_eq_mult mult.commute)
  have p1: "p1 < length dat" using Cons.prems by simp
  then have "SetHex_loop (rev (HexStr (rev (b # bs)))) p1 dat
      = SetHex_loop (rev (HexStr (rev bs))) (p1 + 1) (dat[p1 := b])"
    unfolding rev_HexStr_Cons by (simp only: SetHex_loop.simps if_True b)
  also have "\<dots> = take (p1 + 1) (dat[p1 := b]) @ bs" using Cons.prems by (intro Cons.IH) simp
  also have "take (p1 + 1) (dat[p1 := b]) = take p1 dat @ [b]"
    using p1 by (simp add: take_Suc_conv_app_nth)
  finally show ?case by simp
qed

lemma HexStr_digits: "\<forall>c \<in> set (HexStr bs). HexDigit c \<noteq> -1 \<and> \<not> IsSpace c \<and> ToLower c \<noteq> CHR ''x''"
proof -
  have "list_all (\<lambda>n. HexDigit (hexmap ! n) \<noteq> -1 \<and> \<not> IsSpace (hexmap ! n)
      \<and> ToLower (hexmap ! n) \<noteq> CHR ''x'') [0..<16]" by code_simp
  then have d: "HexDigit (hexmap ! n) \<noteq> -1 \<and> \<not> IsSpace (hexmap ! n) \<and> ToLower (hexmap ! n) \<noteq> CHR ''x''"
    if "n < 16" for n using that by (simp add: list_all_iff)
  show ?thesis
    by (induction bs) (use d [OF nibbles(1)] d [OF nibbles(2)] in \<open>simp_all del: uint_not_minus_1\<close>)
qed

subsection \<open>Properties\<close>

text \<open>\<^verbatim>\<open>SetHex\<close> reads back what \<^verbatim>\<open>GetHex\<close> writes, for every width: leading white space and a \<^verbatim>\<open>0x\<close> are
  skipped, and what follows the digits is ignored.\<close>

theorem SetHex_GetHex:
  assumes "blob_ok w b" "\<forall>c \<in> set blanks. IsSpace c" "zx \<in> {'''', ''0x'', ''0X''}"
    and "rest = [] \<or> HexDigit (hd rest) = -1 \<and> ToLower (hd rest) \<noteq> CHR ''x'' \<and> \<not> IsSpace (hd rest)"
  shows "base_blob_SetHex w (blanks @ zx @ base_blob_GetHex b @ rest) = b"
proof -
  let ?h = "base_blob_GetHex b"
  have h: "\<forall>c \<in> set ?h. HexDigit c \<noteq> -1 \<and> \<not> IsSpace c \<and> ToLower c \<noteq> CHR ''x''"
    unfolding base_blob_GetHex_def by (rule HexStr_digits)
  have blanks: "dropWhile IsSpace (blanks @ ys) = dropWhile IsSpace ys" for ys
    using assms(2) by (simp add: dropWhile_append2)
  have hd: "?h @ rest = [] \<or> \<not> IsSpace (hd (?h @ rest))"
    using h assms(4) by (cases ?h) auto
  have skip: "dropWhile IsSpace (zx @ ?h @ rest) = zx @ ?h @ rest"
    using hd assms(3) by (cases "?h @ rest") (auto simp: IsSpace_def)
  have zero: "HexDigit CHR ''0'' \<noteq> -1" by code_simp
  have no_x: "ToLower d \<noteq> CHR ''x''" if "?h @ rest = CHR ''0'' # d # t" for d t
  proof (cases ?h)
    case Nil
    then show ?thesis using that zero assms(4) by auto
  next
    case (Cons y ys)
    then show ?thesis using that h assms(4) by (cases ys) auto
  qed
  have zx: "(case zx @ ?h @ rest of c # d # t \<Rightarrow> if c = CHR ''0'' \<and> ToLower d = CHR ''x'' then t
        else zx @ ?h @ rest | _ \<Rightarrow> zx @ ?h @ rest) = ?h @ rest"
  proof (cases "zx = []")
    case True
    then show ?thesis using no_x by (auto split: list.split)
  next
    case False
    then have "zx = ''0x'' \<or> zx = ''0X''" using assms(3) by auto
    moreover have "ToLower CHR ''x'' = CHR ''x''" "ToLower CHR ''X'' = CHR ''x''" by code_simp+
    ultimately show ?thesis by auto
  qed
  have tw: "takeWhile (\<lambda>c. HexDigit c \<noteq> -1) (?h @ rest) = ?h"
    using h assms(4) by (cases rest) (auto simp: takeWhile_tail takeWhile_append)
  have "SetHex_loop (rev ?h) 0 (replicate w 0) = blob_data b"
    using SetHex_loop_HexStr [of 0 "blob_data b" "replicate w 0"] assms(1)
    by (simp add: base_blob_GetHex_def blob_ok_def)
  then show ?thesis by (simp only: base_blob_SetHex_def Let_def blanks skip zx tw base_blob.collapse)
qed

theorem SetHex_GetHex_witness:
  "base_blob_SetHex 2 '' 0xfe01, rest'' = Blob [0x01, 0xfe]"
proof -
  have "base_blob_GetHex (Blob [0x01, 0xfe]) = ''fe01''" by code_simp
  moreover have "IsSpace CHR '' ''" "HexDigit CHR '','' = -1 \<and> ToLower CHR '','' \<noteq> CHR ''x'' \<and> \<not> IsSpace CHR '',''"
    by code_simp+
  ultimately show ?thesis
    using SetHex_GetHex [of 2 "Blob [0x01, 0xfe]" "'' ''" "''0x''" "'', rest''"]
    by (simp add: blob_ok_def)
qed

end
