(* ===== verification/Hash.thy ===== *)
theory Hash
  imports Uint256
begin

section \<open>Hashing: hash.h\<close>

text \<open>
  The digests themselves are mbed TLS's: a record \<open>mbedtls\<close> of its functions on its two kinds of
  context is a parameter of every definition here. \<open>computes m sha ripemd\<close> is what its documentation
  promises: after \<^verbatim>\<open>starts\<close> and any number of \<^verbatim>\<open>update\<close>s, \<^verbatim>\<open>finish\<close> gives the digest of all that was
  written. The classes of \<^verbatim>\<open>hash.h\<close> are functions on contexts; \<open>buffering\<close> is an instance of the
  record that keeps what was written, for concrete inputs.
\<close>

record ('s, 'r) mbedtls =
  sha256_init :: 's
  sha256_starts :: "'s \<Rightarrow> 's"
  sha256_update :: "'s \<Rightarrow> byte list \<Rightarrow> 's"
  sha256_finish :: "'s \<Rightarrow> byte list \<times> 's"
  sha256_free :: "'s \<Rightarrow> 's"
  ripemd160_init :: 'r
  ripemd160_starts :: "'r \<Rightarrow> 'r"
  ripemd160_update :: "'r \<Rightarrow> byte list \<Rightarrow> 'r"
  ripemd160_finish :: "'r \<Rightarrow> byte list \<times> 'r"
  ripemd160_free :: "'r \<Rightarrow> 'r"

definition computes ::
  "('s, 'r) mbedtls \<Rightarrow> (byte list \<Rightarrow> byte list) \<Rightarrow> (byte list \<Rightarrow> byte list) \<Rightarrow> bool" where
  "computes m sha ripemd \<longleftrightarrow>
     (\<forall>c chunks. fst (sha256_finish m (foldl (sha256_update m) (sha256_starts m c) chunks))
        = sha (concat chunks)) \<and>
     (\<forall>c chunks. fst (ripemd160_finish m (foldl (ripemd160_update m) (ripemd160_starts m c) chunks))
        = ripemd (concat chunks)) \<and>
     (\<forall>bs. length (sha bs) = 32) \<and> (\<forall>bs. length (ripemd bs) = 20)"

definition buffering :: "(byte list, byte list) mbedtls" where
  "buffering =
     \<lparr>sha256_init = [], sha256_starts = (\<lambda>_. []), sha256_update = (@),
      sha256_finish = (\<lambda>c. (take 32 (c @ replicate 32 0), [])), sha256_free = (\<lambda>_. []),
      ripemd160_init = [], ripemd160_starts = (\<lambda>_. []), ripemd160_update = (@),
      ripemd160_finish = (\<lambda>c. (take 20 (c @ replicate 20 0), [])), ripemd160_free = (\<lambda>_. [])\<rparr>"

lemma foldl_append: "foldl (@) acc xss = acc @ concat xss"
  by (induction xss arbitrary: acc) auto

lemma computes_buffering:
  "computes buffering (\<lambda>bs. take 32 (bs @ replicate 32 0)) (\<lambda>bs. take 20 (bs @ replicate 20 0))"
  by (auto simp: computes_def buffering_def foldl_append)

subsection \<open>The hasher classes\<close>

definition CSHash256_new :: "('s, 'r) mbedtls \<Rightarrow> 's" where
  "CSHash256_new m = sha256_starts m (sha256_init m)"

definition CSHash256_Finalize :: "('s, 'r) mbedtls \<Rightarrow> 's \<Rightarrow> byte list \<times> 's" where
  "CSHash256_Finalize m sha = sha256_finish m sha"

definition CSHash256_Write :: "('s, 'r) mbedtls \<Rightarrow> 's \<Rightarrow> byte list \<Rightarrow> 's" where
  "CSHash256_Write m sha dat = sha256_update m sha dat"

definition CSHash256_Reset :: "('s, 'r) mbedtls \<Rightarrow> 's \<Rightarrow> 's" where
  "CSHash256_Reset m sha = sha256_free m sha"

definition CHash256_new :: "('s, 'r) mbedtls \<Rightarrow> 's" where
  "CHash256_new m = sha256_starts m (sha256_init m)"

definition CHash256_Finalize :: "('s, 'r) mbedtls \<Rightarrow> 's \<Rightarrow> byte list \<times> 's" where
  "CHash256_Finalize m sha =
     (let (buf, sha) = sha256_finish m sha;
          sha = sha256_free m sha;
          sha = sha256_starts m sha;
          sha = sha256_update m sha buf
      in sha256_finish m sha)"

definition CHash256_Write :: "('s, 'r) mbedtls \<Rightarrow> 's \<Rightarrow> byte list \<Rightarrow> 's" where
  "CHash256_Write m sha dat = sha256_update m sha dat"

definition CHash256_Reset :: "('s, 'r) mbedtls \<Rightarrow> 's \<Rightarrow> 's" where
  "CHash256_Reset m sha = sha256_free m sha"

definition CHash160_new :: "('s, 'r) mbedtls \<Rightarrow> 's \<times> 'r" where
  "CHash160_new m = (sha256_starts m (sha256_init m), ripemd160_starts m (ripemd160_init m))"

fun CHash160_Finalize :: "('s, 'r) mbedtls \<Rightarrow> 's \<times> 'r \<Rightarrow> byte list \<times> 's \<times> 'r" where
  "CHash160_Finalize m (sha_ctx, ctx) =
     (let (buf, sha_ctx) = sha256_finish m sha_ctx;
          ctx = ripemd160_update m ctx buf;
          (hash, ctx) = ripemd160_finish m ctx
      in (hash, sha_ctx, ctx))"

fun CHash160_Write :: "('s, 'r) mbedtls \<Rightarrow> 's \<times> 'r \<Rightarrow> byte list \<Rightarrow> 's \<times> 'r" where
  "CHash160_Write m (sha_ctx, ctx) dat = (sha256_update m sha_ctx dat, ctx)"

fun CHash160_Reset :: "('s, 'r) mbedtls \<Rightarrow> 's \<times> 'r \<Rightarrow> 's \<times> 'r" where
  "CHash160_Reset m (sha_ctx, ctx) = (sha256_free m sha_ctx, ripemd160_free m ctx)"

subsection \<open>Hashes of byte ranges\<close>

definition SHash :: "('s, 'r) mbedtls \<Rightarrow> byte list \<Rightarrow> uint256" where
  "SHash m bs =
     (let pblank = [0];
          p = (if bs = [] then pblank else bs)
      in Blob (fst (CSHash256_Finalize m (CSHash256_Write m (CSHash256_new m) (take (length bs) p)))))"

definition Hash_range :: "('s, 'r) mbedtls \<Rightarrow> byte list \<Rightarrow> uint256" where
  "Hash_range m bs =
     (let pblank = [0];
          p = (if bs = [] then pblank else bs)
      in Blob (fst (CHash256_Finalize m (CHash256_Write m (CHash256_new m) (take (length bs) p)))))"

definition Hash_ranges :: "('s, 'r) mbedtls \<Rightarrow> byte list \<Rightarrow> byte list \<Rightarrow> uint256" where
  "Hash_ranges m bs1 bs2 =
     (let pblank = [0];
          p1 = (if bs1 = [] then pblank else bs1);
          p2 = (if bs2 = [] then pblank else bs2)
      in Blob (fst (CHash256_Finalize m
           (CHash256_Write m (CHash256_Write m (CHash256_new m) (take (length bs1) p1))
              (take (length bs2) p2)))))"

definition Hash160 :: "('s, 'r) mbedtls \<Rightarrow> byte list \<Rightarrow> uint160" where
  "Hash160 m bs =
     (let pblank = [0];
          p = (if bs = [] then pblank else bs)
      in Blob (fst (CHash160_Finalize m (CHash160_Write m (CHash160_new m) (take (length bs) p)))))"

subsection \<open>Hashing a serialisation\<close>

record 's CHashWriter =
  hw_ctx :: 's
  hw_nType :: int
  hw_nVersion :: int

definition CHashWriter_new :: "('s, 'r) mbedtls \<Rightarrow> int \<Rightarrow> int \<Rightarrow> 's CHashWriter" where
  "CHashWriter_new m nTypeIn nVersionIn =
     \<lparr>hw_ctx = CHash256_new m, hw_nType = nTypeIn, hw_nVersion = nVersionIn\<rparr>"

definition CHashWriter_write :: "('s, 'r) mbedtls \<Rightarrow> 's CHashWriter \<Rightarrow> byte list \<Rightarrow> 's CHashWriter" where
  "CHashWriter_write m w pch = w\<lparr>hw_ctx := CHash256_Write m (hw_ctx w) pch\<rparr>"

definition CHashWriter_GetHash :: "('s, 'r) mbedtls \<Rightarrow> 's CHashWriter \<Rightarrow> uint256 \<times> 's CHashWriter" where
  "CHashWriter_GetHash m w =
     (let (result, ctx) = CHash256_Finalize m (hw_ctx w) in (Blob result, w\<lparr>hw_ctx := ctx\<rparr>))"

definition CHashWriter_GetCheapHash :: "('s, 'r) mbedtls \<Rightarrow> 's CHashWriter \<Rightarrow> u64 \<times> 's CHashWriter" where
  "CHashWriter_GetCheapHash m w =
     (let (result, ctx) = CHash256_Finalize m (hw_ctx w)
      in (ReadLE64 little_host result, w\<lparr>hw_ctx := ctx\<rparr>))"

text \<open>
  \<^verbatim>\<open>operator<<\<close> runs the serialiser's calls on the writer; the templates of \<^verbatim>\<open>serialize.h\<close> break each of them into
  \<^verbatim>\<open>write\<close>s.
\<close>

primrec wop_writes :: "wop \<Rightarrow> byte list list" where
  "wop_writes (Write bs) = [bs]"
| "wop_writes (CompactSize n) = WriteCompactSize n"
| "wop_writes (VarInt n) = WriteVarInt n"

definition CHashWriter_put :: "('s, 'r) mbedtls \<Rightarrow> 's CHashWriter \<Rightarrow> wop list \<Rightarrow> 's CHashWriter" where
  "CHashWriter_put m w obj = foldl (CHashWriter_write m) w (concat (map wop_writes obj))"

definition SerializeHash :: "('s, 'r) mbedtls \<Rightarrow> wop list \<Rightarrow> int \<Rightarrow> int \<Rightarrow> uint256" where
  "SerializeHash m obj nType nVersion =
     (let ss = CHashWriter_put m (CHashWriter_new m nType nVersion) obj
      in fst (CHashWriter_GetHash m ss))"

lemma concat_wop_writes: "concat (concat (map wop_writes ws)) = bytes_written ws"
proof (induction ws)
  case (Cons w ws)
  then show ?case by (cases w) auto
qed simp

subsection \<open>What the hashers compute\<close>

lemma sha256_update_one:
  "computes m sha ripemd \<Longrightarrow> fst (sha256_finish m (sha256_update m (sha256_starts m c) bs)) = sha bs"
  unfolding computes_def by (metis concat.simps append_Nil2 foldl.simps)

lemma CHash256_stream:
  assumes "computes m sha ripemd"
  shows "fst (CHash256_Finalize m (foldl (CHash256_Write m) (CHash256_new m) chunks)) = sha (sha (concat chunks))"
proof -
  have "fst (sha256_finish m (foldl (CHash256_Write m) (CHash256_new m) chunks)) = sha (concat chunks)"
    using assms by (simp add: computes_def CHash256_new_def CHash256_Write_def [abs_def])
  then show ?thesis
    by (simp add: CHash256_Finalize_def case_prod_beta sha256_update_one [OF assms])
qed

lemma CHash160_stream:
  assumes "computes m sha ripemd"
  shows "fst (CHash160_Finalize m (foldl (CHash160_Write m) (CHash160_new m) chunks)) = ripemd (sha (concat chunks))"
proof -
  have "foldl (CHash160_Write m) (c, r) chunks = (foldl (sha256_update m) c chunks, r)" for c r
    by (induction chunks arbitrary: c) auto
  moreover have "fst (ripemd160_finish m (ripemd160_update m (ripemd160_starts m r) bs)) = ripemd bs" for r bs
    using assms unfolding computes_def by (metis concat.simps append_Nil2 foldl.simps)
  ultimately show ?thesis using assms
    by (simp add: computes_def CHash160_new_def case_prod_beta)
qed

text \<open>
  The contract of a hasher class: writing in pieces and finalising gives one function of the bytes
  written. Each of the three classes meets it on mbed TLS contexts that keep their data; the lemmas
  of the locale are the range functions and the hashing stream.
\<close>

locale hasher =
  fixes start :: 'c and put :: "'c \<Rightarrow> byte list \<Rightarrow> 'c" and finalize :: "'c \<Rightarrow> byte list"
    and digest :: "byte list \<Rightarrow> byte list"
  assumes digest: "finalize (foldl put start chunks) = digest (concat chunks)"
begin

lemma one: "finalize (put start bs) = digest bs"
  using digest [of "[bs]"] by simp

lemma two: "finalize (put (put start as) bs) = digest (as @ bs)"
  using digest [of "[as, bs]"] by simp

lemma same_bytes:
  "concat chunks = concat chunks' \<Longrightarrow> finalize (foldl put start chunks) = finalize (foldl put start chunks')"
  by (simp add: digest)

end

lemma hasher_CHash256:
  "computes m sha ripemd \<Longrightarrow>
   hasher (CHash256_new m) (CHash256_Write m) (\<lambda>c. fst (CHash256_Finalize m c)) (\<lambda>bs. sha (sha bs))"
  by unfold_locales (rule CHash256_stream)

lemma hasher_CSHash256:
  "computes m sha ripemd \<Longrightarrow>
   hasher (CSHash256_new m) (CSHash256_Write m) (\<lambda>c. fst (CSHash256_Finalize m c)) sha"
  by unfold_locales
    (simp add: computes_def CSHash256_new_def CSHash256_Finalize_def CSHash256_Write_def [abs_def])

lemma hasher_CHash160:
  "computes m sha ripemd \<Longrightarrow>
   hasher (CHash160_new m) (CHash160_Write m) (\<lambda>c. fst (CHash160_Finalize m c)) (\<lambda>bs. ripemd (sha bs))"
  by unfold_locales (rule CHash160_stream)

interpretation buffering256: hasher "CHash256_new buffering" "CHash256_Write buffering"
  "\<lambda>c. fst (CHash256_Finalize buffering c)"
  "\<lambda>bs. take 32 (take 32 (bs @ replicate 32 0) @ replicate 32 0)"
  by (rule hasher_CHash256 [OF computes_buffering])

interpretation buffering_single: hasher "CSHash256_new buffering" "CSHash256_Write buffering"
  "\<lambda>c. fst (CSHash256_Finalize buffering c)" "\<lambda>bs. take 32 (bs @ replicate 32 0)"
  by (rule hasher_CSHash256 [OF computes_buffering])

interpretation buffering160: hasher "CHash160_new buffering" "CHash160_Write buffering"
  "\<lambda>c. fst (CHash160_Finalize buffering c)"
  "\<lambda>bs. take 20 (take 32 (bs @ replicate 32 0) @ replicate 20 0)"
  by (rule hasher_CHash160 [OF computes_buffering])

lemma Hash_range_eq: "computes m sha ripemd \<Longrightarrow> Hash_range m bs = Blob (sha (sha bs))"
  by (auto simp: Hash_range_def hasher.one [OF hasher_CHash256])

lemma SHash_eq: "computes m sha ripemd \<Longrightarrow> SHash m bs = Blob (sha bs)"
  by (auto simp: SHash_def hasher.one [OF hasher_CSHash256])

lemma Hash_ranges_eq: "computes m sha ripemd \<Longrightarrow> Hash_ranges m as bs = Hash_range m (as @ bs)"
  by (auto simp: Hash_ranges_def Let_def Hash_range_eq hasher.two [OF hasher_CHash256])

lemma Hash160_eq: "computes m sha ripemd \<Longrightarrow> Hash160 m bs = Blob (ripemd (sha bs))"
  by (auto simp: Hash160_def hasher.one [OF hasher_CHash160])

lemma blob_ok_hashes:
  assumes "computes m sha ripemd"
  shows "blob_ok 32 (Hash_range m bs)" "blob_ok 20 (Hash160 m bs)"
  using assms by (simp_all add: Hash_range_eq Hash160_eq blob_ok_def) (simp_all add: computes_def)

lemma SerializeHash_eq:
  assumes "computes m sha ripemd"
  shows "SerializeHash m obj nType nVersion = Hash_range m (bytes_written obj)"
proof -
  have "hw_ctx (foldl (CHashWriter_write m) w chunks) = foldl (CHash256_Write m) (hw_ctx w) chunks"
    for w chunks by (induction chunks arbitrary: w) (auto simp: CHashWriter_write_def)
  then show ?thesis
    by (simp add: SerializeHash_def CHashWriter_GetHash_def CHashWriter_put_def case_prod_beta
        CHashWriter_new_def hasher.digest [OF hasher_CHash256 [OF assms]] concat_wop_writes
        Hash_range_eq [OF assms])
qed

end
