(* ===== verification/Script.thy ===== *)
theory Script
  imports Hash
begin

section \<open>Scripts: script.h, script.cpp\<close>

text \<open>
  A \<^verbatim>\<open>CScript\<close> is its bytes, an iterator into it a position. The opcode parser, the tests for the
  standard output templates, \<^verbatim>\<open>Solver\<close> and the two functions that turn an output script into
  destinations. \<^verbatim>\<open>opcodetype\<close> is an unscoped enumeration into which any byte is cast, so it is the byte;
  \<open>opcodetype_enum\<close> is the whole enumeration, and the enumerators the code mentions are constants.

  What \<^verbatim>\<open>assert\<close> stops, and what would write or read outside an array, is the value \<open>None\<close> of an option;
  a \<^verbatim>\<open>bool\<close> result with output parameters that are read only when it is true is an option inside it.
\<close>

type_synonym opcodetype = byte
type_synonym 'a asserting = "'a option"

definition OP_0 :: opcodetype where "OP_0 = 0x00"
definition OP_PUSHDATA1 :: opcodetype where "OP_PUSHDATA1 = 0x4c"
definition OP_PUSHDATA2 :: opcodetype where "OP_PUSHDATA2 = 0x4d"
definition OP_PUSHDATA4 :: opcodetype where "OP_PUSHDATA4 = 0x4e"
definition OP_1 :: opcodetype where "OP_1 = 0x51"
definition OP_16 :: opcodetype where "OP_16 = 0x60"
definition OP_RETURN :: opcodetype where "OP_RETURN = 0x6a"
definition OP_DUP :: opcodetype where "OP_DUP = 0x76"
definition OP_EQUAL :: opcodetype where "OP_EQUAL = 0x87"
definition OP_EQUALVERIFY :: opcodetype where "OP_EQUALVERIFY = 0x88"
definition OP_HASH160 :: opcodetype where "OP_HASH160 = 0xa9"
definition OP_CHECKSIG :: opcodetype where "OP_CHECKSIG = 0xac"
definition OP_CHECKMULTISIG :: opcodetype where "OP_CHECKMULTISIG = 0xae"
definition OP_INVALIDOPCODE :: opcodetype where "OP_INVALIDOPCODE = 0xff"

definition opcodetype_enum :: "(string \<times> opcodetype) list" where
  "opcodetype_enum = [
    (''OP_0'', 0x00), (''OP_FALSE'', 0x00), (''OP_PUSHDATA1'', 0x4c), (''OP_PUSHDATA2'', 0x4d),
    (''OP_PUSHDATA4'', 0x4e), (''OP_1NEGATE'', 0x4f), (''OP_RESERVED'', 0x50), (''OP_1'', 0x51),
    (''OP_TRUE'', 0x51), (''OP_2'', 0x52), (''OP_3'', 0x53), (''OP_4'', 0x54), (''OP_5'', 0x55),
    (''OP_6'', 0x56), (''OP_7'', 0x57), (''OP_8'', 0x58), (''OP_9'', 0x59), (''OP_10'', 0x5a),
    (''OP_11'', 0x5b), (''OP_12'', 0x5c), (''OP_13'', 0x5d), (''OP_14'', 0x5e), (''OP_15'', 0x5f),
    (''OP_16'', 0x60), (''OP_NOP'', 0x61), (''OP_VER'', 0x62), (''OP_IF'', 0x63),
    (''OP_NOTIF'', 0x64), (''OP_VERIF'', 0x65), (''OP_VERNOTIF'', 0x66), (''OP_ELSE'', 0x67),
    (''OP_ENDIF'', 0x68), (''OP_VERIFY'', 0x69), (''OP_RETURN'', 0x6a), (''OP_TOALTSTACK'', 0x6b),
    (''OP_FROMALTSTACK'', 0x6c), (''OP_2DROP'', 0x6d), (''OP_2DUP'', 0x6e), (''OP_3DUP'', 0x6f),
    (''OP_2OVER'', 0x70), (''OP_2ROT'', 0x71), (''OP_2SWAP'', 0x72), (''OP_IFDUP'', 0x73),
    (''OP_DEPTH'', 0x74), (''OP_DROP'', 0x75), (''OP_DUP'', 0x76), (''OP_NIP'', 0x77),
    (''OP_OVER'', 0x78), (''OP_PICK'', 0x79), (''OP_ROLL'', 0x7a), (''OP_ROT'', 0x7b),
    (''OP_SWAP'', 0x7c), (''OP_TUCK'', 0x7d), (''OP_CAT'', 0x7e), (''OP_SUBSTR'', 0x7f),
    (''OP_LEFT'', 0x80), (''OP_RIGHT'', 0x81), (''OP_SIZE'', 0x82), (''OP_INVERT'', 0x83),
    (''OP_AND'', 0x84), (''OP_OR'', 0x85), (''OP_XOR'', 0x86), (''OP_EQUAL'', 0x87),
    (''OP_EQUALVERIFY'', 0x88), (''OP_RESERVED1'', 0x89), (''OP_RESERVED2'', 0x8a),
    (''OP_1ADD'', 0x8b), (''OP_1SUB'', 0x8c), (''OP_2MUL'', 0x8d), (''OP_2DIV'', 0x8e),
    (''OP_NEGATE'', 0x8f), (''OP_ABS'', 0x90), (''OP_NOT'', 0x91), (''OP_0NOTEQUAL'', 0x92),
    (''OP_ADD'', 0x93), (''OP_SUB'', 0x94), (''OP_MUL'', 0x95), (''OP_DIV'', 0x96),
    (''OP_MOD'', 0x97), (''OP_LSHIFT'', 0x98), (''OP_RSHIFT'', 0x99), (''OP_BOOLAND'', 0x9a),
    (''OP_BOOLOR'', 0x9b), (''OP_NUMEQUAL'', 0x9c), (''OP_NUMEQUALVERIFY'', 0x9d),
    (''OP_NUMNOTEQUAL'', 0x9e), (''OP_LESSTHAN'', 0x9f), (''OP_GREATERTHAN'', 0xa0),
    (''OP_LESSTHANOREQUAL'', 0xa1), (''OP_GREATERTHANOREQUAL'', 0xa2), (''OP_MIN'', 0xa3),
    (''OP_MAX'', 0xa4), (''OP_WITHIN'', 0xa5), (''OP_RIPEMD160'', 0xa6), (''OP_SHA1'', 0xa7),
    (''OP_SHA256'', 0xa8), (''OP_HASH160'', 0xa9), (''OP_HASH256'', 0xaa),
    (''OP_CODESEPARATOR'', 0xab), (''OP_CHECKSIG'', 0xac), (''OP_CHECKSIGVERIFY'', 0xad),
    (''OP_CHECKMULTISIG'', 0xae), (''OP_CHECKMULTISIGVERIFY'', 0xaf), (''OP_NOP1'', 0xb0),
    (''OP_CHECKLOCKTIMEVERIFY'', 0xb1), (''OP_NOP2'', 0xb1), (''OP_CHECKSEQUENCEVERIFY'', 0xb2),
    (''OP_NOP3'', 0xb2), (''OP_NOP4'', 0xb3), (''OP_NOP5'', 0xb4), (''OP_NOP6'', 0xb5),
    (''OP_NOP7'', 0xb6), (''OP_NOP8'', 0xb7), (''OP_NOP9'', 0xb8), (''OP_NOP10'', 0xb9),
    (''OP_INVALIDOPCODE'', 0xff)]"

named_theorems opcode_defs

declare OP_0_def [opcode_defs] OP_PUSHDATA1_def [opcode_defs] OP_PUSHDATA2_def [opcode_defs]
  OP_PUSHDATA4_def [opcode_defs] OP_1_def [opcode_defs] OP_16_def [opcode_defs]
  OP_RETURN_def [opcode_defs] OP_DUP_def [opcode_defs] OP_EQUAL_def [opcode_defs]
  OP_EQUALVERIFY_def [opcode_defs] OP_HASH160_def [opcode_defs] OP_CHECKSIG_def [opcode_defs]
  OP_CHECKMULTISIG_def [opcode_defs] OP_INVALIDOPCODE_def [opcode_defs]

definition MAX_SCRIPT_SIZE :: nat where "MAX_SCRIPT_SIZE = 10000"
definition WITNESS_V0_SCRIPTHASH_SIZE :: nat where "WITNESS_V0_SCRIPTHASH_SIZE = 32"
definition WITNESS_V0_KEYHASH_SIZE :: nat where "WITNESS_V0_KEYHASH_SIZE = 20"
definition PUBLIC_KEY_SIZE :: u32 where "PUBLIC_KEY_SIZE = 65"
definition COMPRESSED_PUBLIC_KEY_SIZE :: u32 where "COMPRESSED_PUBLIC_KEY_SIZE = 33"

datatype txnouttype = TX_NONSTANDARD | TX_PUBKEY | TX_PUBKEYHASH | TX_SCRIPTHASH | TX_MULTISIG
  | TX_NULL_DATA | TX_WITNESS_V0_SCRIPTHASH | TX_WITNESS_V0_KEYHASH | TX_WITNESS_UNKNOWN

datatype CTxDestination = CNoDestination | CKeyID uint160 | CScriptID uint160
  | WitnessV0ScriptHash uint256 | WitnessV0KeyHash uint160
  | WitnessUnknown (wu_version: u32) (wu_length: u32) (wu_program: "byte list")

fun lexicographical_compare :: "byte list \<Rightarrow> byte list \<Rightarrow> bool" where
  "lexicographical_compare xs [] = False"
| "lexicographical_compare [] (y # ys) = True"
| "lexicographical_compare (x # xs) (y # ys) =
     (if x < y then True else if y < x then False else lexicographical_compare xs ys)"

fun WitnessUnknown_eq :: "CTxDestination \<Rightarrow> CTxDestination \<Rightarrow> bool" where
  "WitnessUnknown_eq (WitnessUnknown v1 l1 p1) (WitnessUnknown v2 l2 p2) =
     (if v1 \<noteq> v2 then False else if l1 \<noteq> l2 then False
      else take (unat l1) p1 = take (unat l1) p2)"
| "WitnessUnknown_eq a b = (a = b)"

fun WitnessUnknown_less :: "CTxDestination \<Rightarrow> CTxDestination \<Rightarrow> bool" where
  "WitnessUnknown_less (WitnessUnknown v1 l1 p1) (WitnessUnknown v2 l2 p2) =
     (if v1 < v2 then True else if v1 > v2 then False
      else if l1 < l2 then True else if l1 > l2 then False
      else lexicographical_compare (take (unat l1) p1) (take (unat l2) p2))"
| "WitnessUnknown_less a b = False"

subsection \<open>Opcodes and pushed data\<close>

text \<open>The size of the immediate operand and where its bytes start; \<open>None\<close> where the size itself is cut off.\<close>

definition GetScriptOp_size :: "byte list \<Rightarrow> nat \<Rightarrow> opcodetype \<Rightarrow> (u32 \<times> nat) option" where
  "GetScriptOp_size s pc opcode =
     (if opcode < OP_PUSHDATA1 then Some (ucast opcode, pc)
      else if opcode = OP_PUSHDATA1 then
        if length s - pc < 1 then None else Some (ucast (s ! pc), pc + 1)
      else if opcode = OP_PUSHDATA2 then
        if length s - pc < 2 then None
        else Some (ucast (ReadLE16 target (drop pc s)), pc + 2)
      else if opcode = OP_PUSHDATA4 then
        if length s - pc < 4 then None else Some (ReadLE32 target (drop pc s), pc + 4)
      else Some (0, pc))"

text \<open>The result is the returned \<^verbatim>\<open>bool\<close>, then \<^verbatim>\<open>pc\<close>, \<^verbatim>\<open>opcodeRet\<close> and \<^verbatim>\<open>*pvchRet\<close> as they are left.\<close>

definition GetScriptOp :: "byte list \<Rightarrow> nat \<Rightarrow> bool \<times> nat \<times> opcodetype \<times> byte list" where
  "GetScriptOp s pc =
     (if pc \<ge> length s then (False, pc, OP_INVALIDOPCODE, [])
      else
        let opcode = s ! pc; pc = pc + 1 in
        if opcode \<le> OP_PUSHDATA4 then
          (case GetScriptOp_size s pc opcode of
             None \<Rightarrow> (False, pc, OP_INVALIDOPCODE, [])
           | Some (nSize, pc) \<Rightarrow>
               if of_nat (length s - pc) < nSize then (False, pc, OP_INVALIDOPCODE, [])
               else (True, pc + unat nSize, opcode, take (unat nSize) (drop pc s)))
        else (True, pc, opcode, []))"

lemma of_nat_ge_word:
  fixes n :: "'a::len word"
  assumes "\<not> of_nat l < n"
  shows "unat n \<le> l"
proof -
  have "unat n \<le> unat (of_nat l :: 'a word)" using assms by (simp add: not_less word_le_nat_alt)
  also have "\<dots> \<le> l" by (simp add: unsigned_of_nat take_bit_eq_mod)
  finally show ?thesis .
qed

lemma GetScriptOp_size_bounds:
  "GetScriptOp_size s pc op = Some (n, pc') \<Longrightarrow> pc \<le> length s \<Longrightarrow> pc \<le> pc' \<and> pc' \<le> length s"
  by (auto simp: GetScriptOp_size_def split: if_splits)

lemma GetScriptOp_cases:
  assumes "GetScriptOp s pc = (True, pc', op, dat)"
  obtains "pc < length s" "op = s ! pc" "op > OP_PUSHDATA4" "dat = []" "pc' = pc + 1"
  | n k where "pc < length s" "op = s ! pc" "op \<le> OP_PUSHDATA4" "GetScriptOp_size s (pc + 1) op = Some (n, k)"
      "pc + 1 \<le> k" "k + unat n \<le> length s" "dat = take (unat n) (drop k s)" "pc' = k + unat n"
proof (cases "pc < length s \<and> s ! pc \<le> OP_PUSHDATA4")
  case True
  with assms obtain n k where size: "GetScriptOp_size s (pc + 1) (s ! pc) = Some (n, k)"
    and fits: "\<not> of_nat (length s - k) < n"
    and res: "op = s ! pc" "dat = take (unat n) (drop k s)" "pc' = k + unat n"
    unfolding GetScriptOp_def Let_def
    by (auto simp del: of_nat_diff split: if_splits option.splits prod.splits)
  have "pc + 1 \<le> k" "k \<le> length s" using GetScriptOp_size_bounds [OF size] True by auto
  with of_nat_ge_word [OF fits] res True size show ?thesis by (intro that(2)) auto
next
  case False
  then show ?thesis using assms that(1) by (auto simp: GetScriptOp_def Let_def split: if_splits)
qed

lemma GetScriptOp_progress:
  assumes "GetScriptOp s pc = (True, pc', op, dat)"
  shows "pc < pc' \<and> pc' \<le> length s"
  using assms by (elim GetScriptOp_cases) auto

definition DecodeOP_N :: "opcodetype \<Rightarrow> int asserting" where
  "DecodeOP_N opcode =
     (if opcode = OP_0 then Some 0
      else if opcode \<ge> OP_1 \<and> opcode \<le> OP_16 then Some (uint opcode - (uint OP_1 - 1))
      else None)"

definition EncodeOP_N :: "int \<Rightarrow> opcodetype asserting" where
  "EncodeOP_N n =
     (if n \<ge> 0 \<and> n \<le> 16 then
        if n = 0 then Some OP_0 else Some (word_of_int (uint OP_1 + n - 1))
      else None)"

definition IsPayToScriptHash :: "byte list \<Rightarrow> bool" where
  "IsPayToScriptHash s \<longleftrightarrow>
     length s = 23 \<and> s ! 0 = OP_HASH160 \<and> s ! 1 = 0x14 \<and> s ! 22 = OP_EQUAL"

definition IsPayToWitnessScriptHash :: "byte list \<Rightarrow> bool" where
  "IsPayToWitnessScriptHash s \<longleftrightarrow> length s = 34 \<and> s ! 0 = OP_0 \<and> s ! 1 = 0x20"

definition IsWitnessProgram :: "byte list \<Rightarrow> (int \<times> byte list) option asserting" where
  "IsWitnessProgram s =
     (if length s < 4 \<or> length s > 42 then Some None
      else if s ! 0 \<noteq> OP_0 \<and> (s ! 0 < OP_1 \<or> s ! 0 > OP_16) then Some None
      else if unat (s ! 1) + 2 = length s then
        Option.bind (DecodeOP_N (s ! 0)) (\<lambda>version. Some (Some (version, drop 2 s)))
      else Some None)"

function IsPushOnly_from :: "byte list \<Rightarrow> nat \<Rightarrow> bool" where
  "IsPushOnly_from s pc =
     (if pc < length s then
        case GetScriptOp s pc of (ok, pc', opcode, _) \<Rightarrow>
          if \<not> ok then False
          else if opcode > OP_16 then False
          else IsPushOnly_from s pc'
      else True)"
  by pat_completeness auto
termination
  by (relation "measure (\<lambda>(s, pc). length s - pc)") (auto dest!: GetScriptOp_progress [OF sym])

declare IsPushOnly_from.simps [simp del]

definition IsPushOnly :: "byte list \<Rightarrow> bool" where
  "IsPushOnly s = IsPushOnly_from s 0"

definition IsUnspendable :: "byte list \<Rightarrow> bool" where
  "IsUnspendable s \<longleftrightarrow> (length s > 0 \<and> s ! 0 = OP_RETURN) \<or> length s > MAX_SCRIPT_SIZE"

subsection \<open>Witness stacks\<close>

record CScriptWitness =
  stack :: "byte list list"

definition CScriptWitness_IsNull :: "CScriptWitness \<Rightarrow> bool" where
  "CScriptWitness_IsNull w \<longleftrightarrow> stack w = []"

definition CScriptWitness_SetNull :: "CScriptWitness \<Rightarrow> CScriptWitness" where
  "CScriptWitness_SetNull w = w\<lparr>stack := []\<rparr>"

primrec CScriptWitness_ToString_loop :: "byte list list \<Rightarrow> nat \<Rightarrow> string \<Rightarrow> string" where
  "CScriptWitness_ToString_loop [] i ret = ret"
| "CScriptWitness_ToString_loop (item # items) i ret =
     CScriptWitness_ToString_loop items (i + 1)
       ((if i \<noteq> 0 then ret @ '', '' else ret) @ HexStr item)"

definition CScriptWitness_ToString :: "CScriptWitness \<Rightarrow> string" where
  "CScriptWitness_ToString w =
     CScriptWitness_ToString_loop (stack w) 0 ''CScriptWitness('' @ '')''"

subsection \<open>Output templates\<close>

definition GetLen :: "byte \<Rightarrow> u32" where
  "GetLen chHeader =
     (if chHeader = 2 \<or> chHeader = 3 then COMPRESSED_PUBLIC_KEY_SIZE
      else if chHeader = 4 \<or> chHeader = 6 \<or> chHeader = 7 then PUBLIC_KEY_SIZE
      else 0)"

definition ValidSize :: "byte list \<Rightarrow> bool" where
  "ValidSize vch \<longleftrightarrow> length vch > 0 \<and> unat (GetLen (vch ! 0)) = length vch"

definition MatchPayToPubkey :: "byte list \<Rightarrow> bool \<times> byte list" where
  "MatchPayToPubkey s =
     (if length s = unat (PUBLIC_KEY_SIZE + 2) \<and> ucast (s ! 0) = PUBLIC_KEY_SIZE \<and> last s = OP_CHECKSIG
      then let pubkey = take (unat PUBLIC_KEY_SIZE) (drop 1 s) in (ValidSize pubkey, pubkey)
      else if length s = unat (COMPRESSED_PUBLIC_KEY_SIZE + 2) \<and> ucast (s ! 0) = COMPRESSED_PUBLIC_KEY_SIZE
        \<and> last s = OP_CHECKSIG
      then let pubkey = take (unat COMPRESSED_PUBLIC_KEY_SIZE) (drop 1 s) in (ValidSize pubkey, pubkey)
      else (False, []))"

definition MatchPayToPubkeyHash :: "byte list \<Rightarrow> byte list option" where
  "MatchPayToPubkeyHash s =
     (if length s = 25 \<and> s ! 0 = OP_DUP \<and> s ! 1 = OP_HASH160 \<and> s ! 2 = 20 \<and> s ! 23 = OP_EQUALVERIFY
         \<and> s ! 24 = OP_CHECKSIG
      then Some (take 20 (drop 3 s)) else None)"

definition IsSmallInteger :: "opcodetype \<Rightarrow> bool" where
  "IsSmallInteger opcode \<longleftrightarrow> opcode \<ge> 0x51 \<and> opcode \<le> 0x60"

function MatchMultisig_loop ::
  "byte list \<Rightarrow> nat \<Rightarrow> byte list list \<Rightarrow> nat \<times> opcodetype \<times> byte list list" where
  "MatchMultisig_loop s it pubkeys =
     (case GetScriptOp s it of (ok, it', opcode, dat) \<Rightarrow>
        if ok \<and> ValidSize dat then MatchMultisig_loop s it' (pubkeys @ [dat])
        else (it', opcode, pubkeys))"
  by pat_completeness auto
termination
  by (relation "measure (\<lambda>(s, it, _). length s - it)") (auto dest!: GetScriptOp_progress [OF sym])

declare MatchMultisig_loop.simps [simp del]

definition MatchMultisig :: "byte list \<Rightarrow> (int \<times> byte list list) option asserting" where
  "MatchMultisig s =
     (if length s < 1 \<or> last s \<noteq> OP_CHECKMULTISIG then Some None
      else case GetScriptOp s 0 of (ok, it, opcode, dat) \<Rightarrow>
        if \<not> ok \<or> \<not> IsSmallInteger opcode then Some None
        else Option.bind (DecodeOP_N opcode) (\<lambda>required.
          case MatchMultisig_loop s it [] of (it, opcode, pubkeys) \<Rightarrow>
            if \<not> IsSmallInteger opcode then Some None
            else Option.bind (DecodeOP_N opcode) (\<lambda>keys.
              if int (length pubkeys) \<noteq> keys \<or> keys < required then Some None
              else if it + 1 = length s then Some (Some (required, pubkeys)) else Some None)))"

definition Solver :: "byte list \<Rightarrow> (txnouttype \<times> byte list list) asserting" where
  "Solver s =
     (if IsPayToScriptHash s then
        let hashBytes = take 20 (drop 2 s) in Some (TX_SCRIPTHASH, [hashBytes])
      else Option.bind (IsWitnessProgram s) (\<lambda>wit.
        case wit of
          Some (witnessversion, witnessprogram) \<Rightarrow>
            if witnessversion = 0 \<and> length witnessprogram = WITNESS_V0_KEYHASH_SIZE
            then Some (TX_WITNESS_V0_KEYHASH, [witnessprogram])
            else if witnessversion = 0 \<and> length witnessprogram = WITNESS_V0_SCRIPTHASH_SIZE
            then Some (TX_WITNESS_V0_SCRIPTHASH, [witnessprogram])
            else if witnessversion \<noteq> 0
            then Some (TX_WITNESS_UNKNOWN, [[word_of_int witnessversion], witnessprogram])
            else Some (TX_NONSTANDARD, [])
        | None \<Rightarrow>
            if length s \<ge> 1 \<and> s ! 0 = OP_RETURN \<and> IsPushOnly_from s 1 then Some (TX_NULL_DATA, [])
            else
              let (ok, dat) = MatchPayToPubkey s in
              if ok then Some (TX_PUBKEY, [dat])
              else case MatchPayToPubkeyHash s of
                Some dat \<Rightarrow> Some (TX_PUBKEYHASH, [dat])
              | None \<Rightarrow>
                  Option.bind (MatchMultisig s) (\<lambda>multi.
                    case multi of
                      Some (required, keys) \<Rightarrow>
                        Some (TX_MULTISIG, [[word_of_int required]] @ keys @ [[of_nat (length keys)]])
                    | None \<Rightarrow> Some (TX_NONSTANDARD, []))))"

subsection \<open>Destinations\<close>

definition copy_into :: "byte list \<Rightarrow> byte list \<Rightarrow> byte list asserting" where
  "copy_into src dest =
     (if length src \<le> length dest then Some (src @ drop (length src) dest) else None)"

definition nth_checked :: "'a list \<Rightarrow> nat \<Rightarrow> 'a asserting" where
  "nth_checked xs i = (if i < length xs then Some (xs ! i) else None)"

text \<open>\<open>program\<close> is the uninitialised array of the local \<^verbatim>\<open>WitnessUnknown unk\<close>.\<close>

definition ExtractDestination ::
  "('s, 'r) mbedtls \<Rightarrow> byte list \<Rightarrow> byte list \<Rightarrow> CTxDestination option asserting" where
  "ExtractDestination m program scriptPubKey =
     Option.bind (Solver scriptPubKey) (\<lambda>(whichType, vSolutions).
       if whichType = TX_PUBKEY then
         Option.bind (nth_checked vSolutions 0) (\<lambda>vch.
           if length vch \<le> 0 then Some None else Some (Some (CKeyID (Hash160 m vch))))
       else if whichType = TX_PUBKEYHASH then
         Option.bind (nth_checked vSolutions 0) (\<lambda>vch.
         Option.bind (base_blob_of_vec 20 vch) (\<lambda>h. Some (Some (CKeyID h))))
       else if whichType = TX_SCRIPTHASH then
         Option.bind (nth_checked vSolutions 0) (\<lambda>vch.
         Option.bind (base_blob_of_vec 20 vch) (\<lambda>h. Some (Some (CScriptID h))))
       else if whichType = TX_WITNESS_V0_KEYHASH then
         Option.bind (nth_checked vSolutions 0) (\<lambda>vch.
         Option.bind (copy_into vch (blob_data (base_blob_new 20))) (\<lambda>hash.
           Some (Some (WitnessV0KeyHash (Blob hash)))))
       else if whichType = TX_WITNESS_V0_SCRIPTHASH then
         Option.bind (nth_checked vSolutions 0) (\<lambda>vch.
         Option.bind (copy_into vch (blob_data (base_blob_new 32))) (\<lambda>hash.
           Some (Some (WitnessV0ScriptHash (Blob hash)))))
       else if whichType = TX_WITNESS_UNKNOWN then
         Option.bind (nth_checked vSolutions 0) (\<lambda>vch.
         Option.bind (nth_checked vch 0) (\<lambda>version.
         Option.bind (nth_checked vSolutions 1) (\<lambda>prog.
         Option.bind (copy_into prog program) (\<lambda>program.
           Some (Some (WitnessUnknown (ucast version) (of_nat (length prog)) program))))))
       else Some None)"

fun ExtractDestinations_loop ::
  "('s, 'r) mbedtls \<Rightarrow> byte list list \<Rightarrow> CTxDestination list \<Rightarrow> bool \<times> CTxDestination list" where
  "ExtractDestinations_loop m [] addressRet = (True, addressRet)"
| "ExtractDestinations_loop m (vch # vs) addressRet =
     (if length vch \<le> 0 then (False, addressRet)
      else ExtractDestinations_loop m vs (addressRet @ [CKeyID (Hash160 m vch)]))"

text \<open>The result is the returned \<^verbatim>\<open>bool\<close>, then \<^verbatim>\<open>typeRet\<close>, \<^verbatim>\<open>addressRet\<close> and \<^verbatim>\<open>nRequiredRet\<close> as they are left.\<close>

definition ExtractDestinations ::
  "('s, 'r) mbedtls \<Rightarrow> byte list \<Rightarrow> byte list \<Rightarrow> int
    \<Rightarrow> (bool \<times> txnouttype \<times> CTxDestination list \<times> int) asserting" where
  "ExtractDestinations m program scriptPubKey nRequiredRet =
     Option.bind (Solver scriptPubKey) (\<lambda>(typeRet, vSolutions).
       if typeRet = TX_NONSTANDARD then Some (False, typeRet, [], nRequiredRet)
       else if typeRet = TX_NULL_DATA then Some (False, typeRet, [], nRequiredRet)
       else if typeRet = TX_MULTISIG then
         Option.bind (nth_checked vSolutions 0) (\<lambda>front.
         Option.bind (nth_checked front 0) (\<lambda>n.
           let nRequiredRet = uint n;
               (ok, addressRet) = ExtractDestinations_loop m (butlast (drop 1 vSolutions)) []
           in if \<not> ok then Some (False, typeRet, addressRet, nRequiredRet)
              else if addressRet = [] then Some (False, typeRet, addressRet, nRequiredRet)
              else Some (True, typeRet, addressRet, nRequiredRet)))
       else
         Option.bind (ExtractDestination m program scriptPubKey) (\<lambda>r.
           case r of None \<Rightarrow> Some (False, typeRet, [], 1)
           | Some address \<Rightarrow> Some (True, typeRet, [address], 1)))"

subsection \<open>The encodings of an instruction\<close>

text \<open>
  \<open>encodes op dat enc\<close>: the bytes \<open>enc\<close> are opcode \<open>op\<close> with pushed data \<open>dat\<close>. The four push forms
  overlap: the same data has an encoding under every push opcode wide enough for its length.
\<close>

definition size_bytes :: "opcodetype \<Rightarrow> nat \<Rightarrow> byte list" where
  "size_bytes op n =
     (if op = OP_PUSHDATA1 then [of_nat n]
      else if op = OP_PUSHDATA2 then le_bytes 2 (of_nat n :: u16)
      else if op = OP_PUSHDATA4 then le_bytes 4 (of_nat n :: u32)
      else [])"

definition size_fits :: "opcodetype \<Rightarrow> nat \<Rightarrow> bool" where
  "size_fits op n \<longleftrightarrow>
     (if op < OP_PUSHDATA1 then n = unat op
      else if op = OP_PUSHDATA1 then n < 2 ^ 8
      else if op = OP_PUSHDATA2 then n < 2 ^ 16
      else if op = OP_PUSHDATA4 then n < 2 ^ 32
      else n = 0)"

definition encodes :: "opcodetype \<Rightarrow> byte list \<Rightarrow> byte list \<Rightarrow> bool" where
  "encodes op dat enc \<longleftrightarrow>
     size_fits op (length dat) \<and> enc = op # size_bytes op (length dat) @ dat"

lemma opcode_order:
  "op < OP_PUSHDATA1 \<longleftrightarrow> unat op < 76" "op \<le> OP_PUSHDATA4 \<longleftrightarrow> unat op \<le> 78"
  "op = OP_PUSHDATA1 \<longleftrightarrow> unat op = 76" "op = OP_PUSHDATA2 \<longleftrightarrow> unat op = 77"
  "op = OP_PUSHDATA4 \<longleftrightarrow> unat op = 78" "op > OP_16 \<longleftrightarrow> 96 < unat op"
  "op > OP_PUSHDATA4 \<longleftrightarrow> 78 < unat op"
  by (simp_all add: opcode_defs word_less_nat_alt word_le_nat_alt word_unat_eq_iff)

lemma unat_of_nat_id: "n < 2 ^ LENGTH('a) \<Longrightarrow> unat (of_nat n :: 'a::len word) = n"
  by (simp add: unsigned_of_nat take_bit_nat_eq_self_iff)

lemma length_size_bytes_unat: "size_fits op (unat n) \<Longrightarrow> length (size_bytes op (unat (n :: u32))) =
    (if op = OP_PUSHDATA1 then 1 else if op = OP_PUSHDATA2 then 2 else if op = OP_PUSHDATA4 then 4 else 0)"
  by (simp add: size_bytes_def)

lemma ReadLE_prefix:
  "ReadLE16 target (le_bytes 2 x @ rest) = x" "ReadLE32 target (le_bytes 4 y @ rest) = y"
  by (simp_all add: ReadLE16_def ReadLE32_def little.le16_in little.le32_in le_word_le_bytes_id)

lemma ReadLE_inverse:
  "2 \<le> length bs \<Longrightarrow> bs = le_bytes 2 (ReadLE16 target bs) @ drop 2 bs"
  "4 \<le> length bs \<Longrightarrow> bs = le_bytes 4 (ReadLE32 target bs) @ drop 4 bs"
  by (simp_all add: ReadLE16_def ReadLE32_def little.le16_in little.le32_in le_bytes_le_word)

lemma GetScriptOp_size_encoded:
  assumes "drop pc s = size_bytes op n @ rest" "size_fits op n" "unat op \<le> 78"
  shows "GetScriptOp_size s pc op = Some (of_nat n, pc + length (size_bytes op n))"
proof -
  have len: "length s - pc = length (size_bytes op n) + length rest"
    using arg_cong [OF assms(1), of length] by simp
  have hd: "s ! pc = hd (drop pc s)" if "size_bytes op n \<noteq> []"
    using that assms(1) len by (intro hd_drop_conv_nth [symmetric]) (cases "pc < length s"; auto)
  show ?thesis
  proof (cases "unat op < 76")
    case True
    then show ?thesis using assms(2)
      by (simp add: GetScriptOp_size_def size_bytes_def size_fits_def opcode_order)
  next
    case False
    then consider "op = OP_PUSHDATA1" | "op = OP_PUSHDATA2" | "op = OP_PUSHDATA4"
      using assms(3) unfolding opcode_order by linarith
    then show ?thesis
    proof cases
      case 1
      have "s ! pc = of_nat n" using hd assms(1) 1 by (simp add: size_bytes_def)
      moreover have "unat (ucast (of_nat n :: byte) :: u32) = n"
        using assms(2) 1 by (simp add: size_fits_def opcode_defs unat_ucast_up unat_of_nat_id)
      then have "ucast (of_nat n :: byte) = (of_nat n :: u32)" using assms(2) 1
        by (simp add: word_unat_eq_iff unat_of_nat_id size_fits_def opcode_defs)
      ultimately show ?thesis using 1 len
        by (simp add: GetScriptOp_size_def size_bytes_def opcode_defs)
    next
      case 2
      have "unat (ucast (of_nat n :: u16) :: u32) = n"
        using assms(2) 2 by (simp add: size_fits_def opcode_defs unat_ucast_up unat_of_nat_id)
      then have "ucast (of_nat n :: u16) = (of_nat n :: u32)" using assms(2) 2
        by (simp add: word_unat_eq_iff unat_of_nat_id size_fits_def opcode_defs)
      then show ?thesis using 2 len assms(1)
        by (simp add: GetScriptOp_size_def size_bytes_def opcode_defs ReadLE_prefix)
    next
      case 3
      then show ?thesis using len assms(1)
        by (simp add: GetScriptOp_size_def size_bytes_def opcode_defs ReadLE_prefix)
    qed
  qed
qed

lemma GetScriptOp_size_decoded:
  assumes "GetScriptOp_size s pc op = Some (n, k)" "pc \<le> length s" "unat op \<le> 78"
  shows "size_fits op (unat n) \<and> drop pc s = size_bytes op (unat n) @ drop k s
    \<and> k = pc + length (size_bytes op (unat n))"
proof -
  have split: "drop pc s = le_bytes 2 (ReadLE16 target (drop pc s)) @ drop (pc + 2) s"
    if "2 \<le> length s - pc"
    using ReadLE_inverse(1) [of "drop pc s"] that by (simp add: add.commute)
  have split4: "drop pc s = le_bytes 4 (ReadLE32 target (drop pc s)) @ drop (pc + 4) s"
    if "4 \<le> length s - pc"
    using ReadLE_inverse(2) [of "drop pc s"] that by (simp add: add.commute)
  consider "unat op < 76" | "op = OP_PUSHDATA1" | "op = OP_PUSHDATA2" | "op = OP_PUSHDATA4"
    using assms(3) unfolding opcode_order by linarith
  then show ?thesis
  proof cases
    case 1
    then show ?thesis using assms(1)
      by (auto simp: GetScriptOp_size_def size_bytes_def size_fits_def opcode_order unat_ucast_up)
  next
    case 2
    then show ?thesis using assms(1) unat_bounds(1) [of "s ! pc"]
      by (auto simp: GetScriptOp_size_def size_bytes_def size_fits_def opcode_defs unat_ucast_up
          Cons_nth_drop_Suc ucast_ucast_up split: if_splits)
  next
    case 3
    then show ?thesis using assms(1) split unat_bounds(2) [of "ReadLE16 target (drop pc s)"]
      by (auto simp: GetScriptOp_size_def size_bytes_def size_fits_def opcode_defs unat_ucast_up
          ucast_ucast_up not_less split: if_splits)
  next
    case 4
    then show ?thesis using assms(1) split4 unat_bounds(3) [of "ReadLE32 target (drop pc s)"]
      by (auto simp: GetScriptOp_size_def size_bytes_def size_fits_def opcode_defs
          not_less split: if_splits)
  qed
qed

lemma GetScriptOp_encoded:
  assumes "drop pc s = enc @ rest" "encodes op dat enc" "length s < 2 ^ 32"
  shows "GetScriptOp s pc = (True, pc + length enc, op, dat)"
proof -
  have enc: "drop pc s = op # size_bytes op (length dat) @ dat @ rest" and fits: "size_fits op (length dat)"
    using assms(1,2) by (auto simp: encodes_def)
  have pc: "pc < length s" using enc by (cases "pc < length s") auto
  then have op: "s ! pc = op" and tail: "drop (Suc pc) s = size_bytes op (length dat) @ dat @ rest"
    using enc by (metis Cons_nth_drop_Suc list.inject)+
  show ?thesis
  proof (cases "op \<le> OP_PUSHDATA4")
    case True
    let ?k = "Suc pc + length (size_bytes op (length dat))"
    have size: "GetScriptOp_size s (Suc pc) op = Some (of_nat (length dat), ?k)"
      using True by (intro GetScriptOp_size_encoded [OF tail fits]) (simp add: opcode_order)
    have rest: "drop ?k s = dat @ rest"
      using arg_cong [OF tail, of "drop (length (size_bytes op (length dat)))"] by (simp add: add.commute)
    then have len: "length s - ?k = length dat + length rest" by (metis length_append length_drop)
    then have "length dat < 2 ^ 32" using assms(3) by linarith
    then have u: "unat (of_nat (length dat) :: u32) = length dat" by (simp add: unat_of_nat_id)
    have "unat (of_nat (length s - ?k) :: u32) = length s - ?k"
      using assms(3) by (intro unat_of_nat_id) simp
    then have "\<not> (of_nat (length s - ?k) :: u32) < of_nat (length dat)"
      using len u by (simp add: word_less_nat_alt del: of_nat_diff of_nat_add)
    then show ?thesis using pc op True size rest u assms(2)
      by (simp add: GetScriptOp_def encodes_def del: of_nat_diff of_nat_add)
  next
    case False
    then have "dat = [] \<and> enc = [op]" using assms(2)
      by (auto simp: encodes_def size_fits_def size_bytes_def opcode_order split: if_splits)
    then show ?thesis using pc op False by (simp add: GetScriptOp_def)
  qed
qed

lemma GetScriptOp_decoded:
  assumes "GetScriptOp s pc = (True, pc', op, dat)"
  obtains enc where "encodes op dat enc" "drop pc s = enc @ drop pc' s" "pc' = pc + length enc"
proof (rule GetScriptOp_cases [OF assms])
  assume *: "pc < length s" "op = s ! pc" "op > OP_PUSHDATA4" "dat = []" "pc' = pc + 1"
  then have "encodes op dat [op]"
    by (auto simp: encodes_def size_fits_def size_bytes_def opcode_order)
  with * that [of "[op]"] show thesis by (simp add: Cons_nth_drop_Suc)
next
  fix n k
  assume *: "pc < length s" "op = s ! pc" "op \<le> OP_PUSHDATA4" "GetScriptOp_size s (pc + 1) op = Some (n, k)"
    "pc + 1 \<le> k" "k + unat n \<le> length s" "dat = take (unat n) (drop k s)" "pc' = k + unat n"
  have dec: "size_fits op (unat n)" "drop (pc + 1) s = size_bytes op (unat n) @ drop k s"
    "k = pc + 1 + length (size_bytes op (unat n))"
    using GetScriptOp_size_decoded [OF *(4)] * by (simp_all add: opcode_order)
  have len: "length dat = unat n" using * by simp
  have "drop k s = dat @ drop pc' s" using * by (metis append_take_drop_id drop_drop add.commute)
  moreover have "drop pc s = op # drop (pc + 1) s" using * by (simp add: Cons_nth_drop_Suc)
  ultimately have "drop pc s = (op # size_bytes op (length dat) @ dat) @ drop pc' s"
    using dec len by simp
  moreover have "pc' = pc + length (op # size_bytes op (length dat) @ dat)"
    using * dec len by simp
  ultimately show thesis using that dec len by (auto simp: encodes_def)
qed

lemma encodes_small:
  "encodes op dat enc \<Longrightarrow> op > OP_PUSHDATA4 \<Longrightarrow> dat = [] \<and> enc = [op]"
  by (auto simp: encodes_def size_fits_def size_bytes_def opcode_order split: if_splits)

lemma encodes_op: "op > OP_PUSHDATA4 \<Longrightarrow> encodes op [] [op]"
  by (auto simp: encodes_def size_fits_def size_bytes_def opcode_order)

lemma drop_appendD:
  "drop pc s = as @ bs \<Longrightarrow> drop (pc + length as) s = bs"
  by (metis add.commute append_eq_conv_conj drop_drop)

subsection \<open>Push-only scripts\<close>

inductive push_only :: "byte list \<Rightarrow> bool" where
  Nil: "push_only []"
| Cons: "encodes op dat enc \<Longrightarrow> op \<le> OP_16 \<Longrightarrow> push_only rest \<Longrightarrow> push_only (enc @ rest)"

lemma IsPushOnly_from_sound: "IsPushOnly_from s pc \<Longrightarrow> push_only (drop pc s)"
proof (induction s pc rule: IsPushOnly_from.induct)
  case (1 s pc)
  show ?case
  proof (cases "pc < length s")
    case True
    with "1.prems" obtain pc' op dat where op: "GetScriptOp s pc = (True, pc', op, dat)"
      "\<not> op > OP_16" "IsPushOnly_from s pc'"
      by (subst (asm) IsPushOnly_from.simps) (auto split: prod.splits if_splits)
    then have "push_only (drop pc' s)"
      using "1.IH" [of True "(pc', op, dat)" pc' "(op, dat)" op dat] True by simp
    moreover obtain enc where "encodes op dat enc" "drop pc s = enc @ drop pc' s"
      using op(1) by (rule GetScriptOp_decoded)
    ultimately show ?thesis using op(2) by (auto intro: push_only.Cons)
  qed (simp add: push_only.Nil)
qed

lemma IsPushOnly_from_complete:
  "push_only t \<Longrightarrow> drop pc s = t \<Longrightarrow> length s < 2 ^ 32 \<Longrightarrow> IsPushOnly_from s pc"
proof (induction arbitrary: pc rule: push_only.induct)
  case Nil
  then show ?case by (simp add: IsPushOnly_from.simps)
next
  case (Cons op dat enc rest)
  have "IsPushOnly_from s (pc + length enc)"
    using Cons.prems by (intro Cons.IH drop_appendD)
  moreover have "GetScriptOp s pc = (True, pc + length enc, op, dat)"
    using Cons by (intro GetScriptOp_encoded)
  ultimately show ?case using Cons.hyps(2)
    by (subst IsPushOnly_from.simps) (simp add: not_less [symmetric])
qed

lemma IsPushOnly_from_iff:
  "length s < 2 ^ 32 \<Longrightarrow> IsPushOnly_from s pc \<longleftrightarrow> push_only (drop pc s)"
  using IsPushOnly_from_sound IsPushOnly_from_complete by blast

subsection \<open>Multi-signature scripts\<close>

lemma MatchMultisig_loop_sound:
  "MatchMultisig_loop s it ks = (it', opcode, pubkeys) \<Longrightarrow> it \<le> length s \<Longrightarrow> opcode > OP_PUSHDATA4 \<Longrightarrow>
   opcode \<noteq> OP_INVALIDOPCODE \<Longrightarrow>
   \<exists>keys encs. pubkeys = ks @ keys \<and> list_all2 (\<lambda>k e. \<exists>op. encodes op k e) keys encs
     \<and> list_all ValidSize keys \<and> drop it s = concat encs @ opcode # drop it' s"
proof (induction s it ks rule: MatchMultisig_loop.induct)
  case (1 s it ks)
  obtain ok j op dat where get: "GetScriptOp s it = (ok, j, op, dat)" by (metis prod_cases4)
  show ?case
  proof (cases "ok \<and> ValidSize dat")
    case True
    then have loop: "MatchMultisig_loop s j (ks @ [dat]) = (it', opcode, pubkeys)"
      using "1.prems"(1) get by (subst (asm) MatchMultisig_loop.simps) simp
    have get': "GetScriptOp s it = (True, j, op, dat)" using get True by simp
    obtain keys encs where ih: "pubkeys = (ks @ [dat]) @ keys"
      "list_all2 (\<lambda>k e. \<exists>op. encodes op k e) keys encs" "list_all ValidSize keys"
      "drop j s = concat encs @ opcode # drop it' s"
      using "1.IH" [of ok "(j, op, dat)" j "(op, dat)" op dat] get True loop GetScriptOp_progress [OF get']
        "1.prems"(3,4) by auto
    obtain enc where "encodes op dat enc" "drop it s = enc @ drop j s"
      using get' by (rule GetScriptOp_decoded)
    then show ?thesis using ih True
      by (intro exI [of _ "dat # keys"] exI [of _ "enc # encs"]) auto
  next
    case False
    then have eq: "j = it'" "op = opcode" "ks = pubkeys"
      using "1.prems"(1) get by (subst (asm) MatchMultisig_loop.simps; simp)+
    have ok using get "1.prems"(4) eq
      by (auto simp: GetScriptOp_def Let_def split: if_splits option.splits prod.splits)
    then have "GetScriptOp s it = (True, it', opcode, dat)" using get eq by simp
    then obtain enc where "encodes opcode dat enc" "drop it s = enc @ drop it' s"
      by (rule GetScriptOp_decoded)
    then show ?thesis using encodes_small "1.prems"(3) eq
      by (intro exI [of _ "[]"] exI [of _ "[]"]) auto
  qed
qed

lemma MatchMultisig_loop_complete:
  assumes "list_all2 (\<lambda>k e. \<exists>op. encodes op k e) keys encs" "list_all ValidSize keys"
    and "drop it s = concat encs @ opcode # rest" "length s < 2 ^ 32" "opcode > OP_PUSHDATA4"
  shows "MatchMultisig_loop s it ks = (it + length (concat encs) + 1, opcode, ks @ keys)"
  using assms(1-3)
proof (induction arbitrary: it ks rule: list_all2_induct)
  case Nil
  have "GetScriptOp s it = (True, it + length [opcode], opcode, [])"
    using Nil assms(4,5) by (intro GetScriptOp_encoded) (auto intro: encodes_op)
  then show ?case by (subst MatchMultisig_loop.simps) (simp add: ValidSize_def)
next
  case (Cons k keys e encs)
  then obtain op where "encodes op k e" by blast
  then have "GetScriptOp s it = (True, it + length e, op, k)"
    using Cons.prems assms(4) by (intro GetScriptOp_encoded) auto
  moreover have "MatchMultisig_loop s (it + length e) (ks @ [k])
      = (it + length e + length (concat encs) + 1, opcode, (ks @ [k]) @ keys)"
    using Cons.prems by (intro Cons.IH drop_appendD) auto
  ultimately show ?case using Cons.prems
    by (subst MatchMultisig_loop.simps) (simp add: add.assoc)
qed

subsection \<open>The grammar of standard output scripts\<close>

definition small_op :: "nat \<Rightarrow> opcodetype" where
  "small_op n = of_nat (80 + n)"

inductive standard :: "txnouttype \<Rightarrow> byte list list \<Rightarrow> byte list \<Rightarrow> bool" where
  pubkey: "ValidSize k \<Longrightarrow> standard TX_PUBKEY [k] (of_nat (length k) # k @ [OP_CHECKSIG])"
| pubkeyhash: "length h = 20 \<Longrightarrow>
    standard TX_PUBKEYHASH [h] (OP_DUP # OP_HASH160 # 20 # h @ [OP_EQUALVERIFY, OP_CHECKSIG])"
| scripthash: "length h = 20 \<Longrightarrow> standard TX_SCRIPTHASH [h] (OP_HASH160 # 20 # h @ [OP_EQUAL])"
| multisig: "list_all2 (\<lambda>k e. \<exists>op. encodes op k e) keys encs \<Longrightarrow> list_all ValidSize keys \<Longrightarrow>
    1 \<le> m \<Longrightarrow> m \<le> length keys \<Longrightarrow> length keys \<le> 16 \<Longrightarrow>
    standard TX_MULTISIG ([of_nat m] # keys @ [[of_nat (length keys)]])
      (small_op m # concat encs @ [small_op (length keys), OP_CHECKMULTISIG])"
| null_data: "push_only t \<Longrightarrow> standard TX_NULL_DATA [] (OP_RETURN # t)"
| witness_v0_scripthash: "length p = 32 \<Longrightarrow> standard TX_WITNESS_V0_SCRIPTHASH [p] (OP_0 # 32 # p)"
| witness_v0_keyhash: "length p = 20 \<Longrightarrow> standard TX_WITNESS_V0_KEYHASH [p] (OP_0 # 20 # p)"
| witness_unknown: "1 \<le> v \<Longrightarrow> v \<le> 16 \<Longrightarrow> 2 \<le> length p \<Longrightarrow> length p \<le> 40 \<Longrightarrow>
    standard TX_WITNESS_UNKNOWN [[of_nat v], p] (small_op v # of_nat (length p) # p)"

lemma unat_small_op: "n \<le> 16 \<Longrightarrow> unat (small_op n) = 80 + n"
  unfolding small_op_def by (rule unat_of_nat_id) simp

lemma small_op_facts:
  assumes "1 \<le> n" "n \<le> 16"
  shows "IsSmallInteger (small_op n)" "DecodeOP_N (small_op n) = Some (int n)"
    "small_op n > OP_PUSHDATA4" "small_op n \<noteq> OP_INVALIDOPCODE" "small_op n \<noteq> OP_HASH160"
    "small_op n \<noteq> OP_RETURN" "small_op n \<noteq> OP_DUP" "small_op n \<noteq> OP_0" "OP_1 \<le> small_op n" "small_op n \<le> OP_16"
    "unat (small_op n) \<noteq> 33" "unat (small_op n) \<noteq> 65"
  using unat_small_op [OF assms(2)] assms
  by (auto simp: IsSmallInteger_def DecodeOP_N_def opcode_defs word_le_nat_alt word_less_nat_alt
      word_unat_eq_iff uint_nat)

lemma small_opD:
  assumes "IsSmallInteger op"
  obtains n where "1 \<le> n" "n \<le> 16" "op = small_op n"
proof -
  have "81 \<le> unat op" "unat op \<le> 96" using assms by (auto simp: IsSmallInteger_def word_le_nat_alt)
  then show thesis
    by (intro that [of "unat op - 80"]) (auto simp: small_op_def)
qed

lemma ValidSize_length: "ValidSize k \<Longrightarrow> length k = 33 \<or> length k = 65"
  by (auto simp: ValidSize_def GetLen_def PUBLIC_KEY_SIZE_def COMPRESSED_PUBLIC_KEY_SIZE_def split: if_splits)

lemma take_2: "2 \<le> length s \<Longrightarrow> take 2 s = [s ! 0, s ! 1]"
  by (cases s; cases "tl s") auto

lemma take_3: "3 \<le> length s \<Longrightarrow> take 3 s = [s ! 0, s ! 1, s ! 2]"
  by (cases s; cases "tl s"; cases "tl (tl s)") auto

lemma drop_last: "length s = n + 1 \<Longrightarrow> drop n s = [last s]"
  by (metis Suc_eq_plus1 append_butlast_last_id append_eq_conv_conj length_butlast diff_Suc_1
      length_0_conv nat.distinct(1))

lemma MatchMultisig_iff:
  assumes "length s < 2 ^ 32"
  shows "MatchMultisig s = Some (Some (m, keys)) \<longleftrightarrow>
    (\<exists>encs n. m = int n \<and> list_all2 (\<lambda>k e. \<exists>op. encodes op k e) keys encs \<and> list_all ValidSize keys
      \<and> 1 \<le> n \<and> n \<le> length keys \<and> length keys \<le> 16
      \<and> s = small_op n # concat encs @ [small_op (length keys), OP_CHECKMULTISIG])" (is "_ \<longleftrightarrow> ?R")
proof
  assume M: "MatchMultisig s = Some (Some (m, keys))"
  obtain ok it op dat where get: "GetScriptOp s 0 = (ok, it, op, dat)" by (metis prod_cases4)
  obtain it' opcode pubkeys where loop: "MatchMultisig_loop s it [] = (it', opcode, pubkeys)"
    by (metis prod_cases3)
  have last: "last s = OP_CHECKMULTISIG" and ok: ok "IsSmallInteger op" "IsSmallInteger opcode"
    and dec: "DecodeOP_N op = Some m" "DecodeOP_N opcode = Some (int (length keys))" "m \<le> int (length keys)"
    and res: "pubkeys = keys" "it' + 1 = length s"
    using M get loop by (auto simp: MatchMultisig_def bind_eq_Some_conv split: if_splits)
  obtain n where n: "1 \<le> n" "n \<le> 16" "op = small_op n" using ok(2) by (rule small_opD)
  obtain l where l: "1 \<le> l" "l \<le> 16" "opcode = small_op l" using ok(3) by (rule small_opD)
  have eqs: "m = int n" "l = length keys" using dec n l small_op_facts(2) by auto
  have "GetScriptOp s 0 = (True, it, op, dat)" using get ok by simp
  then obtain enc where enc: "encodes op dat enc" "drop 0 s = enc @ drop it s" "it \<le> length s"
    by (metis GetScriptOp_decoded GetScriptOp_progress)
  have enc_op: "enc = [op]" using encodes_small [OF enc(1)] small_op_facts(3) n by auto
  obtain encs where encs: "list_all2 (\<lambda>k e. \<exists>op. encodes op k e) keys encs" "list_all ValidSize keys"
    "drop it s = concat encs @ opcode # drop it' s"
    using MatchMultisig_loop_sound [OF loop] enc(3) l small_op_facts(3,4) res by auto
  have "drop it' s = [OP_CHECKMULTISIG]" using drop_last [of s it'] res last by simp
  then show ?R using encs enc enc_op n l eqs dec(3) by auto
next
  assume ?R
  then obtain encs n where R: "m = int n" "list_all2 (\<lambda>k e. \<exists>op. encodes op k e) keys encs"
    "list_all ValidSize keys" "1 \<le> n" "n \<le> length keys" "length keys \<le> 16"
    "s = small_op n # concat encs @ [small_op (length keys), OP_CHECKMULTISIG]" by blast
  have n: "n \<le> 16" and l: "1 \<le> length keys" using R by auto
  have get: "GetScriptOp s 0 = (True, 0 + length [small_op n], small_op n, [])"
    using R n small_op_facts(3) assms by (intro GetScriptOp_encoded encodes_op) auto
  have loop: "MatchMultisig_loop s 1 [] = (1 + length (concat encs) + 1, small_op (length keys), [] @ keys)"
    using R l small_op_facts(3) assms
    by (intro MatchMultisig_loop_complete [where rest = "[OP_CHECKMULTISIG]"]) auto
  have "last s = OP_CHECKMULTISIG" "length s = length (concat encs) + 3" using R by auto
  then show "MatchMultisig s = Some (Some (m, keys))"
    using get loop R n l small_op_facts(1,2)
    by (simp add: MatchMultisig_def)
qed

lemma DecodeOP_N_total: "IsSmallInteger op \<Longrightarrow> \<exists>n. DecodeOP_N op = Some n"
  using small_op_facts(2) by (metis small_opD)

lemma MatchMultisig_total: "MatchMultisig s \<noteq> None"
  unfolding MatchMultisig_def by (auto split: prod.split dest!: DecodeOP_N_total)

text \<open>The fixed templates: what the tests on length and bytes say of the script.\<close>

lemma last_split: "length s = Suc n \<Longrightarrow> \<exists>t c. s = t @ [c] \<and> length t = n"
  by (metis append_butlast_last_id diff_Suc_1 length_butlast length_0_conv nat.distinct(1))

lemma first_split: "length s = Suc n \<Longrightarrow> \<exists>c t. s = c # t \<and> length t = n"
  by (cases s) auto

lemma IsPayToScriptHash_iff:
  "IsPayToScriptHash s \<longleftrightarrow> (\<exists>h. length h = 20 \<and> s = OP_HASH160 # 20 # h @ [OP_EQUAL])" (is "?L \<longleftrightarrow> ?R")
proof
  assume ?L
  then have len: "length s = Suc (Suc (Suc 20))" by (simp add: IsPayToScriptHash_def)
  then obtain a b t where s: "s = a # b # t" "length t = Suc 20" using first_split by blast
  then obtain h c where "t = h @ [c]" "length h = 20" using last_split by blast
  with s \<open>?L\<close> show ?R by (auto simp: IsPayToScriptHash_def nth_append)
qed (auto simp: IsPayToScriptHash_def nth_append)

lemma MatchPayToPubkeyHash_iff:
  "MatchPayToPubkeyHash s = Some h \<longleftrightarrow>
    length h = 20 \<and> s = OP_DUP # OP_HASH160 # 20 # h @ [OP_EQUALVERIFY, OP_CHECKSIG]" (is "?L \<longleftrightarrow> ?R")
proof
  assume ?L
  then have "length s = Suc (Suc (Suc (Suc (Suc 20))))" by (simp add: MatchPayToPubkeyHash_def split: if_splits)
  then obtain a b c t where s: "s = a # b # c # t" "length t = Suc (Suc 20)"
    using first_split by metis
  then obtain u e where u: "t = u @ [e]" "length u = Suc 20" using last_split by blast
  then obtain v d where "u = v @ [d]" "length v = 20" using last_split by blast
  with s u \<open>?L\<close> show ?R by (auto simp: MatchPayToPubkeyHash_def nth_append split: if_splits)
qed (auto simp: MatchPayToPubkeyHash_def nth_append)

lemma MatchPayToPubkey_iff:
  "MatchPayToPubkey s = (True, k) \<longleftrightarrow> ValidSize k \<and> s = of_nat (length k) # k @ [OP_CHECKSIG]" (is "?L \<longleftrightarrow> ?R")
proof
  assume ?L
  then obtain n where n: "n = 65 \<or> n = 33" "length s = Suc (Suc n)" "unat (s ! 0) = n" "last s = OP_CHECKSIG"
    "k = take n (drop 1 s)" "ValidSize k"
    by (auto simp: MatchPayToPubkey_def PUBLIC_KEY_SIZE_def COMPRESSED_PUBLIC_KEY_SIZE_def Let_def
        word_unat_eq_iff unat_ucast_up split: if_splits)
  then obtain a t where s: "s = a # t" "length t = Suc n" by (auto simp: length_Suc_conv)
  then obtain u c where u: "t = u @ [c]" "length u = n" using last_split by blast
  then have "a = of_nat (length k)" "k = u" "c = OP_CHECKSIG" using n s
    by (auto simp: word_unat_eq_iff unat_of_nat_id)
  with s u n show ?R by auto
next
  assume R: ?R
  then have "length k = 33 \<or> length k = 65" using ValidSize_length by blast
  with R show ?L
    by (auto simp: MatchPayToPubkey_def PUBLIC_KEY_SIZE_def COMPRESSED_PUBLIC_KEY_SIZE_def Let_def)
qed

lemma IsWitnessProgram_iff:
  "IsWitnessProgram s = Some (Some (v, p)) \<longleftrightarrow>
    2 \<le> length p \<and> length p \<le> 40 \<and>
    (\<exists>op. DecodeOP_N op = Some v \<and> s = op # of_nat (length p) # p)" (is "?L \<longleftrightarrow> ?R")
proof
  assume ?L
  then have len: "4 \<le> length s" "length s \<le> 42" "unat (s ! 1) + 2 = length s"
    and dec: "DecodeOP_N (s ! 0) = Some v" "p = drop 2 s"
    by (auto simp: IsWitnessProgram_def bind_eq_Some_conv split: if_splits)
  then obtain a b t where "s = a # b # t" by (cases s; cases "tl s") auto
  moreover from this have "b = of_nat (length t)" using len by (auto simp: word_unat_eq_iff unat_of_nat_id)
  ultimately show ?R using len dec by auto
next
  assume ?R
  then obtain op where R: "2 \<le> length p" "length p \<le> 40" "DecodeOP_N op = Some v"
    "s = op # of_nat (length p) # p" by blast
  moreover have "op = OP_0 \<or> OP_1 \<le> op \<and> op \<le> OP_16" using R(3) by (auto simp: DecodeOP_N_def split: if_splits)
  moreover have "unat (of_nat (length p) :: byte) = length p" using R by (intro unat_of_nat_id) simp
  ultimately show ?L by (auto simp: IsWitnessProgram_def)
qed

lemma IsWitnessProgram_total: "IsWitnessProgram s \<noteq> None"
  by (auto simp: IsWitnessProgram_def DecodeOP_N_def not_less split: if_splits)

lemma Solver_total: "Solver s \<noteq> None"
proof -
  obtain w where "IsWitnessProgram s = Some w" using IsWitnessProgram_total by auto
  moreover obtain m where "MatchMultisig s = Some m" using MatchMultisig_total by auto
  ultimately show ?thesis
    by (auto simp: Solver_def Let_def split: prod.splits option.splits)
qed

lemma DecodeOP_N_small:
  assumes "DecodeOP_N op = Some v" "v \<noteq> 0"
  obtains n where "1 \<le> n" "n \<le> 16" "op = small_op n" "v = int n"
proof -
  have "IsSmallInteger op"
    using assms by (auto simp: DecodeOP_N_def IsSmallInteger_def opcode_defs split: if_splits)
  then obtain n where "1 \<le> n" "n \<le> 16" "op = small_op n" by (rule small_opD)
  with assms small_op_facts(2) that show thesis by auto
qed

lemma DecodeOP_N_0: "DecodeOP_N op = Some 0 \<longleftrightarrow> op = OP_0"
  by (auto simp: DecodeOP_N_def opcode_defs word_le_def split: if_splits)

lemma Solver_sound:
  assumes S: "Solver s = Some (t, sols)" and len: "length s < 2 ^ 32"
  shows "(t = TX_NONSTANDARD \<and> sols = []) \<or> standard t sols s"
proof -
  obtain w where w: "IsWitnessProgram s = Some w" using IsWitnessProgram_total by auto
  obtain mm where mm: "MatchMultisig s = Some mm" using MatchMultisig_total by auto
  obtain ok pk where pk: "MatchPayToPubkey s = (ok, pk)" by (metis surj_pair)
  consider (sh) "IsPayToScriptHash s"
    | (wit) v p where "\<not> IsPayToScriptHash s" "w = Some (v, p)"
    | (null) "\<not> IsPayToScriptHash s" "w = None" "length s \<ge> 1 \<and> s ! 0 = OP_RETURN \<and> IsPushOnly_from s 1"
    | (other) "\<not> IsPayToScriptHash s" "w = None" "\<not> (length s \<ge> 1 \<and> s ! 0 = OP_RETURN \<and> IsPushOnly_from s 1)"
    by (cases w) auto
  then show ?thesis
  proof cases
    case sh
    then obtain h where "length h = 20" "s = OP_HASH160 # 20 # h @ [OP_EQUAL]"
      by (auto simp: IsPayToScriptHash_iff)
    with sh S show ?thesis by (auto simp: Solver_def intro: standard.scripthash)
  next
    case wit
    obtain op where op: "2 \<le> length p" "length p \<le> 40" "DecodeOP_N op = Some v" "s = op # of_nat (length p) # p"
      using w wit IsWitnessProgram_iff by blast
    show ?thesis
    proof (cases "v = 0")
      case True
      with op have "op = OP_0" by (simp add: DecodeOP_N_0)
      with S w wit True op show ?thesis
        by (auto simp: Solver_def WITNESS_V0_KEYHASH_SIZE_def WITNESS_V0_SCRIPTHASH_SIZE_def
            intro: standard.witness_v0_keyhash standard.witness_v0_scripthash split: if_splits)
    next
      case False
      obtain n where n: "1 \<le> n" "n \<le> 16" "op = small_op n" "v = int n"
        using op(3) False by (rule DecodeOP_N_small)
      with S w wit False have "t = TX_WITNESS_UNKNOWN" "sols = [[of_nat n], p]"
        by (auto simp: Solver_def)
      with standard.witness_unknown [OF n(1,2) op(1,2)] op(4) n show ?thesis by simp
    qed
  next
    case null
    then obtain r where r: "s = OP_RETURN # r" by (cases s) auto
    then have "push_only r" using IsPushOnly_from_sound [of s 1] null by simp
    then have "standard TX_NULL_DATA [] s" unfolding r by (rule standard.null_data)
    with S w null show ?thesis by (auto simp: Solver_def)
  next
    case other
    show ?thesis
    proof (cases ok)
      case True
      then have "ValidSize pk" "s = of_nat (length pk) # pk @ [OP_CHECKSIG]"
        using pk MatchPayToPubkey_iff by auto
      then have "standard TX_PUBKEY [pk] s" using standard.pubkey by metis
      with S w other pk True show ?thesis by (auto simp: Solver_def)
    next
      case False
      show ?thesis
      proof (cases "MatchPayToPubkeyHash s")
        case (Some h)
        then have "standard TX_PUBKEYHASH [h] s" using standard.pubkeyhash MatchPayToPubkeyHash_iff by metis
        with S w other pk False Some show ?thesis by (auto simp: Solver_def)
      next
        case None
        show ?thesis
        proof (cases mm)
          case (Some mk)
          then obtain m keys where mk: "mm = Some (m, keys)" by (cases mk) auto
          then obtain encs n where R: "m = int n" "list_all2 (\<lambda>k e. \<exists>op. encodes op k e) keys encs"
            "list_all ValidSize keys" "1 \<le> n" "n \<le> length keys" "length keys \<le> 16"
            "s = small_op n # concat encs @ [small_op (length keys), OP_CHECKMULTISIG]"
            using mm MatchMultisig_iff [OF len] by auto
          have "standard TX_MULTISIG ([of_nat n] # keys @ [[of_nat (length keys)]]) s"
            unfolding R(7) using R(2-6) by (rule standard.multisig)
          moreover have "t = TX_MULTISIG" "sols = [of_nat n] # keys @ [[of_nat (length keys)]]"
            using S w other pk False None mm mk R(1) by (auto simp: Solver_def)
          ultimately show ?thesis by simp
        next
          case None
          with S w other pk False \<open>MatchPayToPubkeyHash s = None\<close> mm show ?thesis by (auto simp: Solver_def)
        qed
      qed
    qed
  qed
qed

lemma Solver_after_witness:
  assumes "\<not> IsPayToScriptHash s" "IsWitnessProgram s = Some None" "s ! 0 \<noteq> OP_RETURN"
  shows "Solver s =
     (let (ok, dat) = MatchPayToPubkey s in
      if ok then Some (TX_PUBKEY, [dat])
      else case MatchPayToPubkeyHash s of
        Some dat \<Rightarrow> Some (TX_PUBKEYHASH, [dat])
      | None \<Rightarrow> Option.bind (MatchMultisig s) (\<lambda>multi.
            case multi of
              Some (required, keys) \<Rightarrow>
                Some (TX_MULTISIG, [[word_of_int required]] @ keys @ [[of_nat (length keys)]])
            | None \<Rightarrow> Some (TX_NONSTANDARD, [])))"
  using assms by (simp add: Solver_def)

lemma not_scripthash: "s ! 0 \<noteq> OP_HASH160 \<Longrightarrow> \<not> IsPayToScriptHash s"
  by (simp add: IsPayToScriptHash_def)

lemma not_witness: "s ! 0 \<noteq> OP_0 \<Longrightarrow> \<not> (OP_1 \<le> s ! 0 \<and> s ! 0 \<le> OP_16) \<Longrightarrow> IsWitnessProgram s = Some None"
  by (auto simp: IsWitnessProgram_def)

lemma not_pubkey: "unat (s ! 0) \<noteq> 33 \<Longrightarrow> unat (s ! 0) \<noteq> 65 \<Longrightarrow> MatchPayToPubkey s = (False, [])"
  by (auto simp: MatchPayToPubkey_def PUBLIC_KEY_SIZE_def COMPRESSED_PUBLIC_KEY_SIZE_def word_unat_eq_iff
      unat_ucast_up)

lemma encodes_key_length: "encodes op k enc \<Longrightarrow> ValidSize k \<Longrightarrow>
    enc \<noteq> [] \<and> enc ! 0 = op \<and> length k < length enc \<and> (unat op = length k \<or> 76 \<le> unat op)"
  by (auto simp: encodes_def size_fits_def opcode_order)

lemma multisig_not_witness:
  assumes "list_all2 (\<lambda>k e. \<exists>op. encodes op k e) keys encs" "list_all ValidSize keys" "1 \<le> length keys"
    and s: "s = c # concat encs @ [a, b]"
  shows "IsWitnessProgram s = Some None"
proof -
  obtain k ks e es where ke: "keys = k # ks" "encs = e # es"
    using assms(1,3) by (cases keys; cases encs) auto
  then obtain op where op: "encodes op k e" "ValidSize k" using assms by auto
  note e = encodes_key_length [OF op]
  have s1: "s ! 1 = op" unfolding s ke using e by (simp add: nth_append)
  have "length s \<ge> 3 + length e" unfolding s ke by simp
  moreover have "length k < length e" "unat op = length k \<or> 76 \<le> unat op" using e by simp_all
  ultimately have "unat (s ! 1) + 2 \<noteq> length s \<or> length s > 42" unfolding s1 by linarith
  then show ?thesis by (auto simp: IsWitnessProgram_def)
qed

lemma Solver_complete:
  assumes "standard t sols s" "length s < 2 ^ 32"
  shows "Solver s = Some (t, sols)"
  using assms
proof (cases rule: standard.cases)
  case (pubkey k)
  then have "length k = 33 \<or> length k = 65" using ValidSize_length by blast
  then have "s ! 0 = 33 \<or> s ! 0 = 65" using pubkey by auto
  then have "\<not> IsPayToScriptHash s" "IsWitnessProgram s = Some None" "s ! 0 \<noteq> OP_RETURN"
    by (auto intro!: not_scripthash not_witness simp: opcode_defs)
  moreover have "MatchPayToPubkey s = (True, k)" using pubkey by (simp add: MatchPayToPubkey_iff)
  ultimately show ?thesis using pubkey by (simp add: Solver_after_witness)
next
  case (pubkeyhash h)
  then have s0: "s ! 0 = OP_DUP" by simp
  then have "\<not> IsPayToScriptHash s" "IsWitnessProgram s = Some None" "s ! 0 \<noteq> OP_RETURN"
    by (auto intro!: not_scripthash not_witness simp: opcode_defs)
  moreover have "MatchPayToPubkey s = (False, [])" using s0 by (intro not_pubkey) (simp_all add: opcode_defs)
  moreover have "MatchPayToPubkeyHash s = Some h" using pubkeyhash by (simp add: MatchPayToPubkeyHash_iff)
  ultimately show ?thesis using pubkeyhash by (simp add: Solver_after_witness)
next
  case (scripthash h)
  then have "IsPayToScriptHash s" by (auto simp: IsPayToScriptHash_iff)
  with scripthash show ?thesis by (simp add: Solver_def)
next
  case (multisig keys encs m)
  have m: "m \<le> 16" and l: "1 \<le> length keys" using multisig by auto
  have s0: "s ! 0 = small_op m" using multisig by simp
  note f = small_op_facts [OF multisig(6) m]
  have "\<not> IsPayToScriptHash s" "s ! 0 \<noteq> OP_RETURN" using f s0 by (auto intro!: not_scripthash)
  moreover have "IsWitnessProgram s = Some None"
    using multisig_not_witness [OF multisig(4,5) l multisig(3)] .
  moreover have "MatchPayToPubkey s = (False, [])" using f s0 by (intro not_pubkey) simp_all
  moreover have "MatchPayToPubkeyHash s = None" using f s0 by (simp add: MatchPayToPubkeyHash_def)
  moreover have "MatchMultisig s = Some (Some (int m, keys))"
    using multisig by (subst MatchMultisig_iff [OF assms(2)]) blast
  ultimately show ?thesis using multisig(1,2) by (simp add: Solver_after_witness)
next
  case (null_data r)
  then have "\<not> IsPayToScriptHash s" "IsWitnessProgram s = Some None"
    by (auto intro!: not_scripthash not_witness simp: opcode_defs)
  moreover have "IsPushOnly_from s 1" using null_data assms(2) by (simp add: IsPushOnly_from_iff)
  ultimately show ?thesis using null_data by (simp add: Solver_def)
next
  case (witness_v0_scripthash p)
  then have "\<not> IsPayToScriptHash s" by (auto intro!: not_scripthash simp: opcode_defs)
  moreover have "IsWitnessProgram s = Some (Some (0, p))"
    using witness_v0_scripthash by (auto simp: IsWitnessProgram_iff DecodeOP_N_0)
  ultimately show ?thesis using witness_v0_scripthash
    by (simp add: Solver_def WITNESS_V0_KEYHASH_SIZE_def WITNESS_V0_SCRIPTHASH_SIZE_def)
next
  case (witness_v0_keyhash p)
  then have "\<not> IsPayToScriptHash s" by (auto intro!: not_scripthash simp: opcode_defs)
  moreover have "IsWitnessProgram s = Some (Some (0, p))"
    using witness_v0_keyhash by (auto simp: IsWitnessProgram_iff DecodeOP_N_0)
  ultimately show ?thesis using witness_v0_keyhash
    by (simp add: Solver_def WITNESS_V0_KEYHASH_SIZE_def WITNESS_V0_SCRIPTHASH_SIZE_def)
next
  case (witness_unknown v p)
  note f = small_op_facts [OF witness_unknown(4,5)]
  have "\<not> IsPayToScriptHash s" using f witness_unknown by (auto intro!: not_scripthash)
  moreover have "IsWitnessProgram s = Some (Some (int v, p))"
    using witness_unknown f(2) by (subst IsWitnessProgram_iff) blast
  ultimately show ?thesis using witness_unknown by (simp add: Solver_def)
qed

subsection \<open>Properties\<close>

text \<open>(C34) \<^verbatim>\<open>GetScriptOp\<close> parses one instruction: it returns true exactly when the bytes at \<^verbatim>\<open>pc\<close> start with an
  encoding of an opcode and its data, in any of the four push forms, and it then leaves \<^verbatim>\<open>pc\<close> behind that
  encoding; on failure it reports the invalid opcode and no data.\<close>

theorem GetScriptOp_iff:
  assumes "length s < 2 ^ 32" "pc \<le> length s"
  shows "(GetScriptOp s pc = (True, pc', op, dat) \<longleftrightarrow>
      (\<exists>enc. encodes op dat enc \<and> pc' = pc + length enc \<and> drop pc s = enc @ drop pc' s))
    \<and> (\<not> fst (GetScriptOp s pc) \<longrightarrow> snd (snd (GetScriptOp s pc)) = (OP_INVALIDOPCODE, []))"
proof (intro conjI iffI impI)
  assume "GetScriptOp s pc = (True, pc', op, dat)"
  then show "\<exists>enc. encodes op dat enc \<and> pc' = pc + length enc \<and> drop pc s = enc @ drop pc' s"
    by (metis GetScriptOp_decoded)
next
  assume "\<exists>enc. encodes op dat enc \<and> pc' = pc + length enc \<and> drop pc s = enc @ drop pc' s"
  then show "GetScriptOp s pc = (True, pc', op, dat)"
    using GetScriptOp_encoded assms(1) by blast
next
  assume "\<not> fst (GetScriptOp s pc)"
  then show "snd (snd (GetScriptOp s pc)) = (OP_INVALIDOPCODE, [])"
    by (auto simp: GetScriptOp_def Let_def split: if_splits option.splits prod.splits)
qed

theorem GetScriptOp_iff_witness:
  "GetScriptOp [0x51, 0x4d, 0x02, 0x00, 0xaa, 0xbb, 0xac] 1 = (True, 6, OP_PUSHDATA2, [0xaa, 0xbb])"
proof -
  have "encodes OP_PUSHDATA2 [0xaa, 0xbb] [0x4d, 0x02, 0x00, 0xaa, 0xbb]"
    by (simp add: encodes_def size_fits_def size_bytes_def opcode_defs le_bytes_2)
  then have "\<exists>enc. encodes OP_PUSHDATA2 [0xaa, 0xbb] enc \<and> 6 = 1 + length enc
      \<and> drop 1 [0x51, 0x4d, 0x02, 0x00, 0xaa, 0xbb, 0xac] = enc @ drop 6 [0x51, 0x4d, 0x02, 0x00, 0xaa, 0xbb, 0xac]"
    by (intro exI [of _ "[0x4d, 0x02, 0x00, 0xaa, 0xbb]"]) simp
  with GetScriptOp_iff [of "[0x51, 0x4d, 0x02, 0x00, 0xaa, 0xbb, 0xac]" 1 6 OP_PUSHDATA2 "[0xaa, 0xbb]"]
  show ?thesis by (simp only: list.size) simp
qed

text \<open>(C19) \<^verbatim>\<open>Solver\<close> decides the grammar of standard output scripts: it gives a type and solutions exactly when
  the script is that type's template filled with those solutions, the templates are mutually exclusive,
  and everything else is \<^verbatim>\<open>TX_NONSTANDARD\<close> with no solutions. No assertion fails on any script.\<close>

theorem Solver_iff:
  assumes "length s < 2 ^ 32"
  shows "Solver s = Some (t, sols) \<longleftrightarrow>
    standard t sols s \<or> (t = TX_NONSTANDARD \<and> sols = [] \<and> (\<nexists>t' sols'. standard t' sols' s))"
proof -
  obtain t0 sols0 where S: "Solver s = Some (t0, sols0)" using Solver_total by (metis option.exhaust surj_pair)
  show ?thesis
  proof (cases "\<exists>t' sols'. standard t' sols' s")
    case True
    then obtain t' sols' where "standard t' sols' s" by blast
    with Solver_complete [OF this assms] S have st: "standard t0 sols0 s" by simp
    have "standard t sols s \<longleftrightarrow> t = t0 \<and> sols = sols0"
      using Solver_complete [of t sols, OF _ assms] S st by auto
    moreover have "(\<nexists>t' sols'. standard t' sols' s) \<longleftrightarrow> False" using st by blast
    ultimately show ?thesis using S by (simp only: option.inject prod.inject simp_thms) blast
  next
    case False
    then have "t0 = TX_NONSTANDARD \<and> sols0 = []" using Solver_sound [OF S assms] by blast
    with S False show ?thesis by (simp only: option.inject prod.inject) blast
  qed
qed

theorem Solver_iff_witness:
  "Solver (OP_DUP # OP_HASH160 # 20 # replicate 20 7 @ [OP_EQUALVERIFY, OP_CHECKSIG])
    = Some (TX_PUBKEYHASH, [replicate 20 7])"
  by (subst Solver_iff) (auto intro: standard.pubkeyhash)

lemma standard_shape:
  assumes "standard t sols s"
  shows "(t = TX_PUBKEY \<longrightarrow> (\<exists>k. sols = [k] \<and> k \<noteq> [])) \<and>
    (t \<in> {TX_PUBKEYHASH, TX_SCRIPTHASH, TX_WITNESS_V0_KEYHASH} \<longrightarrow> (\<exists>h. sols = [h] \<and> length h = 20)) \<and>
    (t = TX_WITNESS_V0_SCRIPTHASH \<longrightarrow> (\<exists>h. sols = [h] \<and> length h = 32)) \<and>
    (t = TX_WITNESS_UNKNOWN \<longrightarrow> (\<exists>v p. sols = [[v], p] \<and> length p \<le> 40)) \<and>
    (t = TX_MULTISIG \<longrightarrow> (\<exists>m keys n. sols = [m] # keys @ [[n]] \<and> keys \<noteq> [] \<and> list_all ValidSize keys))"
  using assms by cases (auto simp: ValidSize_def)

lemma ExtractDestination_total:
  assumes "Solver s = Some (t, sols)" "length s < 2 ^ 32" "length uninit = 40"
  shows "ExtractDestination m uninit s =
    Some (case t of
        TX_PUBKEY \<Rightarrow> Some (CKeyID (Hash160 m (sols ! 0)))
      | TX_PUBKEYHASH \<Rightarrow> Some (CKeyID (Blob (sols ! 0)))
      | TX_SCRIPTHASH \<Rightarrow> Some (CScriptID (Blob (sols ! 0)))
      | TX_WITNESS_V0_KEYHASH \<Rightarrow> Some (WitnessV0KeyHash (Blob (sols ! 0)))
      | TX_WITNESS_V0_SCRIPTHASH \<Rightarrow> Some (WitnessV0ScriptHash (Blob (sols ! 0)))
      | TX_WITNESS_UNKNOWN \<Rightarrow> Some (WitnessUnknown (ucast (sols ! 0 ! 0)) (of_nat (length (sols ! 1)))
          (sols ! 1 @ drop (length (sols ! 1)) uninit))
      | _ \<Rightarrow> None)"
proof -
  have "(t = TX_NONSTANDARD \<and> sols = []) \<or> standard t sols s" using Solver_sound assms by blast
  then show ?thesis
  proof
    assume st: "standard t sols s"
    show ?thesis using standard_shape [OF st] assms
      by (cases t) (auto simp: ExtractDestination_def nth_checked_def copy_into_def base_blob_of_vec_def
          base_blob_new_def)
  qed (use assms in \<open>simp add: ExtractDestination_def\<close>)
qed

text \<open>(C35) No script makes destination extraction fail an assertion or overrun an array. A public-key script pays to
  the hash of its key, the three hash templates to their hash, a witness program of a later version to
  the program itself; the other types have no single destination.\<close>

theorem ExtractDestination_cases:
  assumes "Solver s = Some (t, sols)" "length s < 2 ^ 32" "length uninit = 40"
  shows "ExtractDestination m uninit s =
    Some (case t of
        TX_PUBKEY \<Rightarrow> Some (CKeyID (Hash160 m (sols ! 0)))
      | TX_PUBKEYHASH \<Rightarrow> Some (CKeyID (Blob (sols ! 0)))
      | TX_SCRIPTHASH \<Rightarrow> Some (CScriptID (Blob (sols ! 0)))
      | TX_WITNESS_V0_KEYHASH \<Rightarrow> Some (WitnessV0KeyHash (Blob (sols ! 0)))
      | TX_WITNESS_V0_SCRIPTHASH \<Rightarrow> Some (WitnessV0ScriptHash (Blob (sols ! 0)))
      | TX_WITNESS_UNKNOWN \<Rightarrow> Some (WitnessUnknown (ucast (sols ! 0 ! 0)) (of_nat (length (sols ! 1)))
          (sols ! 1 @ drop (length (sols ! 1)) uninit))
      | _ \<Rightarrow> None)"
  using assms by (rule ExtractDestination_total)

theorem ExtractDestination_cases_witness:
  "ExtractDestination buffering (replicate 40 0xee) [0x52, 2, 0xaa, 0xbb]
    = Some (Some (WitnessUnknown 2 2 ([0xaa, 0xbb] @ replicate 38 0xee)))"
proof -
  have "Solver [0x52, 2, 0xaa, 0xbb] = Some (TX_WITNESS_UNKNOWN, [[2], [0xaa, 0xbb]])" by code_simp
  moreover have "drop 2 (replicate 40 (0xee :: byte)) = replicate 38 0xee" by simp
  ultimately show ?thesis
    using ExtractDestination_cases [of "[0x52, 2, 0xaa, 0xbb]" TX_WITNESS_UNKNOWN "[[2], [0xaa, 0xbb]]"
        "replicate 40 0xee" buffering] by simp
qed

lemma ExtractDestinations_loop_valid:
  "list_all ValidSize ks \<Longrightarrow>
    ExtractDestinations_loop m ks acc = (True, acc @ map (\<lambda>k. CKeyID (Hash160 m k)) ks)"
  by (induction ks arbitrary: acc) (auto simp: ValidSize_def)

text \<open>\<^verbatim>\<open>ExtractDestinations\<close> returns true for every standard type but null data. For a multi-signature script
  it lists the hashes of all the keys in order with the number required; for the others it agrees with
  \<^verbatim>\<open>ExtractDestination\<close>, one signature being required. It never fails an assertion.\<close>

theorem ExtractDestinations_cases:
  assumes "Solver s = Some (t, sols)" "length s < 2 ^ 32" "length uninit = 40"
  shows "ExtractDestinations m uninit s n =
    Some (if t = TX_NONSTANDARD \<or> t = TX_NULL_DATA then (False, t, [], n)
          else if t = TX_MULTISIG then
            (True, t, map (\<lambda>k. CKeyID (Hash160 m k)) (butlast (tl sols)), uint (sols ! 0 ! 0))
          else (True, t, [the (the (ExtractDestination m uninit s))], 1))"
proof -
  have "(t = TX_NONSTANDARD \<and> sols = []) \<or> standard t sols s" using Solver_sound assms by blast
  then show ?thesis
  proof
    assume st: "standard t sols s"
    show ?thesis
    proof (cases "t = TX_MULTISIG")
      case True
      with standard_shape [OF st] obtain k keys l
        where sols: "sols = [k] # keys @ [[l]]" "keys \<noteq> []" "list_all ValidSize keys" by auto
      show ?thesis using True assms(1) sols
        by (simp add: ExtractDestinations_def nth_checked_def ExtractDestinations_loop_valid)
    next
      case False
      then show ?thesis using assms(1) ExtractDestination_total [OF assms, of m]
        by (cases t) (simp_all add: ExtractDestinations_def)
    qed
  qed (use assms in \<open>simp add: ExtractDestinations_def\<close>)
qed

theorem ExtractDestinations_cases_witness:
  "ExtractDestinations buffering (replicate 40 0) [OP_RETURN, 2, 0xaa, 0xbb] 7
    = Some (False, TX_NULL_DATA, [], 7)"
proof -
  have "Solver [OP_RETURN, 2, 0xaa, 0xbb] = Some (TX_NULL_DATA, [])"
  proof (rule Solver_complete [OF standard.null_data])
    have "encodes 2 [0xaa, 0xbb] [2, 0xaa, 0xbb]"
      by (simp add: encodes_def size_fits_def size_bytes_def opcode_defs)
    from push_only.Cons [OF this _ push_only.Nil] show "push_only [2, 0xaa, 0xbb]"
      by (simp add: opcode_defs)
  qed simp
  then show ?thesis
    using ExtractDestinations_cases [of "[OP_RETURN, 2, 0xaa, 0xbb]" TX_NULL_DATA "[]" "replicate 40 0"
        buffering 7] by simp
qed

end
