(* ===== verification/Transaction.thy ===== *)
theory Transaction
  imports Script
begin

section \<open>Transactions: amount.h, transaction.h, transaction.cpp\<close>

text \<open>
  The classes are records in the order of their members, \<^verbatim>\<open>CTransaction\<close> extending
  \<^verbatim>\<open>CMutableTransaction\<close> with its two cached hashes. \<^verbatim>\<open>CAmount\<close> is a 64-bit word read as signed. The
  version of a stream, an \<^verbatim>\<open>int\<close>, is an argument of the (de)serialisers that ask for it.
\<close>

type_synonym CAmount = u64

definition COIN :: int where "COIN = 100000000"
definition MAX_MONEY :: int where "MAX_MONEY = 21000000 * COIN"

definition MoneyRange :: "CAmount \<Rightarrow> bool" where
  "MoneyRange v \<longleftrightarrow> sint v \<ge> 0 \<and> sint v \<le> MAX_MONEY"

definition SERIALIZE_TRANSACTION_NO_WITNESS :: int where
  "SERIALIZE_TRANSACTION_NO_WITNESS = 0x40000000"

subsection \<open>Outpoints, inputs and outputs\<close>

record COutPoint =
  op_hash :: uint256
  op_n :: u32

definition NULL_INDEX :: u32 where "NULL_INDEX = 0xffffffff"

definition COutPoint_new :: COutPoint where
  "COutPoint_new = \<lparr>op_hash = base_blob_new 32, op_n = NULL_INDEX\<rparr>"

definition COutPoint_SetNull :: "COutPoint \<Rightarrow> COutPoint" where
  "COutPoint_SetNull p = p\<lparr>op_hash := base_blob_SetNull (op_hash p), op_n := NULL_INDEX\<rparr>"

definition COutPoint_IsNull :: "COutPoint \<Rightarrow> bool" where
  "COutPoint_IsNull p \<longleftrightarrow> base_blob_IsNull (op_hash p) \<and> op_n p = NULL_INDEX"

definition COutPoint_less :: "COutPoint \<Rightarrow> COutPoint \<Rightarrow> bool" where
  "COutPoint_less a b =
     (let cmp = base_blob_Compare (op_hash a) (op_hash b) in cmp < 0 \<or> (cmp = 0 \<and> op_n a < op_n b))"

definition COutPoint_Serialize :: "COutPoint \<Rightarrow> wop list" where
  "COutPoint_Serialize p = base_blob_Serialize (op_hash p) @ [Write (ser_writedata32 (op_n p))]"

definition COutPoint_Unserialize :: "COutPoint reader" where
  "COutPoint_Unserialize =
     bindR (base_blob_Unserialize 32) (\<lambda>hash. bindR ser_readdata32 (\<lambda>n.
       Return \<lparr>op_hash = hash, op_n = n\<rparr>))"

record CTxIn =
  prevout :: COutPoint
  scriptSig :: "byte list"
  nSequence :: u32
  scriptWitness :: CScriptWitness

definition SEQUENCE_FINAL :: u32 where "SEQUENCE_FINAL = 0xffffffff"

definition CTxIn_new :: CTxIn where
  "CTxIn_new = \<lparr>prevout = COutPoint_new, scriptSig = [], nSequence = SEQUENCE_FINAL,
     scriptWitness = \<lparr>stack = []\<rparr>\<rparr>"

definition CTxIn_of :: "COutPoint \<Rightarrow> byte list \<Rightarrow> u32 \<Rightarrow> CTxIn" where
  "CTxIn_of prevoutIn scriptSigIn nSequenceIn =
     \<lparr>prevout = prevoutIn, scriptSig = scriptSigIn, nSequence = nSequenceIn, scriptWitness = \<lparr>stack = []\<rparr>\<rparr>"

definition CTxIn_spending :: "uint256 \<Rightarrow> u32 \<Rightarrow> byte list \<Rightarrow> u32 \<Rightarrow> CTxIn" where
  "CTxIn_spending hashPrevTx nOut scriptSigIn nSequenceIn =
     \<lparr>prevout = \<lparr>op_hash = hashPrevTx, op_n = nOut\<rparr>, scriptSig = scriptSigIn,
      nSequence = nSequenceIn, scriptWitness = \<lparr>stack = []\<rparr>\<rparr>"

definition CTxIn_eq :: "CTxIn \<Rightarrow> CTxIn \<Rightarrow> bool" where
  "CTxIn_eq a b \<longleftrightarrow> prevout a = prevout b \<and> scriptSig a = scriptSig b \<and> nSequence a = nSequence b"

definition CTxIn_Serialize :: "CTxIn \<Rightarrow> wop list" where
  "CTxIn_Serialize t =
     COutPoint_Serialize (prevout t) @ Serialize_blob (scriptSig t) @ [Write (ser_writedata32 (nSequence t))]"

definition CTxIn_Unserialize :: "CTxIn reader" where
  "CTxIn_Unserialize =
     bindR COutPoint_Unserialize (\<lambda>p. bindR Unserialize_blob (\<lambda>s. bindR ser_readdata32 (\<lambda>n.
       Return \<lparr>prevout = p, scriptSig = s, nSequence = n, scriptWitness = \<lparr>stack = []\<rparr>\<rparr>)))"

record CTxOut =
  nValue :: CAmount
  scriptPubKey :: "byte list"

definition CTxOut_SetNull :: "CTxOut \<Rightarrow> CTxOut" where
  "CTxOut_SetNull t = t\<lparr>nValue := -1, scriptPubKey := []\<rparr>"

definition CTxOut_IsNull :: "CTxOut \<Rightarrow> bool" where
  "CTxOut_IsNull t \<longleftrightarrow> nValue t = -1"

definition CTxOut_Serialize :: "CTxOut \<Rightarrow> wop list" where
  "CTxOut_Serialize t = [Write (ser_writedata64 (nValue t))] @ Serialize_blob (scriptPubKey t)"

definition CTxOut_Unserialize :: "CTxOut reader" where
  "CTxOut_Unserialize =
     bindR ser_readdata64 (\<lambda>v. bindR Unserialize_blob (\<lambda>s. Return \<lparr>nValue = v, scriptPubKey = s\<rparr>))"

subsection \<open>Transactions\<close>

record CMutableTransaction =
  vin :: "CTxIn list"
  vout :: "CTxOut list"
  nVersion :: u32
  nLockTime :: u32

record CTransaction = CMutableTransaction +
  tx_hash :: uint256
  m_witness_hash :: uint256

fun HasWitness_loop :: "CTxIn list \<Rightarrow> bool" where
  "HasWitness_loop [] = False"
| "HasWitness_loop (t # ts) =
     (if \<not> CScriptWitness_IsNull (scriptWitness t) then True else HasWitness_loop ts)"

definition HasWitness :: "'a CMutableTransaction_scheme \<Rightarrow> bool" where
  "HasWitness tx = HasWitness_loop (vin tx)"

text \<open>
  The vectors' element sizes on the 64-bit target: a \<^verbatim>\<open>CTxIn\<close> has 96 bytes, a \<^verbatim>\<open>CTxOut\<close> 40, a
  \<^verbatim>\<open>std::vector\<close> 24.
\<close>

definition Unserialize_vin :: "CTxIn list reader" where
  "Unserialize_vin = Unserialize_vec 96 CTxIn_Unserialize"

definition Unserialize_vout :: "CTxOut list reader" where
  "Unserialize_vout = Unserialize_vec 40 CTxOut_Unserialize"

definition Serialize_stack :: "byte list list \<Rightarrow> wop list" where
  "Serialize_stack = Serialize_vec Serialize_blob"

definition Unserialize_stack :: "byte list list reader" where
  "Unserialize_stack = Unserialize_vec 24 Unserialize_blob"

primrec Unserialize_witnesses :: "CTxIn list \<Rightarrow> CTxIn list reader" where
  "Unserialize_witnesses [] = Return []"
| "Unserialize_witnesses (t # ts) =
     bindR Unserialize_stack (\<lambda>s. bindR (Unserialize_witnesses ts) (\<lambda>ts'.
       Return (t\<lparr>scriptWitness := (scriptWitness t)\<lparr>stack := s\<rparr>\<rparr> # ts')))"

definition allow_witness :: "int \<Rightarrow> bool" where
  "allow_witness version \<longleftrightarrow> \<not> (version AND SERIALIZE_TRANSACTION_NO_WITNESS \<noteq> 0)"

definition UnserializeTransaction :: "int \<Rightarrow> CMutableTransaction reader" where
  "UnserializeTransaction version =
     (let fAllowWitness = allow_witness version in
      bindR ser_readdata32 (\<lambda>ver.
      bindR Unserialize_vin (\<lambda>ins.
      bindR
        (if ins = [] \<and> fAllowWitness then
           bindR ser_readdata8 (\<lambda>flags.
             if flags \<noteq> 0 then
               bindR Unserialize_vin (\<lambda>ins. bindR Unserialize_vout (\<lambda>outs. Return (flags, ins, outs)))
             else Return (flags, ins, []))
         else bindR Unserialize_vout (\<lambda>outs. Return (0, ins, outs)))
      (\<lambda>(flags, ins, outs).
      bindR
        (if flags AND 1 \<noteq> 0 \<and> fAllowWitness then
           bindR (Unserialize_witnesses ins) (\<lambda>ins. Return (flags XOR 1, ins))
         else Return (flags, ins))
      (\<lambda>(flags, ins).
        if flags \<noteq> 0 then Throw Unknown_transaction_optional_data
        else bindR ser_readdata32 (\<lambda>lock.
          Return \<lparr>vin = ins, vout = outs, nVersion = ver, nLockTime = lock\<rparr>))))))"

definition SerializeTransaction :: "int \<Rightarrow> 'a CMutableTransaction_scheme \<Rightarrow> wop list" where
  "SerializeTransaction version tx =
     (let fAllowWitness = allow_witness version;
          flags = (if fAllowWitness then if HasWitness tx then 0 OR 1 else 0 else 0 :: byte)
      in [Write (ser_writedata32 (nVersion tx))] @
         (if flags \<noteq> 0 then
            Serialize_vec CTxIn_Serialize [] @ [Write (ser_writedata8 flags)] else []) @
         Serialize_vec CTxIn_Serialize (vin tx) @
         Serialize_vec CTxOut_Serialize (vout tx) @
         (if flags AND 1 \<noteq> 0 then
            concat (map (\<lambda>t. Serialize_stack (stack (scriptWitness t))) (vin tx)) else []) @
         [Write (ser_writedata32 (nLockTime tx))])"

definition SER_GETHASH :: int where "SER_GETHASH = 4"

definition CMutableTransaction_new :: CMutableTransaction where
  "CMutableTransaction_new = \<lparr>vin = [], vout = [], nVersion = 2, nLockTime = 0\<rparr>"

definition CMutableTransaction_of :: "'a CMutableTransaction_scheme \<Rightarrow> CMutableTransaction" where
  "CMutableTransaction_of tx =
     \<lparr>vin = vin tx, vout = vout tx, nVersion = nVersion tx, nLockTime = nLockTime tx\<rparr>"

definition CMutableTransaction_GetHash ::
  "('s, 'r) mbedtls \<Rightarrow> 'a CMutableTransaction_scheme \<Rightarrow> uint256" where
  "CMutableTransaction_GetHash m tx =
     SerializeHash m (SerializeTransaction SERIALIZE_TRANSACTION_NO_WITNESS tx) SER_GETHASH
       SERIALIZE_TRANSACTION_NO_WITNESS"

definition ComputeHash :: "('s, 'r) mbedtls \<Rightarrow> 'a CMutableTransaction_scheme \<Rightarrow> uint256" where
  "ComputeHash m tx =
     SerializeHash m (SerializeTransaction SERIALIZE_TRANSACTION_NO_WITNESS tx) SER_GETHASH
       SERIALIZE_TRANSACTION_NO_WITNESS"

definition ComputeWitnessHash :: "('s, 'r) mbedtls \<Rightarrow> CTransaction \<Rightarrow> uint256" where
  "ComputeWitnessHash m tx =
     (if \<not> HasWitness tx then tx_hash tx
      else SerializeHash m (SerializeTransaction 0 tx) SER_GETHASH 0)"

definition CTransaction_new :: CTransaction where
  "CTransaction_new = \<lparr>vin = [], vout = [], nVersion = 2, nLockTime = 0,
     tx_hash = base_blob_new 32, m_witness_hash = base_blob_new 32\<rparr>"

text \<open>The initialisers run in the order of the members, so \<^verbatim>\<open>ComputeWitnessHash\<close> sees \<^verbatim>\<open>hash\<close>.\<close>

definition CTransaction_of :: "('s, 'r) mbedtls \<Rightarrow> CMutableTransaction \<Rightarrow> CTransaction" where
  "CTransaction_of m tx =
     (let t = \<lparr>vin = vin tx, vout = vout tx, nVersion = nVersion tx, nLockTime = nLockTime tx,
               tx_hash = base_blob_new 32, m_witness_hash = base_blob_new 32\<rparr>;
          t = t\<lparr>tx_hash := ComputeHash m t\<rparr>
      in t\<lparr>m_witness_hash := ComputeWitnessHash m t\<rparr>)"

definition CTransaction_deserialize :: "('s, 'r) mbedtls \<Rightarrow> int \<Rightarrow> CTransaction reader" where
  "CTransaction_deserialize m version =
     bindR (UnserializeTransaction version) (\<lambda>tx. Return (CTransaction_of m tx))"

definition CTransaction_IsNull :: "'a CMutableTransaction_scheme \<Rightarrow> bool" where
  "CTransaction_IsNull tx \<longleftrightarrow> vin tx = [] \<and> vout tx = []"

definition CTransaction_IsCoinBase :: "'a CMutableTransaction_scheme \<Rightarrow> bool" where
  "CTransaction_IsCoinBase tx \<longleftrightarrow> length (vin tx) = 1 \<and> COutPoint_IsNull (prevout (vin tx ! 0))"

definition CTransaction_eq :: "CTransaction \<Rightarrow> CTransaction \<Rightarrow> bool" where
  "CTransaction_eq a b \<longleftrightarrow> tx_hash a = tx_hash b"

datatype value_error = Value_out_of_range

text \<open>
  The sum is taken at 64 bits, before the ranges are looked at. \<^verbatim>\<open>CAmount\<close> is signed, so that an addition whose
  result does not fit is undefined behaviour: \<open>None\<close>.
\<close>

definition add_signed :: "CAmount \<Rightarrow> CAmount \<Rightarrow> CAmount option" where
  "add_signed a b = (if - (2 ^ 63) \<le> sint a + sint b \<and> sint a + sint b < 2 ^ 63 then Some (a + b) else None)"

fun GetValueOut_loop :: "CTxOut list \<Rightarrow> CAmount \<Rightarrow> (value_error + CAmount) option" where
  "GetValueOut_loop [] nValueOut = Some (Inr nValueOut)"
| "GetValueOut_loop (tx_out # outs) nValueOut =
     (case add_signed nValueOut (nValue tx_out) of
        None \<Rightarrow> None
      | Some nValueOut \<Rightarrow>
          if \<not> MoneyRange (nValue tx_out) \<or> \<not> MoneyRange nValueOut then Some (Inl Value_out_of_range)
          else GetValueOut_loop outs nValueOut)"

definition GetValueOut :: "'a CMutableTransaction_scheme \<Rightarrow> (value_error + CAmount) option" where
  "GetValueOut tx = GetValueOut_loop (vout tx) 0"

definition PROTOCOL_VERSION :: int where "PROTOCOL_VERSION = 70015"

definition GetTotalSize :: "'a CMutableTransaction_scheme \<Rightarrow> u32" where
  "GetTotalSize tx = ucast (GetSerializeSize (SerializeTransaction PROTOCOL_VERSION tx))"

subsection \<open>The formats\<close>

text \<open>
  With the laws of the codecs as equivalences, what a deserialiser accepts is computed by
  simplification: \<open>read_iff\<close> collects them.
\<close>

named_theorems read_iff

lemma run_bindR_Inr [read_iff]:
  "run rd (bindR p f) s = (Inr y, t) \<longleftrightarrow>
    (\<exists>x s'. run rd p s = (Inr x, s') \<and> run rd (f x) s' = (Inr y, t))"
  by (auto simp: run_bindR split: prod.splits sum.splits)

lemma strict_codec_iff:
  assumes "strict_codec ser unser ok"
  shows "run_list unser bs = (Inr x, rest) \<longleftrightarrow> ok x \<and> bs = bytes_written (ser x) @ rest"
  using strict_codec.canonical [OF assms] codec.roundtrip [OF strict_codec.axioms(1) [OF assms]] by blast

declare run_ser_readdata_inv [read_iff]
declare strict_codec_iff [OF base_blob_codec, read_iff]
declare strict_codec_iff [OF blob.strict_codec_axioms, read_iff]

lemma strict_codecI:
  assumes "\<And>bs x rest. run_list unser bs = (Inr x, rest) \<longleftrightarrow> ok x \<and> bs = bytes_written (ser x) @ rest"
  shows "strict_codec ser unser ok"
  by unfold_locales (use assms in auto)

lemma strict_codec_COutPoint:
  "strict_codec COutPoint_Serialize COutPoint_Unserialize (\<lambda>p. blob_ok 32 (op_hash p))"
proof (rule strict_codecI)
  fix bs x rest
  show "run_list COutPoint_Unserialize bs = (Inr x, rest) \<longleftrightarrow>
      blob_ok 32 (op_hash x) \<and> bs = bytes_written (COutPoint_Serialize x) @ rest"
    by (cases x) (auto simp: COutPoint_Unserialize_def COutPoint_Serialize_def read_iff write_simps)
qed

declare strict_codec_iff [OF strict_codec_COutPoint, read_iff]

definition txin_ok :: "CTxIn \<Rightarrow> bool" where
  "txin_ok t \<longleftrightarrow> blob_ok 32 (op_hash (prevout t)) \<and> length (scriptSig t) \<le> max_size"

definition txout_ok :: "CTxOut \<Rightarrow> bool" where
  "txout_ok t \<longleftrightarrow> length (scriptPubKey t) \<le> max_size"

abbreviation stack_ok :: "byte list list \<Rightarrow> bool" where
  "stack_ok \<equiv> vec_ok (\<lambda>x. length x \<le> max_size)"

definition strip :: "CTxIn \<Rightarrow> CTxIn" where
  "strip t = t\<lparr>scriptWitness := \<lparr>stack = []\<rparr>\<rparr>"

lemma strip_simps [simp]:
  "prevout (strip t) = prevout t" "scriptSig (strip t) = scriptSig t" "nSequence (strip t) = nSequence t"
  "stack (scriptWitness (strip t)) = []" "CTxIn_Serialize (strip t) = CTxIn_Serialize t"
  "txin_ok (strip t) = txin_ok t" "strip (strip t) = strip t" "strip (t\<lparr>scriptWitness := w\<rparr>) = strip t"
  by (simp_all add: strip_def CTxIn_Serialize_def txin_ok_def)

lemma strip_eq_iff: "strip t = t \<longleftrightarrow> stack (scriptWitness t) = []"
  by (cases t) (auto simp: strip_def intro: CScriptWitness.equality)

lemma strict_codec_CTxIn:
  "strict_codec CTxIn_Serialize CTxIn_Unserialize (\<lambda>t. txin_ok t \<and> strip t = t)"
proof (rule strict_codecI)
  fix bs x rest
  show "run_list CTxIn_Unserialize bs = (Inr x, rest) \<longleftrightarrow>
      (txin_ok x \<and> strip x = x) \<and> bs = bytes_written (CTxIn_Serialize x) @ rest"
    by (cases x)
      (auto simp: CTxIn_Unserialize_def CTxIn_Serialize_def read_iff write_simps txin_ok_def strip_def)
qed

lemma strict_codec_CTxOut: "strict_codec CTxOut_Serialize CTxOut_Unserialize txout_ok"
proof (rule strict_codecI)
  fix bs x rest
  show "run_list CTxOut_Unserialize bs = (Inr x, rest) \<longleftrightarrow>
      txout_ok x \<and> bs = bytes_written (CTxOut_Serialize x) @ rest"
    by (cases x) (auto simp: CTxOut_Unserialize_def CTxOut_Serialize_def read_iff write_simps txout_ok_def)
qed

interpretation vin: strict_codec "Serialize_vec CTxIn_Serialize" Unserialize_vin
  "vec_ok (\<lambda>t. txin_ok t \<and> strip t = t)"
  unfolding Unserialize_vin_def by (rule strict_codec_vec [OF strict_codec_CTxIn]) simp

interpretation vout: strict_codec "Serialize_vec CTxOut_Serialize" Unserialize_vout "vec_ok txout_ok"
  unfolding Unserialize_vout_def by (rule strict_codec_vec [OF strict_codec_CTxOut]) simp

interpretation stack: strict_codec Serialize_stack Unserialize_stack stack_ok
  unfolding Serialize_stack_def Unserialize_stack_def by (rule strict_codec_vec [OF blob.strict_codec_axioms]) simp

declare strict_codec_iff [OF vin.strict_codec_axioms, read_iff]
declare strict_codec_iff [OF vout.strict_codec_axioms, read_iff]
declare strict_codec_iff [OF stack.strict_codec_axioms, read_iff]

text \<open>The witness part fills the stacks of the inputs read before it.\<close>

definition witness_bytes :: "CTxIn list \<Rightarrow> byte list" where
  "witness_bytes ins = bytes_written (concat (map (\<lambda>t. Serialize_stack (stack (scriptWitness t))) ins))"

lemma witness_bytes_simps [simp]:
  "witness_bytes [] = []"
  "witness_bytes (t # ts) = bytes_written (Serialize_stack (stack (scriptWitness t))) @ witness_bytes ts"
  by (simp_all add: witness_bytes_def)

lemma Unserialize_witnesses_iff [read_iff]:
  "run_list (Unserialize_witnesses ins) bs = (Inr ins', rest) \<longleftrightarrow>
    map strip ins' = map strip ins \<and> (\<forall>t \<in> set ins'. stack_ok (stack (scriptWitness t)))
    \<and> bs = witness_bytes ins' @ rest"
proof (induction ins arbitrary: bs ins')
  case Nil
  then show ?case by auto
next
  case (Cons t ins)
  have "t\<lparr>scriptWitness := (scriptWitness t)\<lparr>stack := s\<rparr>\<rparr> = u \<longleftrightarrow> strip u = strip t \<and> stack (scriptWitness u) = s"
    for u s by (cases t; cases u; cases "scriptWitness u"; cases "scriptWitness t") (auto simp: strip_def)
  then show ?case using Cons.IH
    by (cases ins') (auto simp: read_iff)
qed

definition tx_ok :: "'a CMutableTransaction_scheme \<Rightarrow> bool" where
  "tx_ok tx \<longleftrightarrow> vec_ok (\<lambda>t. txin_ok t \<and> stack_ok (stack (scriptWitness t))) (vin tx) \<and> vec_ok txout_ok (vout tx)"

definition no_witness :: "'a CMutableTransaction_scheme \<Rightarrow> bool" where
  "no_witness tx \<longleftrightarrow> map strip (vin tx) = vin tx"

text \<open>The two formats the comment over the templates describes.\<close>

definition basic_format :: "'a CMutableTransaction_scheme \<Rightarrow> byte list" where
  "basic_format tx =
     le_bytes 4 (nVersion tx) @ bytes_written (Serialize_vec CTxIn_Serialize (vin tx)) @
     bytes_written (Serialize_vec CTxOut_Serialize (vout tx)) @ le_bytes 4 (nLockTime tx)"

definition extended_format :: "'a CMutableTransaction_scheme \<Rightarrow> byte list" where
  "extended_format tx =
     le_bytes 4 (nVersion tx) @ [0x00, 0x01] @ bytes_written (Serialize_vec CTxIn_Serialize (vin tx)) @
     bytes_written (Serialize_vec CTxOut_Serialize (vout tx)) @ witness_bytes (vin tx) @
     le_bytes 4 (nLockTime tx)"

lemma no_witness_iff: "no_witness tx \<longleftrightarrow> (\<forall>t \<in> set (vin tx). stack (scriptWitness t) = [])"
  by (auto simp: no_witness_def strip_eq_iff [symmetric] map_eq_conv intro: map_idI)
    (metis map_eq_conv list.map_ident)

lemma HasWitness_iff: "HasWitness tx \<longleftrightarrow> \<not> no_witness tx"
proof -
  have "HasWitness_loop ts \<longleftrightarrow> (\<exists>t \<in> set ts. stack (scriptWitness t) \<noteq> [])" for ts
    by (induction ts) (auto simp: CScriptWitness_IsNull_def)
  then show ?thesis by (auto simp: HasWitness_def no_witness_iff)
qed

lemma Serialize_vec_strip: "Serialize_vec CTxIn_Serialize (map strip ins) = Serialize_vec CTxIn_Serialize ins"
  by (simp add: Serialize_vec_def comp_def)

lemma vec_Nil_bytes: "bytes_written (Serialize_vec ser []) = [0]"
  by (simp add: Serialize_vec_def WriteCompactSize_def ser_writedata)

lemma byte_flags: "(flags :: byte) XOR 1 = 0 \<longleftrightarrow> flags = 1" "(1 :: byte) AND 1 \<noteq> 0"
  by (auto simp: word_xor_zero_iff)

lemma UnserializeTransaction_basic:
  assumes "tx_ok tx" "no_witness tx" "allow_witness v \<longrightarrow> vin tx \<noteq> [] \<or> vout tx = []"
  shows "run_list (UnserializeTransaction v) (basic_format tx @ rest)
    = (Inr (CMutableTransaction_of tx), rest)"
proof -
  have ok: "vec_ok (\<lambda>t. txin_ok t \<and> strip t = t) (vin tx)" "vec_ok txout_ok (vout tx)"
    using assms(1,2) by (auto simp: tx_ok_def no_witness_iff strip_eq_iff)
  show ?thesis
  proof (cases "vin tx = [] \<and> allow_witness v")
    case True
    then have "vout tx = []" using assms(3) by simp
    moreover have "run_list Unserialize_vin (0 # s) = (Inr [], s)" for s
      using vin.roundtrip [of "[]" s] by (simp add: vec_Nil_bytes)
    ultimately show ?thesis using True
      by (simp add: UnserializeTransaction_def basic_format_def run_simps vec_Nil_bytes Let_def
          CMutableTransaction_of_def)
  next
    case False
    then show ?thesis
      by (auto simp add: UnserializeTransaction_def basic_format_def run_simps Let_def
          vin.roundtrip [OF ok(1)] vout.roundtrip [OF ok(2)] CMutableTransaction_of_def)
  qed
qed

lemma UnserializeTransaction_extended:
  assumes "tx_ok tx" "allow_witness v"
  shows "run_list (UnserializeTransaction v) (extended_format tx @ rest)
    = (Inr (CMutableTransaction_of tx), rest)"
proof -
  have ok: "vec_ok (\<lambda>t. txin_ok t \<and> strip t = t) (map strip (vin tx))" "vec_ok txout_ok (vout tx)"
    using assms(1) by (auto simp: tx_ok_def)
  have vin: "run_list Unserialize_vin (bytes_written (Serialize_vec CTxIn_Serialize (vin tx)) @ s)
      = (Inr (map strip (vin tx)), s)" for s
    using vin.roundtrip [OF ok(1), of s] by (simp add: Serialize_vec_strip)
  have wit: "run_list (Unserialize_witnesses (map strip (vin tx))) (witness_bytes (vin tx) @ s)
      = (Inr (vin tx), s)" for s
    using assms(1) by (auto simp: Unserialize_witnesses_iff tx_ok_def)
  have nil: "run_list Unserialize_vin (0 # s) = (Inr [], s)" for s
    using vin.roundtrip [of "[]" s] by (simp add: vec_Nil_bytes)
  have one: "run_list ser_readdata8 (1 # s) = (Inr 1, s)" for s by (simp add: read_iff)
  show ?thesis using assms(2)
    by (simp add: UnserializeTransaction_def extended_format_def run_simps Let_def nil one vin wit
        vout.roundtrip [OF ok(2)] CMutableTransaction_of_def)
qed

lemma UnserializeTransaction_inv:
  assumes "run_list (UnserializeTransaction v) bs = (Inr tx, rest)"
  shows "tx_ok tx \<and>
    ((no_witness tx \<and> (allow_witness v \<longrightarrow> vin tx \<noteq> [] \<or> vout tx = []) \<and> bs = basic_format tx @ rest)
      \<or> (allow_witness v \<and> bs = extended_format tx @ rest))"
proof -
  let ?mid = "\<lambda>ins0. if ins0 = [] \<and> allow_witness v then
      bindR ser_readdata8 (\<lambda>flags. if flags \<noteq> 0 then
        bindR Unserialize_vin (\<lambda>ins. bindR Unserialize_vout (\<lambda>outs. Return (flags, ins, outs)))
        else Return (flags, ins0, []))
    else bindR Unserialize_vout (\<lambda>outs. Return (0, ins0, outs))"
  let ?wit = "\<lambda>flags ins. if flags AND 1 \<noteq> 0 \<and> allow_witness v then
      bindR (Unserialize_witnesses ins) (\<lambda>ins. Return (flags XOR 1, ins)) else Return (flags, ins)"
  from assms obtain ver b1 ins0 b2 flags ins outs b3 flags' ins' b4
    where steps: "run_list ser_readdata32 bs = (Inr ver, b1)" "run_list Unserialize_vin b1 = (Inr ins0, b2)"
      "run_list (?mid ins0) b2 = (Inr (flags, ins, outs), b3)"
      "run_list (?wit flags ins) b3 = (Inr (flags', ins'), b4)"
      "run_list (if flags' \<noteq> 0 then Throw Unknown_transaction_optional_data
        else bindR ser_readdata32 (\<lambda>lock.
          Return \<lparr>vin = ins', vout = outs, nVersion = ver, nLockTime = lock\<rparr>)) b4 = (Inr tx, rest)"
    unfolding UnserializeTransaction_def Let_def run_bindR_Inr [of _ ser_readdata32 _ bs] run_bindR_Inr [of _ Unserialize_vin]
      run_bindR_Inr [where y = tx] split_paired_Ex prod.case by blast
  obtain lock where end_: "flags' = 0" "b4 = le_bytes 4 lock @ rest"
    "tx = \<lparr>vin = ins', vout = outs, nVersion = ver, nLockTime = lock\<rparr>"
    using steps(5) by (auto simp: read_iff split: if_splits)
  have start: "bs = le_bytes 4 ver @ bytes_written (Serialize_vec CTxIn_Serialize ins0) @ b2"
    "vec_ok (\<lambda>t. txin_ok t \<and> strip t = t) ins0"
    using steps(1,2) by (auto simp: read_iff)
  have mid: "if ins0 = [] \<and> allow_witness v then
        (if flags \<noteq> 0 then
           vec_ok (\<lambda>t. txin_ok t \<and> strip t = t) ins \<and> vec_ok txout_ok outs \<and>
           b2 = flags # bytes_written (Serialize_vec CTxIn_Serialize ins)
             @ bytes_written (Serialize_vec CTxOut_Serialize outs) @ b3
         else ins = [] \<and> outs = [] \<and> b2 = 0 # b3)
      else flags = 0 \<and> ins = ins0 \<and> vec_ok txout_ok outs
        \<and> b2 = bytes_written (Serialize_vec CTxOut_Serialize outs) @ b3"
    using steps(3) by (auto simp: read_iff split: if_splits)
  have wit: "if flags AND 1 \<noteq> 0 \<and> allow_witness v then
        flags = 1 \<and> map strip ins' = map strip ins \<and> (\<forall>t \<in> set ins'. stack_ok (stack (scriptWitness t)))
        \<and> b3 = witness_bytes ins' @ le_bytes 4 lock @ rest
      else flags = 0 \<and> ins' = ins \<and> b3 = le_bytes 4 lock @ rest"
    using steps(4) end_ by (auto simp: read_iff byte_flags split: if_splits)
  show ?thesis
  proof (cases "flags = 0")
    case True
    have "vec_ok (\<lambda>t. txin_ok t \<and> strip t = t) ins" using True mid start by (auto split: if_splits)
    then have "tx_ok tx \<and> no_witness tx" using True mid wit end_
      by (auto simp: tx_ok_def no_witness_iff strip_eq_iff split: if_splits)
    moreover have "bs = basic_format tx @ rest" using True mid wit end_ start
      by (auto simp: basic_format_def vec_Nil_bytes split: if_splits)
    ultimately show ?thesis using True mid wit end_ by (auto split: if_splits)
  next
    case False
    then have allow: "allow_witness v" "ins0 = []" "flags = 1" and len: "length ins' = length ins"
      and strips: "map strip ins' = map strip ins"
      using mid wit by (auto split: if_splits dest: map_eq_imp_length_eq)
    have "txin_ok t" if "t \<in> set ins'" for t
    proof -
      have "strip t \<in> strip ` set ins" using that strips by (metis image_eqI list.set_map)
      then show ?thesis using mid False allow by auto
    qed
    then have "tx_ok tx" using mid wit end_ allow len by (auto simp: tx_ok_def)
    moreover have "bs = extended_format tx @ rest"
      using mid wit end_ start allow Serialize_vec_strip [of ins] Serialize_vec_strip [of ins'] strips
      by (simp add: extended_format_def vec_Nil_bytes)
    ultimately show ?thesis using allow by simp
  qed
qed

lemma CMutableTransaction_of_self: "CMutableTransaction_of tx = (tx :: CMutableTransaction)"
  by (cases tx) (simp add: CMutableTransaction_of_def)

lemma SerializeTransaction_format:
  "bytes_written (SerializeTransaction v tx) =
    (if allow_witness v \<and> HasWitness tx then extended_format tx
     else basic_format tx)"
  by (simp add: SerializeTransaction_def extended_format_def basic_format_def witness_bytes_def Let_def
      vec_Nil_bytes write_simps comp_def)

subsection \<open>Values\<close>

lemma MAX_MONEY_value: "MAX_MONEY = 2100000000000000"
  by (simp add: MAX_MONEY_def COIN_def)

lemma add_signed_money:
  assumes "MoneyRange n"
  shows "MoneyRange t \<Longrightarrow> add_signed n t = Some (n + t) \<and> sint (n + t) = sint n + sint t"
    "add_signed n t = None \<longleftrightarrow> 2 ^ 63 \<le> sint n + sint t"
  using assms sint_ge [of t] sint_lt [of t]
  by (auto simp: add_signed_def MoneyRange_def sint_word_add signed_take_bit_int_eq_self MAX_MONEY_value)

lemma GetValueOut_loop_iff:
  "MoneyRange n \<Longrightarrow> GetValueOut_loop outs n = Some (Inr v) \<longleftrightarrow>
    (\<forall>t \<in> set outs. MoneyRange (nValue t)) \<and> sint n + (\<Sum>t\<leftarrow>outs. sint (nValue t)) \<le> MAX_MONEY
    \<and> sint v = sint n + (\<Sum>t\<leftarrow>outs. sint (nValue t))"
proof (induction outs arbitrary: n)
  case Nil
  have "n = v" if "sint v = sint n" using that by (metis uint_sint word_uint_eq_iff)
  with Nil show ?case by (auto simp: MoneyRange_def)
next
  case (Cons t outs)
  show ?case
  proof (cases "MoneyRange (nValue t)")
    case True
    note sum = add_signed_money(1) [OF Cons.prems True]
    have nonneg: "0 \<le> (\<Sum>t\<leftarrow>outs. sint (nValue t))" if "\<forall>t \<in> set outs. MoneyRange (nValue t)"
      using that by (intro sum_list_nonneg) (auto simp: MoneyRange_def)
    show ?thesis
    proof (cases "MoneyRange (n + nValue t)")
      case T: True
      then show ?thesis using Cons.IH [OF T] True sum by (simp add: add.assoc)
    next
      case False
      then have "\<not> sint n + sint (nValue t) \<le> MAX_MONEY"
        using sum True Cons.prems by (simp add: MoneyRange_def)
      then show ?thesis using False nonneg sum by fastforce
    qed
  qed (simp split: option.splits)
qed

text \<open>The addition overflows at an output whose value is out of range, behind outputs that are in range.\<close>

definition overflows_at :: "CAmount \<Rightarrow> CTxOut list \<Rightarrow> CTxOut \<Rightarrow> bool" where
  "overflows_at n before t \<longleftrightarrow>
     (\<forall>t' \<in> set before. MoneyRange (nValue t')) \<and> sint n + (\<Sum>t'\<leftarrow>before. sint (nValue t')) \<le> MAX_MONEY
     \<and> 2 ^ 63 \<le> sint n + (\<Sum>t'\<leftarrow>before. sint (nValue t')) + sint (nValue t)"

lemma overflows_at_Cons:
  assumes "MoneyRange n" "MoneyRange (nValue t)"
  shows "overflows_at n (t # before) t' \<longleftrightarrow> MoneyRange (n + nValue t) \<and> overflows_at (n + nValue t) before t'"
proof -
  note sum = add_signed_money(1) [OF assms]
  have "0 \<le> (\<Sum>t\<leftarrow>before. sint (nValue t))" if "\<forall>t \<in> set before. MoneyRange (nValue t)"
    using that by (intro sum_list_nonneg) (auto simp: MoneyRange_def)
  then show ?thesis using assms sum by (fastforce simp: overflows_at_def MoneyRange_def add.assoc)
qed

lemma GetValueOut_loop_undefined:
  "MoneyRange n \<Longrightarrow> GetValueOut_loop outs n = None \<longleftrightarrow> (\<exists>before t after. outs = before @ t # after \<and> overflows_at n before t)"
proof (induction outs arbitrary: n)
  case (Cons t outs)
  have split_off: "(\<exists>before t' after. t # outs = before @ t' # after \<and> overflows_at n before t')
      \<longleftrightarrow> overflows_at n [] t \<or> (\<exists>before t' after. outs = before @ t' # after \<and> overflows_at n (t # before) t')"
    by (auto simp: Cons_eq_append_conv)
  have first: "overflows_at n [] t \<longleftrightarrow> add_signed n (nValue t) = None"
    using Cons.prems by (simp add: overflows_at_def add_signed_money(2) MoneyRange_def)
  show ?case
  proof (cases "MoneyRange (nValue t)")
    case True
    note sum = add_signed_money(1) [OF Cons.prems True]
    show ?thesis
      unfolding split_off first overflows_at_Cons [OF Cons.prems True]
      using Cons.IH [of "n + nValue t"] sum True by (cases "MoneyRange (n + nValue t)") auto
  next
    case False
    then have "\<not> overflows_at n (t # before) t'" for before t' by (auto simp: overflows_at_def)
    then show ?thesis unfolding split_off first using False by (auto split: option.splits)
  qed
qed simp

subsection \<open>Properties\<close>

text \<open>(C9) \<^verbatim>\<open>UnserializeTransaction\<close> accepts exactly the two formats its comment describes, and reads from them the
  transaction they are the format of: the basic one, without witnesses (on a witness-enabled stream an
  empty input list only with an empty output list, since it is taken for the marker), and, if the stream
  allows witnesses, the extended one.\<close>

theorem UnserializeTransaction_iff:
  "run_list (UnserializeTransaction v) bs = (Inr tx, rest) \<longleftrightarrow>
    tx_ok tx \<and>
    ((no_witness tx \<and> \<not> (allow_witness v \<and> vin tx = [] \<and> vout tx \<noteq> []) \<and> bs = basic_format tx @ rest)
      \<or> (allow_witness v \<and> bs = extended_format tx @ rest))"
  using UnserializeTransaction_inv [of v bs tx rest] UnserializeTransaction_basic [of tx v rest]
    UnserializeTransaction_extended [of tx v rest]
  by (auto simp: CMutableTransaction_of_self)

lemma transaction_roundtrip:
  assumes "tx_ok tx" "vin tx \<noteq> [] \<or> vout tx = []"
  shows "run_list (UnserializeTransaction v) (bytes_written (SerializeTransaction v tx) @ rest)
    = (Inr (CMutableTransaction_of tx \<lparr>vin := if allow_witness v then vin tx else map strip (vin tx)\<rparr>), rest)"
proof (cases "allow_witness v")
  case True
  then show ?thesis using assms UnserializeTransaction_basic [of tx v] UnserializeTransaction_extended [of tx v]
    by (simp add: SerializeTransaction_format HasWitness_iff CMutableTransaction_of_def)
next
  case False
  let ?t = "tx\<lparr>vin := map strip (vin tx)\<rparr>"
  have "basic_format tx = basic_format ?t" by (simp add: basic_format_def Serialize_vec_strip)
  moreover have "tx_ok ?t" "no_witness ?t" using assms by (auto simp: tx_ok_def no_witness_def)
  ultimately show ?thesis using False UnserializeTransaction_basic [of ?t v rest]
    by (simp add: SerializeTransaction_format CMutableTransaction_of_def)
qed

text \<open>(C20) A transaction that has an input, or neither inputs nor outputs, is read back from what was written of it,
  whatever follows: in full when the version of the stream allows witnesses, and with its witness stacks
  emptied when it does not. (Outputs without inputs are taken for the marker of the extended format where
  witnesses are allowed.) The lengths of its vectors and scripts are below the limit of the streams and its
  hashes have 32 bytes.\<close>

theorem SerializeTransaction_roundtrip:
  assumes "tx_ok tx" "vin tx \<noteq> [] \<or> vout tx = []"
  shows "run_list (UnserializeTransaction v) (bytes_written (SerializeTransaction v tx) @ rest)
    = (Inr (CMutableTransaction_of tx \<lparr>vin := if allow_witness v then vin tx else map strip (vin tx)\<rparr>), rest)"
  using assms by (rule transaction_roundtrip)

definition sample_tx :: CMutableTransaction where
  "sample_tx =
     \<lparr>vin = [\<lparr>prevout = \<lparr>op_hash = base_blob_new 32, op_n = 1\<rparr>, scriptSig = [0x51], nSequence = SEQUENCE_FINAL,
        scriptWitness = \<lparr>stack = [[0xaa], []]\<rparr>\<rparr>],
      vout = [\<lparr>nValue = 5, scriptPubKey = [0x6a]\<rparr>], nVersion = 2, nLockTime = 0\<rparr>"

lemma tx_ok_sample: "tx_ok sample_tx"
  by (simp add: tx_ok_def sample_tx_def txin_ok_def txout_ok_def blob_ok_def base_blob_new_def max_size_eq)

lemma allow_witness_0: "allow_witness 0" "\<not> allow_witness SERIALIZE_TRANSACTION_NO_WITNESS"
  by (simp_all add: allow_witness_def SERIALIZE_TRANSACTION_NO_WITNESS_def)

theorem SerializeTransaction_roundtrip_witness:
  "run_list (UnserializeTransaction 0) (bytes_written (SerializeTransaction 0 sample_tx) @ [7])
    = (Inr sample_tx, [7])"
  using SerializeTransaction_roundtrip [OF tx_ok_sample, of 0 "[7]"]
  by (simp add: allow_witness_0 CMutableTransaction_of_self) (simp add: sample_tx_def)

text \<open>The identifier of a transaction does not depend on its witnesses: it is the double digest of the basic
  format. Without witnesses the witness hash is the identifier, and with them it is the double digest of the
  extended format.\<close>

theorem transaction_hashes:
  assumes "computes m sha ripemd"
  shows "tx_hash (CTransaction_of m tx) = Blob (sha (sha (basic_format tx)))
    \<and> CMutableTransaction_GetHash m tx = tx_hash (CTransaction_of m tx)
    \<and> m_witness_hash (CTransaction_of m tx)
      = Blob (sha (sha (if no_witness tx then basic_format tx else extended_format tx)))"
proof -
  have fields: "basic_format (CTransaction_of m tx) = basic_format tx" for m :: "('s, 'r) mbedtls" and tx
    by (simp add: basic_format_def CTransaction_of_def Let_def)
  show ?thesis using assms
    by (auto simp: CTransaction_of_def Let_def ComputeHash_def ComputeWitnessHash_def
        CMutableTransaction_GetHash_def SerializeHash_eq Hash_range_eq SerializeTransaction_format
        allow_witness_0 HasWitness_iff no_witness_def basic_format_def extended_format_def)
qed

theorem transaction_hashes_witness:
  "tx_hash (CTransaction_of buffering sample_tx) = tx_hash (CTransaction_of buffering
     (sample_tx\<lparr>vin := map strip (vin sample_tx)\<rparr>))"
  using transaction_hashes [OF computes_buffering, of sample_tx]
    transaction_hashes [OF computes_buffering, of "sample_tx\<lparr>vin := map strip (vin sample_tx)\<rparr>"]
  by (simp add: basic_format_def Serialize_vec_strip)

text \<open>(C36) \<^verbatim>\<open>GetValueOut\<close> returns exactly when every output is in the money range and so is their true sum, and then
  returns that sum. Its signed addition overflows, which is undefined, exactly when an output is so large
  that with the outputs before it, all in range, 64 bits do not hold the sum: the addition comes before the
  check. In all other cases it throws.\<close>

theorem GetValueOut_iff:
  "(GetValueOut tx = Some (Inr v) \<longleftrightarrow>
      (\<forall>t \<in> set (vout tx). MoneyRange (nValue t))
      \<and> (\<Sum>t\<leftarrow>vout tx. sint (nValue t)) \<le> MAX_MONEY \<and> sint v = (\<Sum>t\<leftarrow>vout tx. sint (nValue t)))
    \<and> (GetValueOut tx = None \<longleftrightarrow>
      (\<exists>before t after. vout tx = before @ t # after \<and> (\<forall>t' \<in> set before. MoneyRange (nValue t'))
        \<and> (\<Sum>t'\<leftarrow>before. sint (nValue t')) \<le> MAX_MONEY \<and> 2 ^ 63 \<le> (\<Sum>t'\<leftarrow>before. sint (nValue t')) + sint (nValue t)))"
proof -
  have "MoneyRange 0" by (simp add: MoneyRange_def MAX_MONEY_value)
  from GetValueOut_loop_iff [OF this, of "vout tx" v] GetValueOut_loop_undefined [OF this, of "vout tx"]
  show ?thesis by (simp add: GetValueOut_def overflows_at_def)
qed

theorem GetValueOut_iff_witness:
  "GetValueOut (sample_tx\<lparr>vout := [\<lparr>nValue = 5, scriptPubKey = []\<rparr>, \<lparr>nValue = 7, scriptPubKey = []\<rparr>]\<rparr>) = Some (Inr 12)
    \<and> GetValueOut (sample_tx\<lparr>vout := [\<lparr>nValue = 2100000000000000, scriptPubKey = []\<rparr>,
        \<lparr>nValue = 0x7fffffffffffffff, scriptPubKey = []\<rparr>]\<rparr>) = None"
proof
  show "GetValueOut (sample_tx\<lparr>vout := [\<lparr>nValue = 5, scriptPubKey = []\<rparr>, \<lparr>nValue = 7, scriptPubKey = []\<rparr>]\<rparr>) = Some (Inr 12)"
    by (subst GetValueOut_iff [THEN conjunct1]) (simp add: MoneyRange_def MAX_MONEY_value)
  let ?big = "[\<lparr>nValue = 2100000000000000, scriptPubKey = []\<rparr>] @ \<lparr>nValue = 0x7fffffffffffffff, scriptPubKey = []\<rparr> # []"
  have "GetValueOut (sample_tx\<lparr>vout := ?big\<rparr>) = None"
    by (subst GetValueOut_iff [THEN conjunct2], intro exI [of _ "[\<lparr>nValue = 2100000000000000, scriptPubKey = []\<rparr>]"]
        exI [of _ "\<lparr>nValue = 0x7fffffffffffffff, scriptPubKey = []\<rparr>"] exI [of _ "[]"])
      (simp add: MoneyRange_def MAX_MONEY_value)
  then show "GetValueOut (sample_tx\<lparr>vout := [\<lparr>nValue = 2100000000000000, scriptPubKey = []\<rparr>,
        \<lparr>nValue = 0x7fffffffffffffff, scriptPubKey = []\<rparr>]\<rparr>) = None" by simp
qed

end
