(* ===== verification/Block.thy ===== *)
theory Block
  imports Transaction
begin

section \<open>Blocks: block.h, block.cpp\<close>

text \<open>
  Headers, blocks and locators with their serialisers. A block extends its header; a
  \<^verbatim>\<open>CTransactionRef\<close> is the transaction it points to. The locator's stream says whether it is
  hashing, so its type is an argument beside its version.
\<close>

record CBlockHeader =
  bh_nVersion :: u32
  hashPrevBlock :: uint256
  hashMerkleRoot :: uint256
  nTime :: u32
  nBits :: u32
  nNonce :: u32

record CBlock = CBlockHeader +
  vtx :: "CTransaction list"
  fChecked :: bool

definition CBlockHeader_SetNull :: "'a CBlockHeader_scheme \<Rightarrow> 'a CBlockHeader_scheme" where
  "CBlockHeader_SetNull b =
     b\<lparr>bh_nVersion := 0, hashPrevBlock := base_blob_SetNull (hashPrevBlock b),
       hashMerkleRoot := base_blob_SetNull (hashMerkleRoot b), nTime := 0, nBits := 0, nNonce := 0\<rparr>"

definition CBlockHeader_IsNull :: "'a CBlockHeader_scheme \<Rightarrow> bool" where
  "CBlockHeader_IsNull b \<longleftrightarrow> nBits b = 0"

definition CBlockHeader_GetBlockTime :: "'a CBlockHeader_scheme \<Rightarrow> u64" where
  "CBlockHeader_GetBlockTime b = ucast (nTime b)"

definition CBlockHeader_Serialize :: "'a CBlockHeader_scheme \<Rightarrow> wop list" where
  "CBlockHeader_Serialize b =
     [Write (ser_writedata32 (bh_nVersion b))] @ base_blob_Serialize (hashPrevBlock b) @
     base_blob_Serialize (hashMerkleRoot b) @
     [Write (ser_writedata32 (nTime b)), Write (ser_writedata32 (nBits b)), Write (ser_writedata32 (nNonce b))]"

definition CBlockHeader_Unserialize :: "CBlockHeader reader" where
  "CBlockHeader_Unserialize =
     bindR ser_readdata32 (\<lambda>ver. bindR (base_blob_Unserialize 32) (\<lambda>prev.
     bindR (base_blob_Unserialize 32) (\<lambda>merkle. bindR ser_readdata32 (\<lambda>time.
     bindR ser_readdata32 (\<lambda>bits. bindR ser_readdata32 (\<lambda>nonce.
       Return \<lparr>bh_nVersion = ver, hashPrevBlock = prev, hashMerkleRoot = merkle, nTime = time,
               nBits = bits, nNonce = nonce\<rparr>))))))"

definition CBlockHeader_GetHash :: "('s, 'r) mbedtls \<Rightarrow> 'a CBlockHeader_scheme \<Rightarrow> uint256" where
  "CBlockHeader_GetHash m b =
     SerializeHash m (CBlockHeader_Serialize b) SER_GETHASH PROTOCOL_VERSION"

definition CBlock_SetNull :: "CBlock \<Rightarrow> CBlock" where
  "CBlock_SetNull b = (CBlockHeader_SetNull b)\<lparr>vtx := [], fChecked := False\<rparr>"

definition CBlock_of_header :: "CBlockHeader \<Rightarrow> CBlock" where
  "CBlock_of_header h = CBlockHeader.extend h \<lparr>vtx = [], fChecked = False\<rparr>"

definition CBlock_GetBlockHeader :: "CBlock \<Rightarrow> CBlockHeader" where
  "CBlock_GetBlockHeader b =
     \<lparr>bh_nVersion = bh_nVersion b, hashPrevBlock = hashPrevBlock b, hashMerkleRoot = hashMerkleRoot b,
      nTime = nTime b, nBits = nBits b, nNonce = nNonce b\<rparr>"

text \<open>A shared pointer is 16 bytes long.\<close>

definition CTransactionRef_Serialize :: "int \<Rightarrow> CTransaction \<Rightarrow> wop list" where
  "CTransactionRef_Serialize version p = SerializeTransaction version p"

definition CTransactionRef_Unserialize :: "('s, 'r) mbedtls \<Rightarrow> int \<Rightarrow> CTransaction reader" where
  "CTransactionRef_Unserialize m version = CTransaction_deserialize m version"

definition CBlock_Serialize :: "int \<Rightarrow> CBlock \<Rightarrow> wop list" where
  "CBlock_Serialize version b =
     CBlockHeader_Serialize b @ Serialize_vec (CTransactionRef_Serialize version) (vtx b)"

definition CBlock_Unserialize :: "('s, 'r) mbedtls \<Rightarrow> int \<Rightarrow> CBlock \<Rightarrow> CBlock reader" where
  "CBlock_Unserialize m version b =
     bindR CBlockHeader_Unserialize (\<lambda>h.
     bindR (Unserialize_vec 16 (CTransactionRef_Unserialize m version)) (\<lambda>txs.
       Return (CBlockHeader.extend h \<lparr>vtx = txs, fChecked = fChecked b\<rparr>)))"

record CBlockLocator =
  vHave :: "uint256 list"

definition CBlockLocator_Serialize :: "int \<Rightarrow> u32 \<Rightarrow> CBlockLocator \<Rightarrow> wop list" where
  "CBlockLocator_Serialize type version l =
     (if \<not> (type AND SER_GETHASH \<noteq> 0) then [Write (ser_writedata32 version)] else []) @
     Serialize_vec base_blob_Serialize (vHave l)"

definition CBlockLocator_Unserialize :: "int \<Rightarrow> CBlockLocator reader" where
  "CBlockLocator_Unserialize type =
     bindR (if \<not> (type AND SER_GETHASH \<noteq> 0) then bindR ser_readdata32 (\<lambda>nVersion. Return ()) else Return ())
       (\<lambda>_. bindR (Unserialize_vec 32 (base_blob_Unserialize 32)) (\<lambda>v. Return \<lparr>vHave = v\<rparr>))"

definition CBlockLocator_SetNull :: "CBlockLocator \<Rightarrow> CBlockLocator" where
  "CBlockLocator_SetNull l = l\<lparr>vHave := []\<rparr>"

definition CBlockLocator_IsNull :: "CBlockLocator \<Rightarrow> bool" where
  "CBlockLocator_IsNull l \<longleftrightarrow> vHave l = []"

subsection \<open>The codecs\<close>

definition header_ok :: "'a CBlockHeader_scheme \<Rightarrow> bool" where
  "header_ok b \<longleftrightarrow> blob_ok 32 (hashPrevBlock b) \<and> blob_ok 32 (hashMerkleRoot b)"

interpretation header: strict_codec CBlockHeader_Serialize CBlockHeader_Unserialize header_ok
proof (rule strict_codecI)
  fix bs rest and x :: CBlockHeader
  show "run_list CBlockHeader_Unserialize bs = (Inr x, rest) \<longleftrightarrow>
      header_ok x \<and> bs = bytes_written (CBlockHeader_Serialize x) @ rest"
    by (cases x) (auto simp: CBlockHeader_Unserialize_def CBlockHeader_Serialize_def read_iff write_simps
        header_ok_def)
qed

text \<open>A transaction object whose cached hashes are right, and that its stream can carry.\<close>

definition tx_carried :: "('s, 'r) mbedtls \<Rightarrow> int \<Rightarrow> CTransaction \<Rightarrow> bool" where
  "tx_carried m v tx \<longleftrightarrow>
     tx_ok tx \<and> (vin tx \<noteq> [] \<or> vout tx = []) \<and> (allow_witness v \<or> no_witness tx)
     \<and> tx = CTransaction_of m (CMutableTransaction_of tx)"

lemma codec_CTransactionRef:
  "codec (CTransactionRef_Serialize v) (CTransactionRef_Unserialize m v) (tx_carried m v)"
proof
  fix tx rest
  assume tx: "tx_carried m v tx"
  then have "(CMutableTransaction_of tx)\<lparr>vin := if allow_witness v then vin tx else map strip (vin tx)\<rparr>
      = CMutableTransaction_of tx"
    by (auto simp: tx_carried_def no_witness_def CMutableTransaction_of_def)
  then show "run_list (CTransactionRef_Unserialize m v)
      (bytes_written (CTransactionRef_Serialize v tx) @ rest) = (Inr tx, rest)"
    using transaction_roundtrip [of tx v rest] tx
    by (simp add: CTransactionRef_Unserialize_def CTransactionRef_Serialize_def CTransaction_deserialize_def
        run_simps tx_carried_def)
qed

lemma codec_locator:
  assumes "vec_ok (blob_ok 32) (vHave l)"
  shows "run_list (CBlockLocator_Unserialize t) (bytes_written (CBlockLocator_Serialize t v l) @ rest) = (Inr l, rest)"
  using codec.roundtrip [OF strict_codec.axioms(1) [OF strict_codec_vec [OF base_blob_codec [of 32], of 32]], OF _ assms]
  by (simp add: CBlockLocator_Unserialize_def CBlockLocator_Serialize_def run_simps write_simps)

lemma header_length: "header_ok b \<Longrightarrow> length (bytes_written (CBlockHeader_Serialize b)) = 80"
  by (simp add: CBlockHeader_Serialize_def write_simps base_blob_Serialize_def header_ok_def blob_ok_def)

lemma block_read:
  assumes "header_ok b" "vec_ok (tx_carried m v) (vtx b)" "fChecked b0 = fChecked b"
  shows "run_list (CBlock_Unserialize m v b0) (bytes_written (CBlock_Serialize v b) @ rest) = (Inr b, rest)"
proof -
  have txs: "run_list (Unserialize_vec 16 (CTransactionRef_Unserialize m v))
      (bytes_written (Serialize_vec (CTransactionRef_Serialize v) (vtx b)) @ rest) = (Inr (vtx b), rest)"
    using assms(2) by (intro codec.roundtrip [OF codec_vec [OF codec_CTransactionRef]]) simp_all
  have "header_ok (CBlock_GetBlockHeader b)"
    and ser: "CBlockHeader_Serialize (CBlock_GetBlockHeader b) = CBlockHeader_Serialize b"
    using assms(1) by (simp_all add: CBlock_GetBlockHeader_def header_ok_def CBlockHeader_Serialize_def)
  from header.roundtrip [OF this(1)]
  have "run_list CBlockHeader_Unserialize (bytes_written (CBlockHeader_Serialize b) @ s)
      = (Inr (CBlock_GetBlockHeader b), s)" for s by (simp add: ser)
  moreover have "CBlockHeader.extend (CBlock_GetBlockHeader b) \<lparr>vtx = vtx b, fChecked = fChecked b\<rparr> = b"
    by (cases b) (simp add: CBlock_GetBlockHeader_def CBlockHeader.extend_def)
  ultimately show ?thesis
    using assms(3) txs by (simp add: CBlock_Unserialize_def CBlock_Serialize_def run_simps)
qed

text \<open>A transaction object that is well formed and whose cached hashes are right.\<close>

definition tx_hashed :: "('s, 'r) mbedtls \<Rightarrow> CTransaction \<Rightarrow> bool" where
  "tx_hashed m tx \<longleftrightarrow> tx_ok tx \<and> tx = CTransaction_of m (CMutableTransaction_of tx)"

lemma tx_read_hashed:
  assumes "run_list (CTransactionRef_Unserialize m v) bs = (Inr tx, rest)"
  shows "tx_hashed m tx"
proof -
  obtain t where t: "run_list (UnserializeTransaction v) bs = (Inr t, rest)" "tx = CTransaction_of m t"
    using assms by (auto simp: CTransactionRef_Unserialize_def CTransaction_deserialize_def run_simps split: prod.splits sum.splits)
  have "tx_ok t" using UnserializeTransaction_inv [OF t(1)] by simp
  then show ?thesis unfolding t(2)
    by (auto simp: tx_hashed_def tx_ok_def CTransaction_of_def Let_def CMutableTransaction_of_def)
qed

subsection \<open>Properties\<close>

text \<open>(C21) A block that a stream can carry is read back from what was written of it, with its transactions and their
  hashes, whatever follows: 80 bytes of header, the number of transactions, the transactions. Every
  transaction must have an input or no outputs, carry witnesses only if the version of the stream allows
  them, and cache its own hashes. The hash of the block is the double digest of those first 80 bytes and
  depends on nothing else.\<close>

theorem CBlock_roundtrip:
  assumes "header_ok b" "vec_ok (tx_carried m v) (vtx b)" "fChecked b0 = fChecked b"
    and "computes m sha ripemd"
  shows "run_list (CBlock_Unserialize m v b0) (bytes_written (CBlock_Serialize v b) @ rest) = (Inr b, rest)
    \<and> CBlockHeader_GetHash m b = Blob (sha (sha (take 80 (bytes_written (CBlock_Serialize v b)))))"
proof
  show "run_list (CBlock_Unserialize m v b0) (bytes_written (CBlock_Serialize v b) @ rest) = (Inr b, rest)"
    by (rule block_read [OF assms(1-3)])
  show "CBlockHeader_GetHash m b = Blob (sha (sha (take 80 (bytes_written (CBlock_Serialize v b)))))"
    using header_length [OF assms(1)]
    by (simp add: CBlockHeader_GetHash_def SerializeHash_eq [OF assms(4)] Hash_range_eq [OF assms(4)]
        CBlock_Serialize_def)
qed

definition sample_block :: CBlock where
  "sample_block =
     \<lparr>bh_nVersion = 2, hashPrevBlock = base_blob_new 32, hashMerkleRoot = base_blob_new 32, nTime = 7,
      nBits = 8, nNonce = 9, vtx = [CTransaction_of buffering sample_tx], fChecked = False\<rparr>"

lemma tx_carried_sample: "allow_witness v \<Longrightarrow> tx_carried buffering v (CTransaction_of buffering sample_tx)"
proof -
  let ?t = "CTransaction_of buffering sample_tx"
  have t: "tx_ok ?t" "vin ?t \<noteq> []" "CMutableTransaction_of ?t = sample_tx"
    using tx_ok_sample
    by (auto simp: tx_ok_def CTransaction_of_def Let_def sample_tx_def CMutableTransaction_of_def)
  then show "allow_witness v \<Longrightarrow> tx_carried buffering v ?t" by (simp add: tx_carried_def)
qed

theorem CBlock_roundtrip_witness:
  "fst (run_list (CBlock_Unserialize buffering 0 sample_block)
     (bytes_written (CBlock_Serialize 0 sample_block) @ [])) = Inr sample_block"
  using tx_carried_sample [OF allow_witness_0(1)] CBlock_roundtrip [OF _ _ refl computes_buffering, of sample_block 0 "[]"]
  by (simp add: sample_block_def header_ok_def blob_ok_def base_blob_new_def max_size_eq)

text \<open>(C22) Every block that is read, from whatever bytes, is well formed: its hashes are 32 bytes long, it has no
  more transactions, and they no more inputs, outputs and script bytes, than \<^verbatim>\<open>MAX_SIZE\<close>, every transaction
  object caches its own two hashes, and the hash of the block is the double digest of the first 80 bytes
  that were read.\<close>

theorem CBlock_Unserialize_typed:
  assumes "run_list (CBlock_Unserialize m v b0) bs = (Inr b, rest)" "computes m sha ripemd"
  shows "header_ok b \<and> vec_ok (tx_hashed m) (vtx b) \<and> fChecked b = fChecked b0
    \<and> take 80 bs = bytes_written (CBlockHeader_Serialize b)
    \<and> CBlockHeader_GetHash m b = Blob (sha (sha (take 80 bs)))"
proof -
  obtain h bs' where h: "run_list CBlockHeader_Unserialize bs = (Inr h, bs')"
    and txs: "run_list (Unserialize_vec 16 (CTransactionRef_Unserialize m v)) bs' = (Inr (vtx b), rest)"
    and b: "b = CBlockHeader.extend h \<lparr>vtx = vtx b, fChecked = fChecked b0\<rparr>"
    using assms(1) by (auto simp: CBlock_Unserialize_def run_simps CBlockHeader.extend_def split: prod.splits sum.splits)
  have "header_ok h" "bs = bytes_written (CBlockHeader_Serialize h) @ bs'" using header.canonical [OF h] by simp_all
  moreover have "header_ok b = header_ok h" "CBlockHeader_Serialize b = CBlockHeader_Serialize h" "fChecked b = fChecked b0"
    by (subst b, simp add: header_ok_def CBlockHeader_Serialize_def CBlockHeader.extend_def)+
  moreover have "vec_ok (tx_hashed m) (vtx b)" using vec_all [OF txs, of "tx_hashed m"] tx_read_hashed by fastforce
  ultimately show ?thesis using header_length [of h]
    by (simp add: CBlockHeader_GetHash_def SerializeHash_eq [OF assms(2)] Hash_range_eq [OF assms(2)])
qed
theorem CBlock_Unserialize_typed_witness:
  "tx_hashed buffering (CTransaction_of buffering sample_tx)
    \<and> take 80 (bytes_written (CBlock_Serialize 0 sample_block)) = bytes_written (CBlockHeader_Serialize sample_block)"
proof -
  have "header_ok sample_block" "vec_ok (tx_carried buffering 0) (vtx sample_block)"
    using tx_carried_sample [OF allow_witness_0(1)]
    by (simp_all add: sample_block_def header_ok_def blob_ok_def base_blob_new_def max_size_eq)
  note read = block_read [OF this refl, of "[]"]
  note typed = CBlock_Unserialize_typed [OF read computes_buffering]
  have "CTransaction_of buffering sample_tx \<in> set (vtx sample_block)" by (simp add: sample_block_def)
  then have "tx_hashed buffering (CTransaction_of buffering sample_tx)" using typed by blast
  then show ?thesis using typed by simp
qed

end
