(* ===== verification/Base58.thy ===== *)
theory Base58
  imports Script
begin

section \<open>Base 58: base58.h, base58.cpp\<close>

text \<open>
  Conversion of big-endian digits between the bases 256 and 58 in a vector of estimated size, and the
  four-byte checksum. The loops run over the vector from its end, so it is kept as the list of its
  elements from the last to the first. A failed \<^verbatim>\<open>assert(carry == 0)\<close>, and a size that does not fit
  an \<^verbatim>\<open>int\<close>, is the value \<open>None\<close>.
\<close>

definition pszBase58 :: string where
  "pszBase58 = ''123456789ABCDEFGHJKLMNPQRSTUVWXYZabcdefghijkmnopqrstuvwxyz''"

definition mapBase58 :: "int list" where
  "mapBase58 = [
    -1, -1, -1, -1, -1, -1, -1, -1, -1, -1, -1, -1, -1, -1, -1, -1,
    -1, -1, -1, -1, -1, -1, -1, -1, -1, -1, -1, -1, -1, -1, -1, -1,
    -1, -1, -1, -1, -1, -1, -1, -1, -1, -1, -1, -1, -1, -1, -1, -1,
    -1, 0, 1, 2, 3, 4, 5, 6, 7, 8, -1, -1, -1, -1, -1, -1,
    -1, 9, 10, 11, 12, 13, 14, 15, 16, -1, 17, 18, 19, 20, 21, -1,
    22, 23, 24, 25, 26, 27, 28, 29, 30, 31, 32, -1, -1, -1, -1, -1,
    -1, 33, 34, 35, 36, 37, 38, 39, 40, 41, 42, 43, -1, 44, 45, 46,
    47, 48, 49, 50, 51, 52, 53, 54, 55, 56, 57, -1, -1, -1, -1, -1,
    -1, -1, -1, -1, -1, -1, -1, -1, -1, -1, -1, -1, -1, -1, -1, -1,
    -1, -1, -1, -1, -1, -1, -1, -1, -1, -1, -1, -1, -1, -1, -1, -1,
    -1, -1, -1, -1, -1, -1, -1, -1, -1, -1, -1, -1, -1, -1, -1, -1,
    -1, -1, -1, -1, -1, -1, -1, -1, -1, -1, -1, -1, -1, -1, -1, -1,
    -1, -1, -1, -1, -1, -1, -1, -1, -1, -1, -1, -1, -1, -1, -1, -1,
    -1, -1, -1, -1, -1, -1, -1, -1, -1, -1, -1, -1, -1, -1, -1, -1,
    -1, -1, -1, -1, -1, -1, -1, -1, -1, -1, -1, -1, -1, -1, -1, -1,
    -1, -1, -1, -1, -1, -1, -1, -1, -1, -1, -1, -1, -1, -1, -1, -1]"

text \<open>One pass \<^verbatim>\<open>v = v * mul + carry\<close> over the digits in base \<^verbatim>\<open>dv\<close>: the vector, the carry left and \<^verbatim>\<open>i\<close>.\<close>

fun carry_pass :: "nat \<Rightarrow> nat \<Rightarrow> nat \<Rightarrow> nat \<Rightarrow> nat \<Rightarrow> byte list \<Rightarrow> byte list \<times> nat \<times> nat" where
  "carry_pass mul dv carry i len [] = ([], carry, i)"
| "carry_pass mul dv carry i len (d # ds) =
     (if carry \<noteq> 0 \<or> i < len then
        let carry = carry + mul * unat d;
            (ds', carry', i') = carry_pass mul dv (carry div dv) (i + 1) len ds
        in (of_nat (carry mod dv) # ds', carry', i')
      else (d # ds, carry, i))"

definition int_size :: "nat \<Rightarrow> nat asserting" where
  "int_size n = (let size = of_nat n :: u32 in if sint size < 0 then None else Some (unat size))"

fun EncodeBase58_loop :: "byte list \<Rightarrow> byte list \<Rightarrow> nat \<Rightarrow> (byte list \<times> nat) asserting" where
  "EncodeBase58_loop [] b58 len = Some (b58, len)"
| "EncodeBase58_loop (b # bs) b58 len =
     (let (b58, carry, i) = carry_pass 256 58 (unat b) 0 len b58 in
      if carry \<noteq> 0 then None else EncodeBase58_loop bs b58 i)"

definition EncodeBase58 :: "byte list \<Rightarrow> string asserting" where
  "EncodeBase58 bs =
     (let zeroes = length (takeWhile (\<lambda>b. b = 0) bs);
          bs = dropWhile (\<lambda>b. b = 0) bs in
      Option.bind (int_size (length bs * 138 div 100 + 1)) (\<lambda>size.
      Option.bind (EncodeBase58_loop bs (replicate size 0) 0) (\<lambda>(b58, len).
        let it = dropWhile (\<lambda>d. d = 0) (drop (size - len) (rev b58)) in
        Some (replicate zeroes CHR ''1'' @ map (\<lambda>d. pszBase58 ! unat d) it))))"

fun DecodeBase58_loop :: "string \<Rightarrow> byte list \<Rightarrow> nat \<Rightarrow> (string \<times> byte list \<times> nat) option asserting" where
  "DecodeBase58_loop [] b256 len = Some (Some ([], b256, len))"
| "DecodeBase58_loop (c # psz) b256 len =
     (if IsSpace c then Some (Some (c # psz, b256, len))
      else
        let carry = mapBase58 ! code c in
        if carry = -1 then Some None
        else
          let (b256, carry, i) = carry_pass 58 256 (nat carry) 0 len b256 in
          if carry \<noteq> 0 then None else DecodeBase58_loop psz b256 i)"

definition DecodeBase58 :: "string \<Rightarrow> byte list option asserting" where
  "DecodeBase58 psz =
     (let psz = dropWhile IsSpace psz;
          zeroes = length (takeWhile (\<lambda>c. c = CHR ''1'') psz);
          psz = dropWhile (\<lambda>c. c = CHR ''1'') psz in
      Option.bind (int_size (length psz * 733 div 1000 + 1)) (\<lambda>size.
      Option.bind (DecodeBase58_loop psz (replicate size 0) 0) (\<lambda>r.
        case r of
          None \<Rightarrow> Some None
        | Some (psz, b256, len) \<Rightarrow>
            if dropWhile IsSpace psz \<noteq> [] then Some None
            else
              let it = dropWhile (\<lambda>d. d = 0) (drop (size - len) (rev b256)) in
              Some (Some (replicate zeroes 0 @ it)))))"

definition DecodeBase58_str :: "string \<Rightarrow> byte list option asserting" where
  "DecodeBase58_str str = DecodeBase58 (c_str str)"

definition EncodeBase58Check :: "('s, 'r) mbedtls \<Rightarrow> byte list \<Rightarrow> string asserting" where
  "EncodeBase58Check m vchIn =
     (let vch = vchIn; hash = Hash_range m vch in EncodeBase58 (vch @ take 4 (blob_data hash)))"

definition DecodeBase58Check :: "('s, 'r) mbedtls \<Rightarrow> string \<Rightarrow> byte list option asserting" where
  "DecodeBase58Check m psz =
     Option.bind (DecodeBase58 psz) (\<lambda>r.
       case r of
         None \<Rightarrow> Some None
       | Some vchRet \<Rightarrow>
           if length vchRet < 4 then Some None
           else
             let hash = Hash_range m (take (length vchRet - 4) vchRet) in
             if memcmp (take 4 (blob_data hash)) (drop (length vchRet - 4) vchRet) \<noteq> 0 then Some None
             else Some (Some (take (length vchRet - 4) vchRet)))"

definition DecodeBase58Check_str :: "('s, 'r) mbedtls \<Rightarrow> string \<Rightarrow> byte list option asserting" where
  "DecodeBase58Check_str m str = DecodeBase58Check m (c_str str)"

subsection \<open>Digits\<close>

primrec le_value :: "nat \<Rightarrow> nat list \<Rightarrow> nat" where
  "le_value b [] = 0"
| "le_value b (d # ds) = d + b * le_value b ds"

abbreviation digits_ok :: "nat \<Rightarrow> nat list \<Rightarrow> bool" where
  "digits_ok b ds \<equiv> \<forall>d \<in> set ds. d < b"

definition trimmed :: "nat list \<Rightarrow> bool" where
  "trimmed ds \<longleftrightarrow> ds = [] \<or> last ds \<noteq> 0"

lemma le_value_append: "le_value b (xs @ ys) = le_value b xs + b ^ length xs * le_value b ys"
  by (induction xs) (simp_all add: algebra_simps)

lemma le_value_less: "digits_ok b ds \<Longrightarrow> 0 < b \<Longrightarrow> le_value b ds < b ^ length ds"
proof (induction ds)
  case (Cons d ds)
  then have "le_value b ds + 1 \<le> b ^ length ds" "d < b" by auto
  then have "d + b * le_value b ds < b * (le_value b ds + 1)" by simp
  also have "\<dots> \<le> b * b ^ length ds" using Cons \<open>le_value b ds + 1 \<le> b ^ length ds\<close> mult_le_mono2 by blast
  finally show ?case by simp
qed simp

lemma le_value_zero: "0 < b \<Longrightarrow> le_value b ds = 0 \<longleftrightarrow> (\<forall>d \<in> set ds. d = 0)"
  by (induction ds) auto

lemma le_value_replicate [simp]: "le_value b (replicate n 0) = 0"
  by (induction n) simp_all

lemma trimmed_unique:
  "digits_ok b xs \<Longrightarrow> digits_ok b ys \<Longrightarrow> 0 < b \<Longrightarrow> trimmed xs \<Longrightarrow> trimmed ys \<Longrightarrow>
   le_value b xs = le_value b ys \<Longrightarrow> xs = ys"
proof (induction xs arbitrary: ys)
  case Nil
  then have "\<forall>d \<in> set ys. d = 0" by (simp add: le_value_zero [symmetric])
  with Nil.prems show ?case by (cases ys) (auto simp: trimmed_def)
next
  case (Cons x xs)
  have "ys \<noteq> []"
  proof
    assume "ys = []"
    with Cons.prems have "\<forall>d \<in> set (x # xs). d = 0" by (subst le_value_zero [symmetric]) auto
    then show False using Cons.prems(4) last_in_set [of "x # xs"] by (auto simp: trimmed_def)
  qed
  then obtain y ys' where ys: "ys = y # ys'" by (cases ys) auto
  have eq: "x + b * le_value b xs = y + b * le_value b ys'" using Cons.prems(6) ys by simp
  have "x = y" using arg_cong [OF eq, of "\<lambda>n. n mod b"] Cons.prems(1,2) ys by simp
  with Cons.prems ys have "le_value b xs = le_value b ys'" by simp
  with Cons.prems ys have "xs = ys'" by (intro Cons.IH) (auto simp: trimmed_def split: if_splits)
  with \<open>x = y\<close> ys show ?case by simp
qed

lemma carry_pass_value:
  assumes "carry_pass mul dv carry i len ds = (ds', carry', i')" "0 < dv" "dv \<le> 256"
    and "\<forall>d \<in> set (drop (len - i) ds). d = 0" "digits_ok dv (map unat ds)"
  shows "le_value dv (map unat ds') + dv ^ length ds * carry' = mul * le_value dv (map unat ds) + carry
    \<and> length ds' = length ds \<and> digits_ok dv (map unat ds') \<and> (\<forall>d \<in> set (drop (i' - i) ds'). d = 0)
    \<and> i \<le> i' \<and> i' \<le> i + length ds"
  using assms
proof (induction mul dv carry i len ds arbitrary: ds' carry' i' rule: carry_pass.induct)
  case (1 mul dv carry i len)
  then show ?case by simp
next
  case (2 mul dv carry i len d ds)
  show ?case
  proof (cases "carry \<noteq> 0 \<or> i < len")
    case True
    define c where "c = carry + mul * unat d"
    obtain ds1 where rec: "carry_pass mul dv (c div dv) (i + 1) len ds = (ds1, carry', i')"
      and ds': "ds' = of_nat (c mod dv) # ds1"
      using "2.prems"(1) True by (auto simp: c_def Let_def split: prod.splits)
    have zeros: "\<forall>d \<in> set (drop (len - (i + 1)) ds). d = 0"
      using "2.prems"(4) by (cases "i < len") (auto simp: Suc_diff_Suc [symmetric] dest: in_set_dropD)
    have ih: "le_value dv (map unat ds1) + dv ^ length ds * carry' = mul * le_value dv (map unat ds) + c div dv"
      "length ds1 = length ds" "digits_ok dv (map unat ds1)" "\<forall>d \<in> set (drop (i' - (i + 1)) ds1). d = 0"
      "i + 1 \<le> i'" "i' \<le> i + 1 + length ds"
      using "2.IH" [OF True c_def rec "2.prems"(2,3) zeros] "2.prems"(5) by simp_all
    have "c mod dv < dv" using "2.prems"(2) by simp
    then have dig: "c mod dv < dv" "c mod dv < 256" using "2.prems"(3) by linarith+
    then have u: "unat (of_nat (c mod dv) :: byte) = c mod dv" by (intro unat_of_nat_id) simp
    have "c mod dv + dv * le_value dv (map unat ds1) + dv * dv ^ length ds * carry'
        = c mod dv + dv * (le_value dv (map unat ds1) + dv ^ length ds * carry')"
      by (simp add: algebra_simps)
    also have "\<dots> = mul * (unat d + dv * le_value dv (map unat ds)) + carry"
      unfolding ih(1) using div_mult_mod_eq [of c dv] by (simp add: c_def algebra_simps)
    finally have val: "le_value dv (map unat ds') + dv ^ length (d # ds) * carry'
        = mul * le_value dv (map unat (d # ds)) + carry" by (simp add: ds' u)
    have "drop (i' - i) ds' = drop (i' - (i + 1)) ds1" using ih(5) by (simp add: ds' drop_Cons' )
    with val ih dig u show ?thesis by (simp add: ds')
  next
    case False
    with "2.prems" show ?thesis by (auto simp: le_value_zero)
  qed
qed

text \<open>Both loops are one conversion of big-endian digits.\<close>

fun convert :: "nat \<Rightarrow> nat \<Rightarrow> nat list \<Rightarrow> byte list \<Rightarrow> nat \<Rightarrow> (byte list \<times> nat) option" where
  "convert mul dv [] v len = Some (v, len)"
| "convert mul dv (d # ds) v len =
     (let (v, carry, i) = carry_pass mul dv d 0 len v in if carry \<noteq> 0 then None else convert mul dv ds v i)"

abbreviation vec_value :: "nat \<Rightarrow> byte list \<Rightarrow> nat" where
  "vec_value b v \<equiv> le_value b (map unat v)"

lemma convert_value:
  assumes "0 < mul" "0 < dv" "dv \<le> 256"
  shows "digits_ok dv (map unat v) \<Longrightarrow> \<forall>d \<in> set (drop len v). d = 0 \<Longrightarrow> len \<le> length v \<Longrightarrow>
    vec_value dv v * mul ^ length ds + le_value mul (rev ds) < dv ^ length v \<Longrightarrow>
    \<exists>v' len'. convert mul dv ds v len = Some (v', len') \<and> length v' = length v \<and> len' \<le> length v
      \<and> digits_ok dv (map unat v') \<and> (\<forall>d \<in> set (drop len' v'). d = 0)
      \<and> vec_value dv v' = vec_value dv v * mul ^ length ds + le_value mul (rev ds)"
proof (induction ds arbitrary: v len)
  case Nil
  then show ?case by simp
next
  case (Cons d ds)
  obtain v1 carry i where pass: "carry_pass mul dv d 0 len v = (v1, carry, i)" by (metis prod_cases3)
  have zeros: "\<forall>d \<in> set (drop (len - 0) v). d = 0" using Cons.prems(2) by simp
  note p = carry_pass_value [OF pass assms(2,3) zeros Cons.prems(1)]
  have split: "vec_value dv v * mul ^ length (d # ds) + le_value mul (rev (d # ds))
      = (mul * vec_value dv v + d) * mul ^ length ds + le_value mul (rev ds)"
    by (simp add: le_value_append algebra_simps)
  have "mul * vec_value dv v + d \<le> (mul * vec_value dv v + d) * mul ^ length ds" using assms(1) by simp
  then have small: "mul * vec_value dv v + d < dv ^ length v" using Cons.prems(4) unfolding split by linarith
  have carry: "carry = 0"
  proof (rule ccontr)
    assume "carry \<noteq> 0"
    then have "dv ^ length v \<le> dv ^ length v * carry" by simp
    then show False using p small by linarith
  qed
  then have val: "vec_value dv v1 = mul * vec_value dv v + d" and len: "length v1 = length v" using p by auto
  have "\<exists>v' len'. convert mul dv ds v1 i = Some (v', len') \<and> length v' = length v1 \<and> len' \<le> length v1
      \<and> digits_ok dv (map unat v') \<and> (\<forall>d \<in> set (drop len' v'). d = 0)
      \<and> vec_value dv v' = vec_value dv v1 * mul ^ length ds + le_value mul (rev ds)"
  proof (rule Cons.IH)
    show "vec_value dv v1 * mul ^ length ds + le_value mul (rev ds) < dv ^ length v1"
      using Cons.prems(4) unfolding split val len .
  qed (use p len in auto)
  then show ?case unfolding split using pass carry val len by auto
qed

lemma dropWhile_skip:
  assumes "\<forall>d \<in> set (drop len v). d = (0 :: byte)" "len \<le> length v"
  shows "dropWhile (\<lambda>d. d = 0) (drop (length v - len) (rev v)) = dropWhile (\<lambda>d. d = 0) (rev v)"
proof -
  have "rev v = rev (drop len v) @ rev (take len v)" by (metis append_take_drop_id rev_append)
  moreover have "drop (length v - len) (rev v) = rev (take len v)" using assms(2) by (simp add: drop_rev)
  moreover have "dropWhile (\<lambda>d. d = 0) (rev (drop len v) @ rev (take len v))
      = dropWhile (\<lambda>d. d = 0) (rev (take len v))"
    by (rule dropWhile_append2) (use assms(1) in auto)
  ultimately show ?thesis by metis
qed

text \<open>Canonical digits: the vector's digits, most significant first, without leading zeros.\<close>

definition canon :: "byte list \<Rightarrow> bool" where
  "canon ds \<longleftrightarrow> ds = [] \<or> hd ds \<noteq> 0"

abbreviation be_value :: "nat \<Rightarrow> byte list \<Rightarrow> nat" where
  "be_value b ds \<equiv> vec_value b (rev ds)"

lemma be_value_dropWhile: "be_value b (dropWhile (\<lambda>d. d = 0) ds) = be_value b ds"
  by (induction ds) (auto simp: le_value_append)

lemma canon_dropWhile: "canon (dropWhile (\<lambda>d. d = 0) ds)"
  using hd_dropWhile [of "\<lambda>d. d = 0" ds] by (auto simp: canon_def)

lemma canon_unique:
  assumes "digits_ok b (map unat xs)" "digits_ok b (map unat ys)" "0 < b" "canon xs" "canon ys"
    "be_value b xs = be_value b ys"
  shows "xs = ys"
proof -
  have t: "trimmed (map unat (rev zs))" if "canon zs" for zs
    using that by (cases zs) (auto simp: canon_def trimmed_def unat_eq_0)
  have "map unat (rev xs) = map unat (rev ys)"
    by (rule trimmed_unique [where b = b]) (use assms t in auto)
  then show ?thesis by (metis inj_map_eq_map inj_unsigned rev_is_rev_conv)
qed

subsection \<open>The size estimates\<close>

lemma pow_estimate:
  assumes "a ^ q \<le> b ^ p" "p * e \<le> f * q" "0 < q" "0 < e" "0 < b" "1 < b" "0 < (a::nat)"
  shows "a ^ n \<le> b ^ (n * f div e + 1)"
proof -
  define k where "k = n * f div e + 1"
  have "n * f mod e < e" using assms(4) by simp
  then have "n * f div e * e + n * f mod e < (n * f div e + 1) * e"
    by (simp only: add_mult_distrib mult_1 add_less_cancel_left)
  then have "n * f \<le> k * e" unfolding div_mult_mod_eq k_def by simp
  have "p * n * e \<le> n * f * q" using mult_le_mono2 [OF assms(2), of n] by (simp only: ac_simps)
  also have "\<dots> \<le> k * e * q" using \<open>n * f \<le> k * e\<close> by (rule mult_le_mono1)
  finally have "(p * n) * e \<le> (k * q) * e" by (simp only: ac_simps)
  then have pn: "p * n \<le> k * q" using assms(4) by simp
  have "(a ^ n) ^ q = (a ^ q) ^ n" by (simp add: power_mult [symmetric] mult.commute)
  also have "\<dots> \<le> (b ^ p) ^ n" using assms(1) by (simp add: power_mono)
  also have "\<dots> = b ^ (p * n)" by (simp add: power_mult)
  also have "\<dots> \<le> b ^ (k * q)" using pn assms(6) by (intro power_increasing) simp_all
  finally have "(a ^ n) ^ q \<le> (b ^ k) ^ q" by (simp add: power_mult)
  then show ?thesis using assms(3) unfolding k_def [symmetric] by (simp add: power_mono_iff)
qed

lemma size_256_58: "256 ^ n \<le> (58 :: nat) ^ (n * 138 div 100 + 1)"
  by (rule pow_estimate [of 256 8 58 11]) simp_all

lemma size_58_256: "58 ^ n \<le> (256 :: nat) ^ (n * 733 div 1000 + 1)"
  by (rule pow_estimate [of 58 71 256 52]) simp_all

lemma int_size: "n < 2 ^ 31 \<Longrightarrow> int_size n = Some n"
proof -
  assume n: "n < 2 ^ 31"
  then have "sint (of_nat n :: u32) = int n"
    using sint_word_of_int [where 'a = 32, of "int n"] by simp
  with n show ?thesis by (simp add: int_size_def Let_def unat_of_nat_id)
qed

lemma digits_ok_byte: "digits_ok 256 (map unat (bs :: byte list))"
  using unat_bounds(1) by auto

subsection \<open>The two directions\<close>

lemma EncodeBase58_loop_convert: "EncodeBase58_loop bs v len = convert 256 58 (map unat bs) v len"
  by (induction bs v len rule: EncodeBase58_loop.induct) (auto split: prod.splits)

lemma EncodeBase58_spec:
  assumes "length bs * 138 div 100 + 1 < 2 ^ 31"
  obtains it where "digits_ok 58 (map unat it)" "canon it"
    "be_value 58 it = be_value 256 (dropWhile (\<lambda>b. b = 0) bs)"
    "EncodeBase58 bs = Some (replicate (length (takeWhile (\<lambda>b. b = 0) bs)) CHR ''1''
        @ map (\<lambda>d. pszBase58 ! unat d) it)"
    "length it \<le> length bs * 138 div 100 + 1"
proof -
  define t where "t = dropWhile (\<lambda>b. b = 0) bs"
  define size where "size = length t * 138 div 100 + 1"
  have "length t \<le> length bs" by (simp add: t_def length_dropWhile_le)
  then have short: "size \<le> length bs * 138 div 100 + 1" unfolding size_def by (intro add_mono div_le_mono) auto
  then have size: "int_size size = Some size" using assms by (intro int_size) simp
  have "vec_value 256 (rev t) < 256 ^ length t"
    using le_value_less [OF digits_ok_byte [of "rev t"]] by simp
  also have "\<dots> \<le> 58 ^ size" unfolding size_def by (rule size_256_58)
  finally have fits: "vec_value 58 (replicate size 0) * 256 ^ length (map unat t) + le_value 256 (rev (map unat t))
      < 58 ^ length (replicate size (0 :: byte))"
    by (simp add: rev_map map_replicate_const le_value_zero)
  obtain v len where v: "convert 256 58 (map unat t) (replicate size 0) 0 = Some (v, len)" "length v = size"
    "len \<le> size" "digits_ok 58 (map unat v)" "\<forall>d \<in> set (drop len v). d = 0"
    "vec_value 58 v = le_value 256 (rev (map unat t))"
    using convert_value [of 256 58 "replicate size 0" 0 "map unat t"] fits
    by (auto simp: map_replicate_const le_value_zero)
  let ?it = "dropWhile (\<lambda>d. d = 0) (rev v)"
  show thesis
  proof
    show "digits_ok 58 (map unat ?it)" using v(4) by (auto dest: set_dropWhileD)
    show "canon ?it" by (rule canon_dropWhile)
    show "be_value 58 ?it = be_value 256 (dropWhile (\<lambda>b. b = 0) bs)"
      using v(6) by (simp add: be_value_dropWhile t_def rev_map)
    show "EncodeBase58 bs = Some (replicate (length (takeWhile (\<lambda>b. b = 0) bs)) CHR ''1''
        @ map (\<lambda>d. pszBase58 ! unat d) ?it)"
      unfolding EncodeBase58_def Let_def t_def [symmetric] size_def [symmetric]
      using size v dropWhile_skip [OF v(5)] by (simp add: EncodeBase58_loop_convert)
    show "length ?it \<le> length bs * 138 div 100 + 1"
      using short v(2) length_dropWhile_le [of "\<lambda>d. d = 0" "rev v"] by simp
  qed
qed

corollary EncodeBase58_length:
  assumes "length bs \<le> 10 ^ 8"
  obtains e where "EncodeBase58 bs = Some e" "length e \<le> 3 * length bs + 1"
proof -
  have "length (takeWhile (\<lambda>b. b = 0) bs) \<le> length bs" by (rule length_takeWhile_le)
  moreover have "length bs * 138 div 100 \<le> 2 * length bs" by simp
  ultimately show thesis using EncodeBase58_spec [of bs thesis] assms by (simp add: that)
qed

definition base58_char :: "char \<Rightarrow> bool" where
  "base58_char c \<longleftrightarrow> mapBase58 ! code c \<noteq> -1"

definition base58_digit :: "char \<Rightarrow> nat" where
  "base58_digit c = nat (mapBase58 ! code c)"

lemma base58_tables:
  "n < 58 \<Longrightarrow> base58_digit (pszBase58 ! n) = n \<and> base58_char (pszBase58 ! n) \<and> \<not> IsSpace (pszBase58 ! n)
    \<and> (pszBase58 ! n = CHR ''1'' \<longleftrightarrow> n = 0)"
  "base58_char c \<Longrightarrow> base58_digit c < 58 \<and> pszBase58 ! base58_digit c = c \<and> 0 \<le> mapBase58 ! code c"
proof -
  have tables: "filter (\<lambda>(k, v). v \<noteq> -1) (enumerate 0 mapBase58)
      = map (\<lambda>(n, c). (code c, int n)) (enumerate 0 pszBase58)" by code_simp
  have len: "length mapBase58 = 256" "length pszBase58 = 58"
    by (simp_all add: mapBase58_def pszBase58_def)
  have entry: "(k, v) \<in> set (filter (\<lambda>(k, v). v \<noteq> -1) (enumerate 0 mapBase58))
      \<longleftrightarrow> k < 256 \<and> v = mapBase58 ! k \<and> v \<noteq> -1" for k v
    by (auto simp: in_set_enumerate_eq len)
  have digit: "(k, v) \<in> set (map (\<lambda>(n, c). (code c, int n)) (enumerate 0 pszBase58))
      \<longleftrightarrow> (\<exists>n < 58. k = code (pszBase58 ! n) \<and> v = int n)" (is "?L \<longleftrightarrow> ?R") for k v
  proof
    show "?L \<Longrightarrow> ?R" by (auto simp: in_set_enumerate_eq len)
    show "?R \<Longrightarrow> ?L"
      unfolding set_map by (elim exE conjE, rule image_eqI [where x = "(_, _)"]) (auto simp: in_set_enumerate_eq len)
  qed
  have iff: "k < 256 \<and> v = mapBase58 ! k \<and> v \<noteq> -1 \<longleftrightarrow> (\<exists>n < 58. k = code (pszBase58 ! n) \<and> v = int n)"
    for k v unfolding entry [symmetric] digit [symmetric] tables ..
  have inj: "x = y" if "code x = code y" for x y using that by (metis char_of_char)
  show "n < 58 \<Longrightarrow> base58_digit (pszBase58 ! n) = n \<and> base58_char (pszBase58 ! n) \<and> \<not> IsSpace (pszBase58 ! n)
    \<and> (pszBase58 ! n = CHR ''1'' \<longleftrightarrow> n = 0)"
  proof -
    assume n: "n < 58"
    have all: "list_all (\<lambda>(n, c). \<not> IsSpace c \<and> (c = CHR ''1'' \<longleftrightarrow> n = 0)) (enumerate 0 pszBase58)"
      by code_simp
    have "(n, pszBase58 ! n) \<in> set (enumerate 0 pszBase58)"
      using n by (simp add: in_set_enumerate_eq len)
    from bspec [OF all [unfolded list_all_iff] this]
    have "\<not> IsSpace (pszBase58 ! n) \<and> (pszBase58 ! n = CHR ''1'' \<longleftrightarrow> n = 0)"
      unfolding prod.case .
    moreover have "mapBase58 ! code (pszBase58 ! n) = int n"
      using iff [of "code (pszBase58 ! n)" "int n"] n by auto
    ultimately show ?thesis by (simp add: base58_digit_def base58_char_def)
  qed
  assume "base58_char c"
  then obtain n where "n < 58" "code c = code (pszBase58 ! n)" "mapBase58 ! code c = int n"
    using iff [of "code c" "mapBase58 ! code c"] by (auto simp: base58_char_def)
  then show "base58_digit c < 58 \<and> pszBase58 ! base58_digit c = c \<and> 0 \<le> mapBase58 ! code c"
    using inj by (auto simp: base58_digit_def)
qed

lemma DecodeBase58_loop_convert:
  assumes "rest = [] \<or> \<not> base58_char (hd rest)"
  shows "\<forall>c \<in> set cs. base58_char c \<Longrightarrow> DecodeBase58_loop (cs @ rest) v len =
    map_option (\<lambda>(v, len). if rest = [] \<or> IsSpace (hd rest) then Some (rest, v, len) else None)
      (convert 58 256 (map base58_digit cs) v len)"
proof (induction cs arbitrary: v len)
  case Nil
  then show ?case using assms by (cases rest) (auto simp: base58_char_def)
next
  case (Cons c cs)
  have c: "base58_char c" using Cons.prems by simp
  have "\<not> IsSpace c" using base58_tables(1) [of "base58_digit c"] base58_tables(2) [OF c] by auto
  with c Cons show ?case by (auto simp: base58_char_def base58_digit_def Let_def split: prod.splits)
qed

text \<open>The parts of an input: white space, ones, digits, and what is left.\<close>

lemma DecodeBase58_spec:
  assumes "length s * 733 div 1000 + 1 < 2 ^ 31"
  defines "t \<equiv> dropWhile IsSpace s"
  defines "u \<equiv> dropWhile (\<lambda>c. c = CHR ''1'') t"
  defines "cs \<equiv> takeWhile base58_char u"
  defines "rest \<equiv> dropWhile base58_char u"
  obtains it where "canon it" "be_value 256 it = le_value 58 (rev (map base58_digit cs))"
    "DecodeBase58 s = Some (if dropWhile IsSpace rest = []
        then Some (replicate (length (takeWhile (\<lambda>c. c = CHR ''1'') t)) 0 @ it) else None)"
proof -
  define size where "size = length u * 733 div 1000 + 1"
  have "length u \<le> length s" unfolding u_def t_def by (meson length_dropWhile_le order.trans)
  then have "size \<le> length s * 733 div 1000 + 1" unfolding size_def by (intro add_mono div_le_mono) auto
  then have size: "int_size size = Some size" using assms(1) by (intro int_size) simp
  have valid: "\<forall>c \<in> set cs. base58_char c" by (auto simp: cs_def dest: set_takeWhileD)
  have rest: "rest = [] \<or> \<not> base58_char (hd rest)"
    using hd_dropWhile [of base58_char u] by (auto simp: rest_def)
  have u: "u = cs @ rest" by (simp add: cs_def rest_def)
  have "le_value 58 (rev (map base58_digit cs)) < 58 ^ length cs"
    using le_value_less [of "rev (map base58_digit cs)" 58] valid base58_tables(2) by auto
  also have "\<dots> \<le> 58 ^ length u" using u by (intro power_increasing) auto
  also have "\<dots> \<le> 256 ^ size" unfolding size_def by (rule size_58_256)
  finally have fits: "vec_value 256 (replicate size 0) * 58 ^ length (map base58_digit cs)
      + le_value 58 (rev (map base58_digit cs)) < 256 ^ length (replicate size (0 :: byte))"
    by (simp add: map_replicate_const)
  obtain v len where v: "convert 58 256 (map base58_digit cs) (replicate size 0) 0 = Some (v, len)"
    "length v = size" "\<forall>d \<in> set (drop len v). d = 0" "len \<le> size"
    "vec_value 256 v = le_value 58 (rev (map base58_digit cs))"
    using convert_value [of 58 256 "replicate size 0" 0 "map base58_digit cs"] fits digits_ok_byte
    by (auto simp: map_replicate_const)
  let ?it = "dropWhile (\<lambda>d. d = 0) (rev v)"
  have skip: "dropWhile (\<lambda>d. d = 0) (drop (size - len) (rev v)) = ?it"
    using dropWhile_skip [OF v(3)] v(2,4) by simp
  have loop: "DecodeBase58_loop u (replicate size 0) 0
      = Some (if rest = [] \<or> IsSpace (hd rest) then Some (rest, v, len) else None)"
    unfolding u DecodeBase58_loop_convert [OF rest valid] v(1) by simp
  show thesis
  proof
    show "canon ?it" by (rule canon_dropWhile)
    show "be_value 256 ?it = le_value 58 (rev (map base58_digit cs))"
      using v(5) by (simp add: be_value_dropWhile)
    show "DecodeBase58 s = Some (if dropWhile IsSpace rest = []
        then Some (replicate (length (takeWhile (\<lambda>c. c = CHR ''1'') t)) 0 @ ?it) else None)"
      unfolding DecodeBase58_def Let_def t_def [symmetric] u_def [symmetric] size_def [symmetric] size
        Option.bind.bind_lunit loop
      by (cases rest) (auto simp: skip)
  qed
qed

lemma spaces_dropWhile: "(\<forall>c \<in> set l. IsSpace c) \<longleftrightarrow> dropWhile IsSpace l = []"
  by simp

lemma pszBase58_digit:
  assumes "digits_ok 58 (map unat ds)"
  shows "map (base58_digit \<circ> (\<lambda>d. pszBase58 ! unat d)) ds = map unat ds"
    "\<forall>c \<in> set (map (\<lambda>d. pszBase58 ! unat d) ds). base58_char c \<and> \<not> IsSpace c"
    "canon ds \<Longrightarrow> ds = [] \<or> hd (map (\<lambda>d. pszBase58 ! unat d) ds) \<noteq> CHR ''1''"
  using assms base58_tables(1) by (auto simp: canon_def hd_map unat_eq_0)

lemma takeWhile_replicate_append:
  "ys = [] \<or> hd ys \<noteq> x \<Longrightarrow> takeWhile (\<lambda>c. c = x) (replicate n x @ ys) = replicate n x
    \<and> dropWhile (\<lambda>c. c = x) (replicate n x @ ys) = ys"
  by (induction n) (cases ys; auto)+

lemma replicate_dropWhile:
  "replicate (length (takeWhile (\<lambda>c. c = x) t)) x @ dropWhile (\<lambda>c. c = x) t = t"
  by (induction t) auto

lemma DecodeBase58_complete:
  assumes "EncodeBase58 bs = Some e" "\<forall>c \<in> set l. IsSpace c" "\<forall>c \<in> set r. IsSpace c"
    and "length (l @ e @ r) \<le> 10 ^ 9" "length bs \<le> 10 ^ 9"
  shows "DecodeBase58 (l @ e @ r) = Some (Some bs)"
proof -
  let ?zeros = "length (takeWhile (\<lambda>b. b = 0) bs)" and ?tail = "dropWhile (\<lambda>b. b = 0) bs"
  obtain ds where ds: "digits_ok 58 (map unat ds)" "canon ds" "be_value 58 ds = be_value 256 ?tail"
    "EncodeBase58 bs = Some (replicate ?zeros CHR ''1'' @ map (\<lambda>d. pszBase58 ! unat d) ds)"
    "length ds \<le> length bs * 138 div 100 + 1"
    by (rule EncodeBase58_spec [of bs]) (use assms(5) in simp)
  note psz = pszBase58_digit [OF ds(1)]
  define cs where "cs = map (\<lambda>d. pszBase58 ! unat d) ds"
  have e: "e = replicate ?zeros CHR ''1'' @ cs" using assms(1) ds(4) by (simp add: cs_def)
  have one: "\<not> IsSpace CHR ''1''" "base58_char CHR ''1''"
    using base58_tables(1) [of 0] by (simp_all add: pszBase58_def)
  obtain r' where t: "dropWhile IsSpace (l @ e @ r) = e @ r'" and r': "\<forall>c \<in> set r'. IsSpace c"
  proof (cases "e = []")
    case True
    then show thesis using assms(2,3) that [of "[]"] by (simp add: dropWhile_append2)
  next
    case False
    then have "\<not> IsSpace (hd e)" using one psz(2) by (cases "?zeros"; cases ds) (auto simp: e cs_def)
    then have "dropWhile IsSpace (e @ r) = e @ r" using False by (cases e) auto
    then show thesis using assms(2,3) that [of r] by (simp add: dropWhile_append2)
  qed
  have not_char: "\<not> base58_char c" if "IsSpace c" for c using that base58_tables by metis
  have hd: "cs @ r' = [] \<or> hd (cs @ r') \<noteq> CHR ''1''"
    using psz(3) [OF ds(2)] r' one(1) by (cases ds; cases r') (auto simp: cs_def)
  have ones: "takeWhile (\<lambda>c. c = CHR ''1'') (e @ r') = replicate ?zeros CHR ''1''"
    "dropWhile (\<lambda>c. c = CHR ''1'') (e @ r') = cs @ r'"
    using takeWhile_replicate_append [OF hd] by (simp_all add: e)
  have "takeWhile base58_char (cs @ r') = cs" "dropWhile base58_char (cs @ r') = r'"
    using psz(2) r' not_char by (cases r'; auto simp: cs_def [symmetric] takeWhile_append2 dropWhile_append2)+
  note parts = t ones this
  obtain it where it: "canon it" "be_value 256 it = le_value 58 (rev (map base58_digit cs))"
    "DecodeBase58 (l @ e @ r) = Some (if dropWhile IsSpace r' = [] then Some (replicate ?zeros 0 @ it) else None)"
    by (rule DecodeBase58_spec [of "l @ e @ r", unfolded parts]) (use assms(4) in auto)
  have "be_value 256 it = be_value 256 ?tail"
    using it(2) ds(3) psz(1) by (simp add: cs_def rev_map)
  then have "it = ?tail"
    by (intro canon_unique [where b = 256]) (use it(1) canon_dropWhile digits_ok_byte in auto)
  moreover have "replicate ?zeros 0 @ ?tail = bs"
    by (rule replicate_dropWhile)
  ultimately show ?thesis using it(3) r' by simp
qed

lemma DecodeBase58_sound:
  assumes "DecodeBase58 s = Some (Some bs)" "length s \<le> 10 ^ 9" "length bs \<le> 10 ^ 9"
  shows "\<exists>l e r. EncodeBase58 bs = Some e \<and> s = l @ e @ r \<and> (\<forall>c \<in> set l. IsSpace c) \<and> (\<forall>c \<in> set r. IsSpace c)"
proof -
  define t where "t = dropWhile IsSpace s"
  define z where "z = length (takeWhile (\<lambda>c. c = CHR ''1'') t)"
  define u where "u = dropWhile (\<lambda>c. c = CHR ''1'') t"
  define cs where "cs = takeWhile base58_char u"
  define r where "r = dropWhile base58_char u"
  obtain it where it: "canon it" "be_value 256 it = le_value 58 (rev (map base58_digit cs))"
    "DecodeBase58 s = Some (if dropWhile IsSpace r = [] then Some (replicate z 0 @ it) else None)"
    by (rule DecodeBase58_spec [of s, folded t_def, folded u_def z_def, folded cs_def r_def])
      (use assms(2) in auto)
  have bs: "bs = replicate z 0 @ it" and r: "\<forall>c \<in> set r. IsSpace c" using it(3) assms(1) by (auto split: if_splits)
  have valid: "base58_char c" if "c \<in> set cs" for c using that by (auto simp: cs_def dest: set_takeWhileD)
  define ds where "ds = map (\<lambda>c. of_nat (base58_digit c) :: byte) cs"
  have unat: "unat (of_nat (base58_digit c) :: byte) = base58_digit c" if "c \<in> set cs" for c
    using base58_tables(2) [OF valid [OF that]] by (intro unat_of_nat_id) simp
  have map_ds: "map unat ds = map base58_digit cs" "map (\<lambda>d. pszBase58 ! unat d) ds = cs"
    using unat base58_tables(2) valid by (auto simp: ds_def map_idI)
  have ds_ok: "digits_ok 58 (map unat ds)" unfolding map_ds using base58_tables(2) valid by auto
  have "canon ds"
  proof (cases cs)
    case (Cons c cs')
    have "u \<noteq> []" "hd u = c" using Cons by (auto simp: cs_def) (metis Cons cs_def hd_append2 list.sel(1)
          takeWhile_dropWhile_id list.distinct(1))+
    then have "c \<noteq> CHR ''1''" using hd_dropWhile [of "\<lambda>c. c = CHR ''1''" t] by (auto simp: u_def)
    then have "base58_digit c \<noteq> 0" using base58_tables(1) [of 0] base58_tables(2) [OF valid, of c] Cons
      by (metis list.set_intros(1) zero_less_numeral)
    then have "(of_nat (base58_digit c) :: byte) \<noteq> 0"
      using unat [of c] Cons by (metis list.set_intros(1) unat_0)
    then show ?thesis using Cons by (simp add: ds_def canon_def)
  qed (simp add: ds_def canon_def)
  have split: "takeWhile (\<lambda>b. b = 0) bs = replicate z 0" "dropWhile (\<lambda>b. b = 0) bs = it"
    using takeWhile_replicate_append [of it 0 z] it(1) by (auto simp: bs canon_def)
  obtain ds' where ds': "digits_ok 58 (map unat ds')" "canon ds'" "be_value 58 ds' = be_value 256 it"
    "EncodeBase58 bs = Some (replicate z CHR ''1'' @ map (\<lambda>d. pszBase58 ! unat d) ds')"
    "length ds' \<le> length bs * 138 div 100 + 1"
    by (rule EncodeBase58_spec [of bs, unfolded split]) (use assms(3) in auto)
  have "be_value 58 ds' = be_value 58 ds"
    using ds'(3) it(2) unfolding rev_map [symmetric] map_ds(1) by (rule trans)
  then have "ds' = ds" using ds' ds_ok \<open>canon ds\<close> by (intro canon_unique [where b = 58]) auto
  then have enc: "EncodeBase58 bs = Some (replicate z CHR ''1'' @ cs)" using ds'(4) map_ds(2) by simp
  have "t = replicate z CHR ''1'' @ u"
    unfolding u_def z_def replicate_dropWhile ..
  moreover have "u = cs @ r" by (simp add: cs_def r_def)
  moreover have "s = takeWhile IsSpace s @ t" by (simp add: t_def)
  ultimately have "s = takeWhile IsSpace s @ (replicate z CHR ''1'' @ cs) @ r" by simp
  moreover have "\<forall>c \<in> set (takeWhile IsSpace s). IsSpace c" by (auto dest: set_takeWhileD)
  ultimately show ?thesis using enc r by blast
qed

subsection \<open>Properties\<close>

lemma base58_inverse:
  assumes "length s \<le> 10 ^ 9" "length bs \<le> 10 ^ 9"
  shows "EncodeBase58 bs \<noteq> None \<and> DecodeBase58 s \<noteq> None
    \<and> (DecodeBase58 s = Some (Some bs) \<longleftrightarrow>
        (\<exists>l e r. EncodeBase58 bs = Some e \<and> s = l @ e @ r
          \<and> (\<forall>c \<in> set l. IsSpace c) \<and> (\<forall>c \<in> set r. IsSpace c)))"
proof (intro conjI iffI)
  show "EncodeBase58 bs \<noteq> None"
    by (rule EncodeBase58_spec [of bs]) (use assms(2) in auto)
  show "DecodeBase58 s \<noteq> None"
    by (rule DecodeBase58_spec [of s]) (use assms(1) in auto)
next
  assume "DecodeBase58 s = Some (Some bs)"
  then show "\<exists>l e r. EncodeBase58 bs = Some e \<and> s = l @ e @ r \<and> (\<forall>c \<in> set l. IsSpace c) \<and> (\<forall>c \<in> set r. IsSpace c)"
    using assms by (rule DecodeBase58_sound)
next
  assume "\<exists>l e r. EncodeBase58 bs = Some e \<and> s = l @ e @ r \<and> (\<forall>c \<in> set l. IsSpace c) \<and> (\<forall>c \<in> set r. IsSpace c)"
  then show "DecodeBase58 s = Some (Some bs)" using assms by (auto intro!: DecodeBase58_complete)
qed

text \<open>On inputs of up to a billion bytes no assertion of the two conversions fails, whatever the input, so the
  size estimates 138/100 and 733/1000 are enough; and \<^verbatim>\<open>DecodeBase58\<close> accepts exactly the encodings, between
  white space, and returns the bytes that were encoded.\<close>

theorem DecodeBase58_iff:
  assumes "length s \<le> 10 ^ 9" "length bs \<le> 10 ^ 9"
  shows "EncodeBase58 bs \<noteq> None \<and> DecodeBase58 s \<noteq> None
    \<and> (DecodeBase58 s = Some (Some bs) \<longleftrightarrow>
        (\<exists>l e r. EncodeBase58 bs = Some e \<and> s = l @ e @ r
          \<and> (\<forall>c \<in> set l. IsSpace c) \<and> (\<forall>c \<in> set r. IsSpace c)))"
  using assms by (rule base58_inverse)

theorem DecodeBase58_iff_witness:
  "DecodeBase58 '' 15Q '' = Some (Some [0, 0xff]) \<and> EncodeBase58 [0, 0xff] = Some ''15Q''"
proof -
  have enc: "EncodeBase58 [0, 0xff] = Some ''15Q''"
  proof -
    have "replicate 2 (0 :: byte) = [0, 0]" by (simp add: numeral_2_eq_2)
    then show ?thesis by (simp add: EncodeBase58_def int_size_def pszBase58_def Let_def)
  qed
  moreover have "IsSpace CHR '' ''" by code_simp
  ultimately have "\<exists>l e r. EncodeBase58 [0, 0xff] = Some e \<and> '' 15Q '' = l @ e @ r
      \<and> (\<forall>c \<in> set l. IsSpace c) \<and> (\<forall>c \<in> set r. IsSpace c)"
    by (intro exI [of _ "'' ''"] exI [of _ "''15Q''"] exI [of _ "'' ''"]) simp
  with DecodeBase58_iff [of "'' 15Q ''" "[0, 0xff]"] enc show ?thesis by simp
qed

lemma base58check_inverse:
  assumes "length s \<le> 10 ^ 9" "length vch \<le> 10 ^ 8" "computes m sha ripemd"
  shows "DecodeBase58Check m s = Some (Some vch) \<longleftrightarrow>
    (\<exists>l e r. EncodeBase58Check m vch = Some e \<and> s = l @ e @ r
      \<and> (\<forall>c \<in> set l. IsSpace c) \<and> (\<forall>c \<in> set r. IsSpace c))"
proof -
  let ?sum = "\<lambda>v. take 4 (blob_data (Hash_range m v))"
  have len: "length (?sum v) = 4" for v
    using blob_ok_hashes(1) [OF assms(3), of v] by (simp add: blob_ok_def)
  have "DecodeBase58Check m s = Some (Some vch) \<longleftrightarrow> DecodeBase58 s = Some (Some (vch @ ?sum vch))"
  proof
    assume "DecodeBase58Check m s = Some (Some vch)"
    then obtain v where v: "DecodeBase58 s = Some (Some v)" "4 \<le> length v" "vch = take (length v - 4) v"
      "?sum vch = drop (length v - 4) v"
      by (auto simp: DecodeBase58Check_def bind_eq_Some_conv memcmp_zero_iff Let_def
          split: option.splits if_splits)
    then show "DecodeBase58 s = Some (Some (vch @ ?sum vch))" by (metis append_take_drop_id)
  next
    assume "DecodeBase58 s = Some (Some (vch @ ?sum vch))"
    then show "DecodeBase58Check m s = Some (Some vch)"
      using len [of vch] by (simp add: DecodeBase58Check_def memcmp_zero_iff Let_def)
  qed
  moreover have "length (vch @ ?sum vch) \<le> 10 ^ 9" using assms(2) len [of vch] by simp
  ultimately show ?thesis
    using base58_inverse [OF assms(1), of "vch @ ?sum vch"] by (simp add: EncodeBase58Check_def Let_def)
qed

text \<open>(C25) \<^verbatim>\<open>DecodeBase58Check\<close> returns a payload exactly when the text, between white space, is the base-58
  encoding of the payload and the first four bytes of its double digest: what \<^verbatim>\<open>EncodeBase58Check\<close>
  writes is read back, and a text with any other checksum is refused.\<close>

theorem DecodeBase58Check_iff:
  assumes "length s \<le> 10 ^ 9" "length vch \<le> 10 ^ 8" "computes m sha ripemd"
  shows "DecodeBase58Check m s = Some (Some vch) \<longleftrightarrow>
    (\<exists>l e r. EncodeBase58Check m vch = Some e \<and> s = l @ e @ r
      \<and> (\<forall>c \<in> set l. IsSpace c) \<and> (\<forall>c \<in> set r. IsSpace c))"
  using assms by (rule base58check_inverse)

theorem DecodeBase58Check_iff_witness:
  "DecodeBase58Check buffering '' 111111'' = Some (Some [0, 0])"
proof -
  have "EncodeBase58Check buffering [0, 0] = Some ''111111''"
    by (simp add: EncodeBase58Check_def Let_def EncodeBase58_def Hash_range_eq [OF computes_buffering]
        int_size_def) (simp add: numeral_eq_Suc)
  then have "\<exists>l e r. EncodeBase58Check buffering [0, 0] = Some e \<and> '' 111111'' = l @ e @ r
      \<and> (\<forall>c \<in> set l. IsSpace c) \<and> (\<forall>c \<in> set r. IsSpace c)"
    by (intro exI [of _ "'' ''"] exI [of _ "''111111''"] exI [of _ "[]"]) (simp add: IsSpace_def)
  then show ?thesis
    using DecodeBase58Check_iff [THEN iffD2, OF _ _ computes_buffering, of "'' 111111''" "[0, 0]"] by simp
qed

end
