(* ===== verification/Bech32.thy ===== *)
theory Bech32
  imports Base58
begin

section \<open>Bech32: bech32.h, bech32.cpp\<close>

text \<open>
  The checksum is a polynomial remainder kept in 30 bits; the file's anonymous functions come first,
  then \<^verbatim>\<open>Encode\<close> and \<^verbatim>\<open>Decode\<close>. \<^verbatim>\<open>CHARSET[c]\<close> beyond the literal and its terminator is the value \<open>None\<close>;
  a failed \<^verbatim>\<open>Decode\<close> returns the pair of an empty text and no data.
\<close>

definition CHARSET :: string where
  "CHARSET = ''qpzry9x8gf2tvdw0s3jn54khce6mua7l''"

definition CHARSET_REV :: "int list" where
  "CHARSET_REV = [
    -1, -1, -1, -1, -1, -1, -1, -1, -1, -1, -1, -1, -1, -1, -1, -1,
    -1, -1, -1, -1, -1, -1, -1, -1, -1, -1, -1, -1, -1, -1, -1, -1,
    -1, -1, -1, -1, -1, -1, -1, -1, -1, -1, -1, -1, -1, -1, -1, -1,
    15, -1, 10, 17, 21, 20, 26, 30, 7, 5, -1, -1, -1, -1, -1, -1,
    -1, 29, -1, 24, 13, 25, 9, 8, 23, -1, 18, 22, 31, 27, 19, -1,
    1, 0, 3, 16, 11, 28, 12, 14, 6, 4, 2, -1, -1, -1, -1, -1,
    -1, 29, -1, 24, 13, 25, 9, 8, 23, -1, 18, 22, 31, 27, 19, -1,
    1, 0, 3, 16, 11, 28, 12, 14, 6, 4, 2, -1, -1, -1, -1, -1]"

definition Cat :: "byte list \<Rightarrow> byte list \<Rightarrow> byte list" where
  "Cat x y = x @ y"

definition PolyMod_step :: "u32 \<Rightarrow> byte \<Rightarrow> u32" where
  "PolyMod_step c v_i =
     (let c0 = ucast (drop_bit 25 c) :: byte;
          c = push_bit 5 (c AND 0x1ffffff) XOR ucast v_i;
          c = (if c0 AND 1 \<noteq> 0 then c XOR 0x3b6a57b2 else c);
          c = (if c0 AND 2 \<noteq> 0 then c XOR 0x26508e6d else c);
          c = (if c0 AND 4 \<noteq> 0 then c XOR 0x1ea119fa else c);
          c = (if c0 AND 8 \<noteq> 0 then c XOR 0x3d4233dd else c);
          c = (if c0 AND 16 \<noteq> 0 then c XOR 0x2a1462b3 else c)
      in c)"

definition PolyMod :: "byte list \<Rightarrow> u32" where
  "PolyMod v = foldl PolyMod_step 1 v"

definition LowerCase :: "char \<Rightarrow> char" where
  "LowerCase c = (if code CHR ''A'' \<le> code c \<and> code c \<le> code CHR ''Z''
     then chr ((code c - code CHR ''A'') + code CHR ''a'') else c)"

definition ExpandHRP :: "string \<Rightarrow> byte list" where
  "ExpandHRP hrp =
     map (\<lambda>c. drop_bit 5 (of_char c)) hrp @ [0] @ map (\<lambda>c. of_char c AND 0x1f) hrp"

definition VerifyChecksum :: "string \<Rightarrow> byte list \<Rightarrow> bool" where
  "VerifyChecksum hrp values \<longleftrightarrow> PolyMod (Cat (ExpandHRP hrp) values) = 1"

definition CreateChecksum :: "string \<Rightarrow> byte list \<Rightarrow> byte list" where
  "CreateChecksum hrp values =
     (let enc = Cat (ExpandHRP hrp) values;
          enc = enc @ replicate 6 0;
          md = PolyMod enc XOR 1
      in map (\<lambda>i. ucast (drop_bit (5 * (5 - i)) md AND 31)) [0..<6])"

fun charset_text :: "byte list \<Rightarrow> string asserting" where
  "charset_text [] = Some []"
| "charset_text (c # cs) =
     (if unat c \<le> length CHARSET then
        map_option ((#) ((CHARSET @ [CHR 0x00]) ! unat c)) (charset_text cs)
      else None)"

definition bech32_Encode :: "string \<Rightarrow> byte list \<Rightarrow> string asserting" where
  "bech32_Encode hrp values =
     (let checksum = CreateChecksum hrp values;
          combined = Cat values checksum
      in map_option (\<lambda>t. hrp @ ''1'' @ t) (charset_text combined))"

fun case_scan :: "string \<Rightarrow> bool \<Rightarrow> bool \<Rightarrow> (bool \<times> bool) option" where
  "case_scan [] lower upper = Some (lower, upper)"
| "case_scan (c # str) lower upper =
     (if code CHR ''a'' \<le> code c \<and> code c \<le> code CHR ''z'' then case_scan str True upper
      else if code CHR ''A'' \<le> code c \<and> code c \<le> code CHR ''Z'' then case_scan str lower True
      else if code c < 33 \<or> code c > 126 then None
      else case_scan str lower upper)"

fun charset_values :: "string \<Rightarrow> byte list option" where
  "charset_values [] = Some []"
| "charset_values (c # str) =
     (let rev = CHARSET_REV ! code c in
      if rev = -1 then None else map_option ((#) (word_of_int rev)) (charset_values str))"

definition bech32_Decode :: "string \<Rightarrow> string \<times> byte list" where
  "bech32_Decode str =
     (case case_scan str False False of
        None \<Rightarrow> ([], [])
      | Some (lower, upper) \<Rightarrow>
          if lower \<and> upper then ([], [])
          else case find_last_of CHR ''1'' str (length str) of
            None \<Rightarrow> ([], [])
          | Some pos \<Rightarrow>
              if length str > 90 \<or> pos = 0 \<or> pos + 7 > length str then ([], [])
              else case charset_values (drop (pos + 1) str) of
                None \<Rightarrow> ([], [])
              | Some values \<Rightarrow>
                  let hrp = map LowerCase (take pos str) in
                  if \<not> VerifyChecksum hrp values then ([], [])
                  else (hrp, take (length values - 6) values))"

subsection \<open>The checksum is linear\<close>

definition gen :: "nat \<Rightarrow> u32 \<Rightarrow> u32 \<Rightarrow> u32" where
  "gen i g c = (if bit c (25 + i) then g else 0)"

definition poly_shift :: "u32 \<Rightarrow> u32" where
  "poly_shift c = push_bit 5 (c AND mask 25) XOR gen 0 0x3b6a57b2 c XOR gen 1 0x26508e6d c
     XOR gen 2 0x1ea119fa c XOR gen 3 0x3d4233dd c XOR gen 4 0x2a1462b3 c"

lemma and_power: "(w :: 'a::len word) AND 2 ^ n \<noteq> 0 \<longleftrightarrow> bit w n" if "n < LENGTH('a)"
  using that by (simp add: and_exp_eq_0_iff_not_bit)

lemma PolyMod_step_eq: "PolyMod_step c v = poly_shift c XOR ucast v"
proof -
  have b: "bit (ucast (drop_bit 25 c) :: byte) i \<longleftrightarrow> bit c (25 + i)" if "i < 8" for i
    using that by (simp add: bit_simps)
  have m: "(0x1ffffff :: u32) = mask 25" by (simp add: mask_eq_exp_minus_1)
  have k: "(ucast (drop_bit 25 c) :: byte) AND 1 \<noteq> 0 \<longleftrightarrow> bit c 25"
    "(ucast (drop_bit 25 c) :: byte) AND 2 \<noteq> 0 \<longleftrightarrow> bit c 26"
    "(ucast (drop_bit 25 c) :: byte) AND 4 \<noteq> 0 \<longleftrightarrow> bit c 27"
    "(ucast (drop_bit 25 c) :: byte) AND 8 \<noteq> 0 \<longleftrightarrow> bit c 28"
    "(ucast (drop_bit 25 c) :: byte) AND 16 \<noteq> 0 \<longleftrightarrow> bit c 29"
    using and_power [where 'a = 8 and w = "ucast (drop_bit 25 c)" and n = 0]
      and_power [where 'a = 8 and w = "ucast (drop_bit 25 c)" and n = 1]
      and_power [where 'a = 8 and w = "ucast (drop_bit 25 c)" and n = 2]
      and_power [where 'a = 8 and w = "ucast (drop_bit 25 c)" and n = 3]
      and_power [where 'a = 8 and w = "ucast (drop_bit 25 c)" and n = 4]
      b [of 0] b [of 1] b [of 2] b [of 3] b [of 4] by simp_all
  show ?thesis unfolding PolyMod_step_def Let_def k m poly_shift_def gen_def
    by (simp add: xor.assoc xor.left_commute xor.commute)
qed

lemma gen_xor: "gen i g (a XOR b) = gen i g a XOR gen i g b"
  by (simp add: gen_def bit_simps)

lemma poly_shift_xor: "poly_shift (a XOR b) = poly_shift a XOR poly_shift b"
proof -
  have "push_bit 5 ((a XOR b) AND mask 25) = push_bit 5 (a AND mask 25) XOR push_bit 5 (b AND mask 25)"
    by (rule bit_eqI) (auto simp: bit_simps)
  then show ?thesis by (simp only: poly_shift_def gen_xor ac_simps)
qed

lemma poly_shift_0 [simp]: "poly_shift 0 = 0"
  by (simp add: poly_shift_def gen_def)

lemma foldl_PolyMod_xor:
  "length vs = length ws \<Longrightarrow>
   foldl PolyMod_step (a XOR b) (map2 (XOR) vs ws) = foldl PolyMod_step a vs XOR foldl PolyMod_step b ws"
proof (induction vs ws arbitrary: a b rule: list_induct2)
  case (Cons v vs w ws)
  have "ucast (v XOR w) = (ucast v XOR ucast w :: u32)"
    by (rule bit_eqI) (auto simp: bit_simps)
  then have "PolyMod_step (a XOR b) (v XOR w) = PolyMod_step a v XOR PolyMod_step b w"
    by (simp only: PolyMod_step_eq poly_shift_xor ac_simps)
  with Cons.IH show ?case by simp
qed simp

text \<open>The state stays below 30 bits, and the linear part is injective there.\<close>

abbreviation poly30 :: "u32 \<Rightarrow> bool" where
  "poly30 c \<equiv> take_bit 30 c = c"

lemma take_bit_xor_eq: "take_bit n a = a \<Longrightarrow> take_bit n b = b \<Longrightarrow> take_bit n (a XOR b) = (a XOR b :: u32)"
  by (simp only: take_bit_xor)

lemma poly30_gen: "take_bit 30 g = g \<Longrightarrow> poly30 (gen i g c)"
  by (simp add: gen_def)

lemma poly30_shift: "poly30 (poly_shift c)"
proof -
  have "poly30 (push_bit 5 (c AND mask 25))" by (rule bit_eqI) (auto simp: bit_simps)
  moreover have "poly30 0x3b6a57b2" "poly30 0x26508e6d" "poly30 0x1ea119fa" "poly30 0x3d4233dd" "poly30 0x2a1462b3"
    by (simp_all add: take_bit_eq_mod)
  ultimately show ?thesis unfolding poly_shift_def by (intro take_bit_xor_eq poly30_gen)
qed

lemma poly30_ucast: "poly30 (ucast (v :: byte))"
  by (rule bit_eqI) (auto simp: bit_simps dest: bit_imp_le_length)

lemma poly30_step: "poly30 (PolyMod_step c v)"
  unfolding PolyMod_step_eq by (intro take_bit_xor_eq poly30_shift poly30_ucast)

lemma poly30_foldl: "vs \<noteq> [] \<Longrightarrow> poly30 (foldl PolyMod_step a vs)"
  by (cases vs rule: rev_cases) (simp_all add: poly30_step)

lemma poly_shift_inj:
  assumes "poly_shift c = 0" "poly30 c"
  shows "c = 0"
proof -
  have m: "(31 :: u32) = mask 5" by (simp add: mask_eq_exp_minus_1)
  have low: "push_bit 5 (c AND mask 25) AND 31 = 0"
    unfolding m by (rule bit_eqI) (auto simp: bit_simps)
  have "poly_shift c AND 31 = 0" using assms(1) by simp
  then have g: "(gen 0 0x3b6a57b2 c XOR gen 1 0x26508e6d c
     XOR gen 2 0x1ea119fa c XOR gen 3 0x3d4233dd c XOR gen 4 0x2a1462b3 c) AND 31 = 0"
    using low unfolding poly_shift_def by (simp add: bit.conj_xor_distrib2)
  have none: "\<not> bit c 25 \<and> \<not> bit c 26 \<and> \<not> bit c 27 \<and> \<not> bit c 28 \<and> \<not> bit c 29"
    using g unfolding gen_def by (simp split: if_splits)
  then have "push_bit 5 (c AND mask 25) = 0" using assms(1) by (simp add: poly_shift_def gen_def)
  then have zero: "bit (push_bit 5 (c AND mask 25)) (k + 5) = bit (0 :: u32) (k + 5)" for k by simp
  have "\<not> bit c k" if "k < 25" for k using zero [of k] that by (simp add: bit_simps)
  moreover have "\<not> bit c k" if "30 \<le> k" for k using assms(2) that by (metis bit_take_bit_iff not_less)
  moreover have "k < 25 \<or> k = 25 \<or> k = 26 \<or> k = 27 \<or> k = 28 \<or> k = 29 \<or> 30 \<le> k" for k :: nat by linarith
  ultimately have "\<not> bit c k" for k using none by metis
  then show "c = 0" by (intro bit_eqI) simp
qed

lemma foldl_PolyMod_zero:
  "poly30 a \<Longrightarrow> a \<noteq> 0 \<Longrightarrow> foldl PolyMod_step a (replicate n 0) \<noteq> 0"
proof (induction n arbitrary: a)
  case (Suc n)
  have "PolyMod_step a 0 \<noteq> 0" using poly_shift_inj [of a] Suc.prems by (auto simp: PolyMod_step_eq)
  then show ?case using Suc.IH [OF poly30_step] by simp
qed simp

text \<open>The six checksum digits are those of the remainder: feeding them to a zero state packs it again.\<close>

lemma poly_shift_small: "take_bit 25 c = c \<Longrightarrow> poly_shift c = push_bit 5 c"
proof -
  assume c: "take_bit 25 c = c"
  then have no: "\<not> bit c (25 + i)" for i by (metis bit_take_bit_iff not_add_less1)
  show ?thesis using c no [of 0] no [of 1] no [of 2] no [of 3] no [of 4]
    by (simp add: poly_shift_def gen_def take_bit_eq_mask [symmetric])
qed

lemma pack_digit:
  assumes "take_bit 30 x = x"
  shows "PolyMod_step (drop_bit 5 x) (ucast (x AND 31)) = x"
proof -
  have x: "k < 30" if "bit x k" for k using assms that by (metis bit_take_bit_iff)
  have m: "(31 :: u32) = mask 5" by (simp add: mask_eq_exp_minus_1)
  have small: "take_bit 25 (drop_bit 5 x) = drop_bit 5 x"
    by (rule bit_eqI) (auto simp: bit_simps dest: x)
  show ?thesis unfolding PolyMod_step_eq poly_shift_small [OF small] m
    by (intro bit_eqI) (auto simp: bit_simps)
qed

lemma pack_checksum:
  assumes "poly30 md"
  shows "foldl PolyMod_step 0 (map (\<lambda>i. ucast (drop_bit (5 * (5 - i)) md AND 31)) [0..<6]) = md"
proof -
  have bits: "k < 30" if "bit md k" for k using assms that by (metis bit_take_bit_iff)
  have step: "PolyMod_step (drop_bit (5 * Suc j) md) (ucast (drop_bit (5 * j) md AND 31)) = drop_bit (5 * j) md" for j
  proof -
    have "take_bit 30 (drop_bit (5 * j) md) = drop_bit (5 * j) md"
      by (rule bit_eqI) (auto simp: bit_simps dest: bits)
    from pack_digit [OF this] show ?thesis by (simp add: add.commute)
  qed
  have top: "drop_bit 30 md = 0" using assms by (metis drop_bit_take_bit diff_self_eq_0 take_bit_0)
  have list: "[0..<6] = [0, 1, 2, 3, 4, 5 :: nat]" by (simp add: upt_rec)
  show ?thesis using step [of 5] step [of 4] step [of 3] step [of 2] step [of 1] step [of 0] top
    by (simp add: list)
qed

lemma length_CreateChecksum [simp]: "length (CreateChecksum hrp values) = 6"
  by (simp add: CreateChecksum_def Let_def)

lemma VerifyChecksum_CreateChecksum: "VerifyChecksum hrp (values @ CreateChecksum hrp values)"
proof -
  define pre where "pre = ExpandHRP hrp @ values"
  define a where "a = foldl PolyMod_step 1 pre"
  define md where "md = foldl PolyMod_step a (replicate 6 0) XOR 1"
  have poly: "poly30 md" unfolding md_def
    by (intro take_bit_xor_eq poly30_foldl) simp_all
  have chk: "CreateChecksum hrp values = map (\<lambda>i. ucast (drop_bit (5 * (5 - i)) md AND 31)) [0..<6]" (is "_ = ?chk")
    by (simp add: CreateChecksum_def Cat_def PolyMod_def pre_def md_def a_def Let_def)
  have "map2 (XOR) (replicate 6 0) ?chk = ?chk" by (simp add: list_eq_iff_nth_eq)
  then have "foldl PolyMod_step (a XOR 0) ?chk = foldl PolyMod_step a (replicate 6 0) XOR foldl PolyMod_step 0 ?chk"
    using foldl_PolyMod_xor [of "replicate 6 0" ?chk a 0] by simp
  also have "foldl PolyMod_step 0 ?chk = md" by (rule pack_checksum [OF poly])
  also have "foldl PolyMod_step a (replicate 6 0) XOR md = 1" by (simp add: md_def)
  finally show ?thesis by (simp add: VerifyChecksum_def Cat_def PolyMod_def chk a_def pre_def)
qed

subsection \<open>Encoding and decoding\<close>

definition lower_char :: "char \<Rightarrow> bool" where
  "lower_char c \<longleftrightarrow> 33 \<le> code c \<and> code c \<le> 126 \<and> \<not> (code CHR ''A'' \<le> code c \<and> code c \<le> code CHR ''Z'')"

lemma CHARSET_facts:
  "n < 32 \<Longrightarrow> CHARSET_REV ! code (CHARSET ! n) = int n \<and> CHARSET ! n \<noteq> CHR ''1'' \<and> lower_char (CHARSET ! n)"
proof -
  have "list_all (\<lambda>n. CHARSET_REV ! code (CHARSET ! n) = int n \<and> CHARSET ! n \<noteq> CHR ''1''
    \<and> lower_char (CHARSET ! n)) [0..<32]" by code_simp
  then show "n < 32 \<Longrightarrow> ?thesis" unfolding list_all_iff by simp
qed

abbreviation five_bits :: "byte list \<Rightarrow> bool" where
  "five_bits vs \<equiv> \<forall>v \<in> set vs. unat v < 32"

lemma length_CHARSET: "length CHARSET = 32"
  by (simp add: CHARSET_def)

lemma charset_text_five_bits: "five_bits vs \<Longrightarrow> charset_text vs = Some (map (\<lambda>v. CHARSET ! unat v) vs)"
  by (induction vs) (auto simp: length_CHARSET nth_append)

lemma charset_values_text: "five_bits vs \<Longrightarrow> charset_values (map (\<lambda>v. CHARSET ! unat v) vs) = Some vs"
  by (induction vs) (auto simp: CHARSET_facts Let_def)

lemma five_bits_CreateChecksum: "five_bits (CreateChecksum hrp values)"
proof -
  have "unat (ucast (w AND 31 :: u32) :: byte) < 32" for w
  proof -
    have m: "(31 :: u32) = mask 5" by (simp add: mask_eq_exp_minus_1)
    have "w AND 31 = take_bit 5 w" by (simp only: m take_bit_eq_mask)
    then have "unat (w AND 31) < 32"
      using take_bit_nat_less_exp [of 5 "unat w"] by (simp add: unsigned_take_bit_eq)
    then show ?thesis by (simp add: unat_ucast_less)
  qed
  then show ?thesis by (auto simp: CreateChecksum_def Let_def)
qed

definition hrp_ok :: "string \<Rightarrow> bool" where
  "hrp_ok hrp \<longleftrightarrow> hrp \<noteq> [] \<and> (\<forall>c \<in> set hrp. lower_char c)"

lemma case_scan_lower:
  "\<forall>c \<in> set str. lower_char c \<Longrightarrow> \<exists>l. case_scan str lower False = Some (l, False)"
  by (induction str arbitrary: lower) (auto simp: lower_char_def)

lemma map_LowerCase:
  "\<forall>c \<in> set hrp. lower_char c \<Longrightarrow> map LowerCase hrp = hrp"
  by (induction hrp) (auto simp: LowerCase_def lower_char_def)

subsection \<open>Properties\<close>

lemma bech32_decode_encode:
  assumes "hrp_ok hrp" "five_bits values" "length hrp + length values + 7 \<le> 90"
  shows "\<exists>str. bech32_Encode hrp values = Some str \<and> bech32_Decode str = (hrp, values)"
proof -
  define vs where "vs = values @ CreateChecksum hrp values"
  define t where "t = map (\<lambda>v. CHARSET ! unat v) vs"
  have five: "five_bits vs" using assms(2) five_bits_CreateChecksum by (auto simp: vs_def)
  have enc: "bech32_Encode hrp values = Some (hrp @ CHR ''1'' # t)"
    by (simp add: bech32_Encode_def Cat_def vs_def [symmetric] charset_text_five_bits [OF five] t_def Let_def)
  have no_one: "CHR ''1'' \<notin> set t" and chars: "\<forall>c \<in> set t. lower_char c"
    using five CHARSET_facts by (force simp: t_def)+
  have one: "lower_char CHR ''1''" by code_simp
  have len: "length t = length values + 6" by (simp add: t_def vs_def)
  have "\<forall>c \<in> set (hrp @ CHR ''1'' # t). lower_char c"
    using assms(1) chars one by (simp add: hrp_ok_def ball_Un)
  then obtain l where scan: "case_scan (hrp @ CHR ''1'' # t) False False = Some (l, False)"
    using case_scan_lower by blast
  have pos: "find_last_of CHR ''1'' (hrp @ CHR ''1'' # t) (length (hrp @ CHR ''1'' # t)) = Some (length hrp)"
    using no_one by (intro find_last_of_append) simp_all
  have vals: "charset_values t = Some vs" unfolding t_def by (rule charset_values_text [OF five])
  have lower: "map LowerCase hrp = hrp" using assms(1) by (intro map_LowerCase) (auto simp: hrp_ok_def)
  have "bech32_Decode (hrp @ CHR ''1'' # t) = (hrp, values)"
    using assms(1,3) VerifyChecksum_CreateChecksum [of hrp "values"] scan pos
    by (simp add: bech32_Decode_def vals lower len hrp_ok_def vs_def)
  with enc show ?thesis by blast
qed

text \<open>(C27) A lower-case human-readable part and 5-bit values encoded in at most 90 characters are decoded again: the
  checksum that \<^verbatim>\<open>CreateChecksum\<close> appends is the one \<^verbatim>\<open>VerifyChecksum\<close> asks for.\<close>

theorem bech32_roundtrip:
  assumes "hrp_ok hrp" "five_bits values" "length hrp + length values + 7 \<le> 90"
  shows "\<exists>str. bech32_Encode hrp values = Some str \<and> bech32_Decode str = (hrp, values)"
  using assms by (rule bech32_decode_encode)

theorem bech32_roundtrip_witness:
  "\<exists>str. bech32_Encode ''bc'' [0, 14, 20, 15] = Some str \<and> bech32_Decode str = (''bc'', [0, 14, 20, 15])"
proof (rule bech32_roundtrip)
  show "hrp_ok ''bc''" by code_simp
qed simp_all

text \<open>(C26) One wrong character is always detected: if values pass the checksum, no change of a single one of them to
  another 5-bit value does, whatever its position and the length of the text.\<close>

theorem VerifyChecksum_single_error:
  assumes "VerifyChecksum hrp values" "five_bits values" "unat x < 32" "i < length values" "x \<noteq> values ! i"
  shows "\<not> VerifyChecksum hrp (values[i := x])"
proof -
  define a where "a = foldl PolyMod_step 1 (ExpandHRP hrp @ take i values)"
  define rest where "rest = drop (Suc i) values"
  define v where "v = values ! i"
  have split: "values = take i values @ v # rest" using assms(4) by (simp add: v_def rest_def id_take_nth_drop)
  then have split': "values[i := x] = take i values @ x # rest"
    using assms(4) by (simp add: rest_def upd_conv_take_nth_drop)
  have poly: "PolyMod (ExpandHRP hrp @ take i values @ y # rest) = foldl PolyMod_step (PolyMod_step a y) rest" for y
    by (simp add: PolyMod_def a_def)
  let ?d = "ucast v XOR ucast x :: u32"
  have nz: "?d \<noteq> 0"
  proof
    assume "?d = 0"
    then have "(ucast v :: u32) = ucast x" by (simp add: word_xor_zero_iff)
    from arg_cong [OF this, of unat] have "unat v = unat x" by (simp add: unat_ucast_up)
    then show False using assms(5) by (simp add: v_def word_unat_eq_iff)
  qed
  have step: "PolyMod_step a v XOR PolyMod_step a x = ?d"
    unfolding PolyMod_step_eq by (rule bit_eqI) (auto simp: bit_xor_iff)
  have "foldl PolyMod_step (PolyMod_step a v) rest XOR foldl PolyMod_step (PolyMod_step a x) rest
      = foldl PolyMod_step (PolyMod_step a v XOR PolyMod_step a x) (map2 (XOR) rest rest)"
    by (simp add: foldl_PolyMod_xor)
  also have "map2 (XOR) rest rest = replicate (length rest) 0" by (simp add: list_eq_iff_nth_eq)
  also have "foldl PolyMod_step (PolyMod_step a v XOR PolyMod_step a x) (replicate (length rest) 0) \<noteq> 0"
    unfolding step by (intro foldl_PolyMod_zero take_bit_xor_eq poly30_ucast nz)
  finally have "foldl PolyMod_step (PolyMod_step a v) rest \<noteq> foldl PolyMod_step (PolyMod_step a x) rest"
    by (metis xor_self_eq)
  then show ?thesis using assms(1) poly [of v] poly [of x] split split'
    by (metis Cat_def VerifyChecksum_def)
qed

theorem VerifyChecksum_single_error_witness:
  "\<not> VerifyChecksum ''bc'' (([1, 2] @ CreateChecksum ''bc'' [1, 2])[0 := 3])"
proof -
  have "five_bits ([1, 2] @ CreateChecksum ''bc'' [1, 2])" using five_bits_CreateChecksum by auto
  from VerifyChecksum_single_error [OF VerifyChecksum_CreateChecksum this, of 3 0] show ?thesis by simp
qed

end
