(* ===== verification/KeyIO.thy ===== *)
theory KeyIO
  imports Bech32
begin

section \<open>Addresses: key_io.h, key_io.cpp\<close>

text \<open>
  \<^verbatim>\<open>EncodeDestination\<close> visits the variant: hashes of keys and scripts become base-58 texts with a version
  byte and a checksum, witness programs bech32 texts of their version and their 5-bit groups.
\<close>

subsection \<open>Encoding\<close>

definition witness_data :: "byte \<Rightarrow> byte list \<Rightarrow> byte list" where
  "witness_data version prog = [version] @ map ucast (fst (ConvertBits 8 5 True prog))"

fun EncodeDestination :: "('s, 'r) mbedtls \<Rightarrow> CTxDestination \<Rightarrow> string asserting" where
  "EncodeDestination m CNoDestination = Some []"
| "EncodeDestination m (CKeyID arg) = EncodeBase58Check m ([0] @ blob_data arg)"
| "EncodeDestination m (CScriptID arg) = EncodeBase58Check m ([5] @ blob_data arg)"
| "EncodeDestination m (WitnessV0KeyHash arg) = bech32_Encode ''bc'' (witness_data 0 (blob_data arg))"
| "EncodeDestination m (WitnessV0ScriptHash arg) = bech32_Encode ''bc'' (witness_data 0 (blob_data arg))"
| "EncodeDestination m (WitnessUnknown version len program) =
     (if version < 1 \<or> version > 16 \<or> len < 2 \<or> len > 40 then Some []
      else bech32_Encode ''bc'' (witness_data (ucast version) (take (unat len) program)))"

text \<open>
  The readers of the two kinds of text are the parts' own decoders. A bech32 text stands for a version
  and a program when it decodes to the version and 5-bit groups that \<^verbatim>\<open>ConvertBits\<close> joins to the
  program's bytes without rejecting the padding.
\<close>

definition witness_text :: "string \<Rightarrow> byte \<Rightarrow> byte list \<Rightarrow> bool" where
  "witness_text s version prog \<longleftrightarrow>
     (case bech32_Decode s of (hrp, ver # vals) \<Rightarrow>
        hrp = ''bc'' \<and> ver = version \<and> ConvertBits 5 8 False vals = (map ucast prog, True)
      | _ \<Rightarrow> False)"

fun destination_ok :: "CTxDestination \<Rightarrow> bool" where
  "destination_ok CNoDestination = True"
| "destination_ok (CKeyID h) = blob_ok 20 h"
| "destination_ok (CScriptID h) = blob_ok 20 h"
| "destination_ok (WitnessV0KeyHash h) = blob_ok 20 h"
| "destination_ok (WitnessV0ScriptHash h) = blob_ok 32 h"
| "destination_ok (WitnessUnknown v l p) = (length p = 40)"

lemma ConvertBits_8_5:
  obtains outs where "ConvertBits 8 5 True prog = (outs, True)" "\<forall>v \<in> set outs. take_bit 5 v = v"
    "5 * length outs < 8 * length prog + 5"
proof -
  have full: "\<forall>v \<in> set prog. take_bit 8 v = v" by (simp add: take_bit_word_eq_self)
  obtain outs p where enc: "ConvertBits 8 5 True prog = (outs, True)" "p < 5"
    "concat (map (low_bits 5) outs) = concat (map (low_bits 8) prog) @ replicate p False"
    "\<forall>v \<in> set outs. take_bit 5 v = v"
    by (rule ConvertBits_pad_bits [OF base32.widths(1) base32.bounds(2,1) base32.widths(3) full])
  from arg_cong [OF enc(3), of length] have "5 * length outs = 8 * length prog + p"
    unfolding length_append length_chunks by simp
  with enc show thesis using that by simp
qed

lemma witness_encodes:
  assumes "length prog \<le> 40" "unat version < 32"
  shows "\<exists>s. bech32_Encode ''bc'' (witness_data version prog) = Some s \<and> witness_text s version prog"
proof -
  obtain outs where outs: "ConvertBits 8 5 True prog = (outs, True)" "\<forall>v \<in> set outs. take_bit 5 v = v"
    "5 * length outs < 8 * length prog + 5"
    by (rule ConvertBits_8_5)
  have data: "witness_data version prog = version # map ucast outs" by (simp add: witness_data_def outs(1))
  have small: "unat (ucast v :: byte) < 32" if "v \<in> set outs" for v
  proof -
    have "(ucast v :: byte) = take_bit 5 (ucast v)" using outs(2) that by (intro base32.take_bit_ucast [symmetric]) auto
    then have "unat (ucast v :: byte) = take_bit 5 (unat (ucast v :: byte))" by (metis unsigned_take_bit_eq)
    then show ?thesis using take_bit_nat_less_exp [of 5 "unat (ucast v :: byte)"] by simp
  qed
  have "hrp_ok ''bc''" by code_simp
  moreover have "five_bits (witness_data version prog)" using small assms(2) by (auto simp: data)
  moreover have "length ''bc'' + length (witness_data version prog) + 7 \<le> 90"
    using outs(3) assms(1) by (simp add: data)
  ultimately obtain s where s: "bech32_Encode ''bc'' (witness_data version prog) = Some s"
    "bech32_Decode s = (''bc'', witness_data version prog)"
    using bech32_decode_encode by blast
  have "ConvertBits 5 8 False (map ucast outs) = (map ucast prog, True)"
    using base32.decode_encode [of prog] outs(1) by (simp add: take_bit_word_eq_self)
  with s show ?thesis by (auto simp: witness_text_def data)
qed

lemma base58_destination:
  assumes "computes m sha ripemd" "blob_ok 20 h"
  shows "\<exists>s. EncodeBase58Check m (v # blob_data h) = Some s \<and> DecodeBase58Check m s = Some (Some (v # blob_data h))"
proof -
  let ?vch = "v # blob_data h"
  define payload where "payload = ?vch @ take 4 (blob_data (Hash_range m ?vch))"
  have len: "length payload \<le> 25" using assms(2) by (simp add: payload_def blob_ok_def)
  then have "length payload \<le> 10 ^ 8" by simp
  then obtain s where "EncodeBase58 payload = Some s" "length s \<le> 3 * length payload + 1"
    by (rule EncodeBase58_length)
  then have s: "EncodeBase58Check m ?vch = Some s" "length s \<le> 3 * 25 + 1"
    using len by (simp_all add: EncodeBase58Check_def Let_def payload_def)
  have "DecodeBase58Check m s = Some (Some ?vch)"
  proof (rule base58check_inverse [THEN iffD2, OF _ _ assms(1)])
    show "length s \<le> 10 ^ 9" using s(2) by simp
    show "length ?vch \<le> 10 ^ 8" using assms(2) by (simp add: blob_ok_def)
    show "\<exists>l e r. EncodeBase58Check m ?vch = Some e \<and> s = l @ e @ r
        \<and> (\<forall>c \<in> set l. IsSpace c) \<and> (\<forall>c \<in> set r. IsSpace c)"
      by (intro exI [of _ "[]"] exI [of _ s]) (simp add: s(1))
  qed
  with s show ?thesis by blast
qed

subsection \<open>Property\<close>

text \<open>(C38) \<^verbatim>\<open>EncodeDestination\<close> is total and its texts are read back by the parts' decoders: an address of a key or
  a script decodes to version byte 0 or 5 and the hash, one of a witness program to its version and
  program; only no destination, and a witness version or length out of range, give the empty text.\<close>

theorem EncodeDestination_readable:
  assumes "computes m sha ripemd" "destination_ok dest"
  shows "\<exists>s. EncodeDestination m dest = Some s \<and>
    (case dest of
       CNoDestination \<Rightarrow> s = []
     | CKeyID h \<Rightarrow> DecodeBase58Check m s = Some (Some (0 # blob_data h))
     | CScriptID h \<Rightarrow> DecodeBase58Check m s = Some (Some (5 # blob_data h))
     | WitnessV0KeyHash h \<Rightarrow> witness_text s 0 (blob_data h)
     | WitnessV0ScriptHash h \<Rightarrow> witness_text s 0 (blob_data h)
     | WitnessUnknown v l p \<Rightarrow>
         if 1 \<le> v \<and> v \<le> 16 \<and> 2 \<le> l \<and> l \<le> 40 then witness_text s (ucast v) (take (unat l) p) else s = [])"
proof (cases dest)
  case (WitnessUnknown v l p)
  show ?thesis
  proof (cases "1 \<le> v \<and> v \<le> 16 \<and> 2 \<le> l \<and> l \<le> 40")
    case True
    then have "unat v \<le> 16" by (simp add: word_le_nat_alt)
    then have "unat (ucast v :: byte) < 32" by (simp add: unsigned_ucast_eq take_bit_nat_eq_self)
    then obtain s where "bech32_Encode ''bc'' (witness_data (ucast v) (take (unat l) p)) = Some s"
      "witness_text s (ucast v) (take (unat l) p)"
      using witness_encodes [of "take (unat l) p" "ucast v"] assms(2) WitnessUnknown by auto
    moreover have "\<not> (v < 1 \<or> v > 16 \<or> l < 2 \<or> l > 40)" using True by (auto simp: not_less)
    ultimately show ?thesis using True by (simp only: WitnessUnknown) simp
  qed (auto simp: WitnessUnknown not_less not_le)
qed (use assms base58_destination [OF assms(1)] witness_encodes [where version = 0]
      in \<open>auto simp: blob_ok_def\<close>)

theorem EncodeDestination_readable_witness:
  "\<exists>s. EncodeDestination buffering (CScriptID (base_blob_new 20)) = Some s
    \<and> DecodeBase58Check buffering s = Some (Some (5 # replicate 20 0))"
  using EncodeDestination_readable [OF computes_buffering, of "CScriptID (base_blob_new 20)"]
  by (simp add: base_blob_new_def blob_ok_def)

end
