(* ===== verification/Runtime.thy ===== *)
theory Runtime
  imports Streams Script
begin

section \<open>What the server's parts share: actions, memory, printed numbers\<close>

text \<open>
  The handlers of the server change shared state, throw exceptions and can go wrong in ways C++ leaves
  undefined. An \<open>action\<close> maps a state to a value and a new state, to an exception with the state it is
  thrown in (what was done before the throw stays done), or to a \<open>fault\<close>, where the process does not
  continue: a null dereference, an access outside a block of memory, a failed \<^verbatim>\<open>assert\<close>, an exception
  no handler catches, the use of a variable that was never set, a \<^verbatim>\<open>memcpy\<close> that leaves a block,
  the end of a function that should return a value and does not.

  A block of memory is the list of the bytes that may be read from its start; reading past its end is
  an out-of-bounds fault. Strings of bytes and of characters are converted by \<open>to_bytes\<close> and
  \<open>to_text\<close>.
\<close>

datatype fault = Null_dereference | Out_of_bounds | Assertion_failed | Uncaught_exception
  | Indeterminate_value | Heap_overflow | Missing_return

datatype ('a, 'w) outcome = Val 'a 'w | Exc 'w | Fault fault

type_synonym ('a, 'w) action = "'w \<Rightarrow> ('a, 'w) outcome"

definition ret :: "'a \<Rightarrow> ('a, 'w) action" where
  "ret x = Val x"

definition bindA :: "('a, 'w) action \<Rightarrow> ('a \<Rightarrow> ('b, 'w) action) \<Rightarrow> ('b, 'w) action" where
  "bindA m f w = (case m w of Val x w' \<Rightarrow> f x w' | Exc w' \<Rightarrow> Exc w' | Fault e \<Rightarrow> Fault e)"

definition or_throw :: "'a option \<Rightarrow> ('a, 'w) action" where
  "or_throw x w = (case x of Some v \<Rightarrow> Val v w | None \<Rightarrow> Exc w)"

definition or_fault :: "fault \<Rightarrow> 'a option \<Rightarrow> ('a, 'w) action" where
  "or_fault e x w = (case x of Some v \<Rightarrow> Val v w | None \<Rightarrow> Fault e)"

definition fault :: "fault \<Rightarrow> ('a, 'w) action" where
  "fault e w = Fault e"

definition read_state :: "('w \<Rightarrow> 'a) \<Rightarrow> ('a, 'w) action" where
  "read_state f w = Val (f w) w"

definition modify :: "('w \<Rightarrow> 'w) \<Rightarrow> (unit, 'w) action" where
  "modify f w = Val () (f w)"

text \<open>A call of a function of another library, which always returns.\<close>

definition call :: "('w \<Rightarrow> 'a \<times> 'w) \<Rightarrow> ('a, 'w) action" where
  "call f w = (case f w of (x, w') \<Rightarrow> Val x w')"

text \<open>A \<^verbatim>\<open>catch\<close> of the exceptions, and an exception that reaches code without a handler.\<close>

definition catchA :: "('a, 'w) action \<Rightarrow> ('a, 'w) action \<Rightarrow> ('a, 'w) action" where
  "catchA m h w = (case m w of Exc w' \<Rightarrow> h w' | r \<Rightarrow> r)"

definition uncaught :: "('a, 'w) action \<Rightarrow> ('a, 'w) action" where
  "uncaught m w = (case m w of Exc w' \<Rightarrow> Fault Uncaught_exception | r \<Rightarrow> r)"

named_theorems action_simps \<open>one step of an action\<close>

lemma action_steps [action_simps]:
  "bindA (ret x) f = f x"
  "ret x w = Val x w"
  "m w = Val x w' \<Longrightarrow> bindA m f w = f x w'"
  "m w = Exc w' \<Longrightarrow> bindA m f w = Exc w'"
  "m w = Fault e \<Longrightarrow> bindA m f w = Fault e"
  "or_throw (Some v) = ret v"
  "or_throw None w = Exc w"
  "or_fault e (Some v) = ret v"
  "or_fault e None w = Fault e"
  "fault e w = Fault e"
  "read_state g w = Val (g w) w"
  "modify h w = Val () (h w)"
  by (simp_all add: fun_eq_iff bindA_def ret_def or_throw_def or_fault_def fault_def read_state_def
      modify_def)

lemma bindA_cong [fundef_cong]:
  "m = m' \<Longrightarrow> (\<And>x. f x = g x) \<Longrightarrow> bindA m f = bindA m' g"
  by (metis ext)

lemma bindA_assoc: "bindA (bindA m f) g = bindA m (\<lambda>x. bindA (f x) g)"
  by (auto simp: fun_eq_iff bindA_def split: outcome.splits)

lemma bindA_ret: "bindA m ret = m"
  by (auto simp: fun_eq_iff bindA_def ret_def split: outcome.splits)

text \<open>
  Statements about every outcome of an action: \<open>holds P E F m w\<close> bounds the values by \<open>P\<close>, the states
  exceptions are thrown in by \<open>E\<close> and the faults by \<open>F\<close>.
\<close>

definition holds ::
  "('a \<Rightarrow> 'w \<Rightarrow> bool) \<Rightarrow> ('w \<Rightarrow> bool) \<Rightarrow> (fault \<Rightarrow> bool) \<Rightarrow> ('a, 'w) action \<Rightarrow> 'w \<Rightarrow> bool" where
  "holds P E F m w = (case m w of Val x w' \<Rightarrow> P x w' | Exc w' \<Rightarrow> E w' | Fault e \<Rightarrow> F e)"

named_theorems holds_rules \<open>rules for holds\<close>

lemma holds_ret [holds_rules]: "P x w \<Longrightarrow> holds P E F (ret x) w"
  by (simp add: holds_def ret_def)

lemma holds_bind [holds_rules]:
  "holds (\<lambda>x. holds P E F (f x)) E F m w \<Longrightarrow> holds P E F (bindA m f) w"
  by (auto simp: holds_def bindA_def split: outcome.splits)

lemma holds_or_throw [holds_rules]:
  "(\<And>v. x = Some v \<Longrightarrow> P v w) \<Longrightarrow> (x = None \<Longrightarrow> E w) \<Longrightarrow> holds P E F (or_throw x) w"
  by (auto simp: holds_def or_throw_def split: option.splits)

lemma holds_or_fault [holds_rules]:
  "(\<And>v. x = Some v \<Longrightarrow> P v w) \<Longrightarrow> (x = None \<Longrightarrow> F e) \<Longrightarrow> holds P E F (or_fault e x) w"
  by (auto simp: holds_def or_fault_def split: option.splits)

lemma holds_fault [holds_rules]: "F e \<Longrightarrow> holds P E F (fault e) w"
  by (simp add: holds_def fault_def)

lemma holds_read_state [holds_rules]: "P (g w) w \<Longrightarrow> holds P E F (read_state g) w"
  by (simp add: holds_def read_state_def)

lemma holds_modify [holds_rules]: "P () (h w) \<Longrightarrow> holds P E F (modify h) w"
  by (simp add: holds_def modify_def)

lemma holds_call: "(\<And>x w'. f w = (x, w') \<Longrightarrow> P x w') \<Longrightarrow> holds P E F (call f) w"
  by (auto simp: holds_def call_def split: prod.splits)

lemma holds_catch [holds_rules]:
  "holds P (\<lambda>w. holds P E F h w) F m w \<Longrightarrow> holds P E F (catchA m h) w"
  by (auto simp: holds_def catchA_def split: outcome.splits)

lemma holds_uncaught [holds_rules]:
  "holds P (\<lambda>w. F Uncaught_exception) F m w \<Longrightarrow> holds P E F (uncaught m) w"
  by (auto simp: holds_def uncaught_def split: outcome.splits)

lemma holds_weaken:
  "holds P E F m w \<Longrightarrow> (\<And>x w. P x w \<Longrightarrow> P' x w) \<Longrightarrow> (\<And>w. E w \<Longrightarrow> E' w) \<Longrightarrow> (\<And>e. F e \<Longrightarrow> F' e)
    \<Longrightarrow> holds P' E' F' m w"
  by (auto simp: holds_def split: outcome.splits)

lemma holds_bind_any:
  assumes "\<And>x w. holds P (\<lambda>_. True) (\<lambda>_. True) (f x) w"
  shows "holds P (\<lambda>_. True) (\<lambda>_. True) (bindA m f) w"
  using assms by (cases "m w") (simp_all add: holds_def bindA_def)

lemma holdsE:
  assumes "holds P E F m w"
  obtains x w' where "m w = Val x w'" "P x w'" | w' where "m w = Exc w'" "E w'" | e where "m w = Fault e" "F e"
  using assms by (auto simp: holds_def split: outcome.splits)

subsection \<open>Characters and bytes\<close>

definition to_bytes :: "string \<Rightarrow> byte list" where
  "to_bytes = map (\<lambda>c. of_nat (code c))"

definition to_text :: "byte list \<Rightarrow> string" where
  "to_text = map (\<lambda>b. char_of (unat b))"

lemma to_text_to_bytes [simp]: "to_text (to_bytes s) = s"
  by (simp add: to_text_def to_bytes_def comp_def unat_of_nat_id)

lemma to_bytes_append [simp]: "to_bytes (s @ t) = to_bytes s @ to_bytes t"
  by (simp add: to_bytes_def)

text \<open>The decimal text of a number, as \<^verbatim>\<open>operator<<\<close> and \<^verbatim>\<open>fmt::format("{}")\<close> print an \<^verbatim>\<open>int\<close>.\<close>

fun decimal_nat :: "nat \<Rightarrow> string" where
  "decimal_nat n =
     (if n < 10 then [char_of (48 + n)] else decimal_nat (n div 10) @ [char_of (48 + n mod 10)])"

declare decimal_nat.simps [simp del]

definition decimal :: "int \<Rightarrow> string" where
  "decimal i = (if i < 0 then CHR ''-'' # decimal_nat (nat (- i)) else decimal_nat (nat i))"

subsection \<open>Searching memory\<close>

text \<open>
  \<^verbatim>\<open>strchr\<close> and \<^verbatim>\<open>strstr\<close> on the memory from a pointer on: they look at one byte after the other and stop at a
  match or at the first NUL. \<open>None\<close> is a search that leaves the block.
\<close>

fun strchr :: "byte list \<Rightarrow> byte \<Rightarrow> nat option option" where
  "strchr [] c = None"
| "strchr (b # mem) c =
     (if b = c then Some (Some 0) else if b = 0 then Some None
      else map_option (map_option Suc) (strchr mem c))"

fun matches_at :: "byte list \<Rightarrow> byte list \<Rightarrow> bool option" where
  "matches_at mem [] = Some True"
| "matches_at [] (p # pat) = None"
| "matches_at (b # mem) (p # pat) = (if b = p then matches_at mem pat else Some False)"

fun strstr :: "byte list \<Rightarrow> byte list \<Rightarrow> nat option option" where
  "strstr mem pat =
     (case matches_at mem pat of
        None \<Rightarrow> None
      | Some True \<Rightarrow> Some (Some 0)
      | Some False \<Rightarrow>
          (case mem of
             [] \<Rightarrow> None
           | b # rest \<Rightarrow> if b = 0 then Some None else map_option (map_option Suc) (strstr rest pat)))"

declare strstr.simps [simp del]

text \<open>In a block that holds a NUL both searches stay inside it.\<close>

lemma strchr_nul: "0 \<in> set mem \<Longrightarrow> strchr mem c \<noteq> None"
  by (induction mem) auto

lemma strchr_Some_Some: "strchr mem c = Some (Some i) \<Longrightarrow> i < length mem \<and> mem ! i = c \<and> c \<notin> set (take i mem)"
  by (induction mem arbitrary: i) (auto split: if_splits)

lemma strchr_found: "c \<notin> set m \<Longrightarrow> 0 \<notin> set m \<Longrightarrow> strchr (m @ c # r) c = Some (Some (length m))"
  by (induction m) auto

lemma strchr_absent: "c \<notin> set m \<Longrightarrow> 0 \<notin> set m \<Longrightarrow> c \<noteq> 0 \<Longrightarrow> strchr (m @ 0 # r) c = Some None"
  by (induction m) auto

lemma strchr_leaves: "c \<notin> set m \<Longrightarrow> 0 \<notin> set m \<Longrightarrow> strchr m c = None"
  by (induction m) auto

lemma matches_at_eq: "matches_at mem pat = Some True \<longleftrightarrow> take (length pat) mem = pat"
  by (induction mem pat rule: matches_at.induct) auto

lemma matches_at_nul: "0 \<in> set mem \<Longrightarrow> 0 \<notin> set pat \<Longrightarrow> matches_at mem pat \<noteq> None"
  by (induction mem pat rule: matches_at.induct) auto

lemma strstr_nul: "0 \<in> set mem \<Longrightarrow> 0 \<notin> set pat \<Longrightarrow> strstr mem pat \<noteq> None"
proof (induction mem)
  case (Cons b mem)
  then show ?case using matches_at_nul [of "b # mem" pat]
    by (subst strstr.simps) (auto split: option.splits bool.splits)
qed simp

lemma strstr_zero: "strstr mem pat = Some (Some 0) \<longleftrightarrow> take (length pat) mem = pat"
  by (subst strstr.simps) (auto simp: matches_at_eq [symmetric] split: option.splits bool.splits list.splits)

text \<open>In a block with neither a NUL nor the first character of the pattern \<^verbatim>\<open>strstr\<close> leaves the block.\<close>

lemma strstr_leaves: "0 \<notin> set mem \<Longrightarrow> p \<notin> set mem \<Longrightarrow> strstr mem (p # pat) = None"
proof (induction mem)
  case (Cons b mem)
  then show ?case by (subst strstr.simps) auto
qed (simp add: strstr.simps)

end
