(* ===== verification/Prevector.thy ===== *)
theory Prevector
  imports Runtime
begin

section \<open>A vector with room for short contents: prevector.h\<close>

text \<open>
  The template parameter \<open>N\<close> and whether an allocation succeeds are the fields of \<open>pv_params\<close>. The union
  holds either the direct array or the pointer to an allocated block with its capacity; which of the
  two is read is decided by \<^verbatim>\<open>_size\<close> alone, and reading the one that is not stored is a fault. The elements
  of a block are options, \<open>None\<close> where nothing was constructed yet. An iterator is its position, counted
  from \<^verbatim>\<open>begin()\<close>; elements are values, so that an argument that refers into the vector itself is not
  modelled. Sizes are 32 bits and wrap; a pointer is formed from a signed difference.
\<close>

record pv_params =
  pvN :: u32
  pv_malloc :: "nat \<Rightarrow> bool"

datatype 'a pv_union = direct "'a option list" | indirect u32 "'a option list"

record 'a prevector =
  pv_size :: u32
  pv_union :: "'a pv_union"

type_synonym ('r, 'a) pv_action = "('r, 'a prevector) action"

definition is_direct :: "pv_params \<Rightarrow> 'a prevector \<Rightarrow> bool" where
  "is_direct P v \<longleftrightarrow> pv_size v \<le> pvN P"

definition prevector_size :: "pv_params \<Rightarrow> 'a prevector \<Rightarrow> u32" where
  "prevector_size P v = (if is_direct P v then pv_size v else pv_size v - pvN P - 1)"

definition prevector_empty :: "pv_params \<Rightarrow> 'a prevector \<Rightarrow> bool" where
  "prevector_empty P v \<longleftrightarrow> prevector_size P v = 0"

definition pv_block :: "pv_params \<Rightarrow> 'a prevector \<Rightarrow> 'a option list option" where
  "pv_block P v =
     (case pv_union v of
        direct b \<Rightarrow> if is_direct P v then Some b else None
      | indirect c b \<Rightarrow> if is_direct P v then None else Some b)"

definition with_block :: "'a option list \<Rightarrow> 'a prevector \<Rightarrow> 'a prevector" where
  "with_block b v = v\<lparr>pv_union := (case pv_union v of direct _ \<Rightarrow> direct b | indirect c _ \<Rightarrow> indirect c b)\<rparr>"

definition prevector_capacity :: "pv_params \<Rightarrow> (u32, 'a) pv_action" where
  "prevector_capacity P v =
     (if is_direct P v then Val (pvN P) v
      else (case pv_union v of direct _ \<Rightarrow> Fault Indeterminate_value | indirect c _ \<Rightarrow> Val c v))"

text \<open>Copying the first elements into new memory of a size.\<close>

definition copied :: "nat \<Rightarrow> nat \<Rightarrow> 'a option list \<Rightarrow> 'a option list" where
  "copied n len src = take n src @ replicate (len - n) None"

definition change_capacity :: "pv_params \<Rightarrow> u32 \<Rightarrow> (unit, 'a) pv_action" where
  "change_capacity P new_capacity v =
     (let n = unat (prevector_size P v) in
      if new_capacity \<le> pvN P then
        if \<not> is_direct P v then
          (case pv_block P v of
             None \<Rightarrow> Fault Indeterminate_value
           | Some src \<Rightarrow>
               if n > length src \<or> n > unat (pvN P) then Fault Heap_overflow
               else Val () \<lparr>pv_size = pv_size v - (pvN P + 1), pv_union = direct (copied n (unat (pvN P)) src)\<rparr>)
        else Val () v
      else if \<not> pv_malloc P (unat new_capacity) then Fault Assertion_failed
      else
        (case pv_block P v of
           None \<Rightarrow> Fault Indeterminate_value
         | Some src \<Rightarrow>
             if \<not> is_direct P v then
               Val () (v\<lparr>pv_union := indirect new_capacity (copied (min (length src) (unat new_capacity)) (unat new_capacity) src)\<rparr>)
             else if n > length src \<or> n > unat new_capacity then Fault Heap_overflow
             else Val () \<lparr>pv_size = pv_size v + (pvN P + 1), pv_union = indirect new_capacity (copied n (unat new_capacity) src)\<rparr>))"

text \<open>Elements constructed from a position on, elements moved, and the sizes changed.\<close>

definition fill :: "pv_params \<Rightarrow> u32 \<Rightarrow> 'a list \<Rightarrow> (unit, 'a) pv_action" where
  "fill P pos xs v =
     (case pv_block P v of
        None \<Rightarrow> Fault Indeterminate_value
      | Some b \<Rightarrow>
          if sint pos < 0 \<or> unat pos + length xs > length b then Fault Heap_overflow
          else Val () (with_block (overwrite (unat pos) (map Some xs) b) v))"

definition move_up :: "pv_params \<Rightarrow> u32 \<Rightarrow> u32 \<Rightarrow> (unit, 'a) pv_action" where
  "move_up P p count v =
     (case pv_block P v of
        None \<Rightarrow> Fault Indeterminate_value
      | Some b \<Rightarrow>
          let len = unat (prevector_size P v - p) in
          if sint p < 0 \<or> unat p + len > length b \<or> unat p + unat count + len > length b then Fault Heap_overflow
          else Val () (with_block (overwrite (unat p + unat count) (take len (drop (unat p) b)) b) v))"

definition add_size :: "u32 \<Rightarrow> (unit, 'a) pv_action" where
  "add_size n = modify (\<lambda>v. v\<lparr>pv_size := pv_size v + n\<rparr>)"

definition ensure_capacity :: "pv_params \<Rightarrow> u32 \<Rightarrow> u32 \<Rightarrow> (unit, 'a) pv_action" where
  "ensure_capacity P need new_capacity =
     bindA (prevector_capacity P) (\<lambda>c. if c < need then change_capacity P new_capacity else ret ())"

definition erase_range :: "pv_params \<Rightarrow> u32 \<Rightarrow> u32 \<Rightarrow> (u32, 'a) pv_action" where
  "erase_range P start stop v =
     (case pv_block P v of
        None \<Rightarrow> Fault Indeterminate_value
      | Some b \<Rightarrow>
          let endp = unat (prevector_size P v); len = endp - unat stop in
          if stop < start \<or> endp < unat stop \<or> unat stop + len > length b then Fault Heap_overflow
          else
            Val start (with_block (overwrite (unat start) (take len (drop (unat stop) b)) b)
              (v\<lparr>pv_size := pv_size v - (stop - start)\<rparr>)))"

definition resize :: "pv_params \<Rightarrow> 'a \<Rightarrow> u32 \<Rightarrow> (unit, 'a) pv_action" where
  "resize P dflt new_size =
     bindA (read_state (prevector_size P)) (\<lambda>cur_size.
       if cur_size = new_size then ret ()
       else if cur_size > new_size then bindA (erase_range P new_size cur_size) (\<lambda>_. ret ())
       else
         bindA (ensure_capacity P new_size new_size) (\<lambda>_.
         let increase = new_size - cur_size in
         bindA (fill P cur_size (replicate (unat increase) dflt)) (\<lambda>_. add_size increase)))"

definition prevector_clear :: "pv_params \<Rightarrow> 'a \<Rightarrow> (unit, 'a) pv_action" where
  "prevector_clear P dflt = resize P dflt 0"

definition prevector_reserve :: "pv_params \<Rightarrow> u32 \<Rightarrow> (unit, 'a) pv_action" where
  "prevector_reserve P new_capacity = ensure_capacity P new_capacity new_capacity"

definition shrink_to_fit :: "pv_params \<Rightarrow> (unit, 'a) pv_action" where
  "shrink_to_fit P = bindA (read_state (prevector_size P)) (change_capacity P)"

subsection \<open>Construction and assignment\<close>

definition prevector_new :: "pv_params \<Rightarrow> 'a prevector" where
  "prevector_new P = \<lparr>pv_size = 0, pv_union = direct (replicate (unat (pvN P)) None)\<rparr>"

definition assign_n :: "pv_params \<Rightarrow> 'a \<Rightarrow> u32 \<Rightarrow> 'a \<Rightarrow> (unit, 'a) pv_action" where
  "assign_n P dflt n val =
     bindA (prevector_clear P dflt) (\<lambda>_. bindA (ensure_capacity P n n) (\<lambda>_. bindA (add_size n) (\<lambda>_.
       fill P 0 (replicate (unat n) val))))"

definition assign_range :: "pv_params \<Rightarrow> 'a \<Rightarrow> 'a list \<Rightarrow> (unit, 'a) pv_action" where
  "assign_range P dflt xs =
     (let n = of_nat (length xs) in
      bindA (prevector_clear P dflt) (\<lambda>_. bindA (ensure_capacity P n n) (\<lambda>_. bindA (add_size n) (\<lambda>_. fill P 0 xs))))"

text \<open>The constructors run on the vector \<open>prevector_new\<close>.\<close>

definition construct_size :: "pv_params \<Rightarrow> 'a \<Rightarrow> u32 \<Rightarrow> (unit, 'a) pv_action" where
  "construct_size P dflt n = resize P dflt n"

definition construct_n :: "pv_params \<Rightarrow> u32 \<Rightarrow> 'a \<Rightarrow> (unit, 'a) pv_action" where
  "construct_n P n val =
     bindA (change_capacity P n) (\<lambda>_. bindA (add_size n) (\<lambda>_. fill P 0 (replicate (unat n) val)))"

definition construct_range :: "pv_params \<Rightarrow> 'a list \<Rightarrow> (unit, 'a) pv_action" where
  "construct_range P xs =
     (let n = of_nat (length xs) in
      bindA (change_capacity P n) (\<lambda>_. bindA (add_size n) (\<lambda>_. fill P 0 xs)))"

text \<open>What an iteration from \<^verbatim>\<open>begin()\<close> to \<^verbatim>\<open>end()\<close> reads.\<close>

fun constructed :: "'a option list \<Rightarrow> 'a list option" where
  "constructed [] = Some []"
| "constructed (None # xs) = None"
| "constructed (Some x # xs) = map_option ((#) x) (constructed xs)"

definition elements :: "pv_params \<Rightarrow> ('a list, 'a) pv_action" where
  "elements P v =
     (case pv_block P v of
        None \<Rightarrow> Fault Indeterminate_value
      | Some b \<Rightarrow>
          if unat (prevector_size P v) > length b then Fault Out_of_bounds
          else or_fault Indeterminate_value (constructed (take (unat (prevector_size P v)) b)) v)"

definition construct_copy :: "pv_params \<Rightarrow> 'a prevector \<Rightarrow> (unit, 'a) pv_action" where
  "construct_copy P other v =
     (case elements P other of
        Val xs _ \<Rightarrow> construct_range P xs v
      | Exc _ \<Rightarrow> Exc v
      | Fault e \<Rightarrow> Fault e)"

definition assign_copy :: "pv_params \<Rightarrow> 'a \<Rightarrow> 'a prevector \<Rightarrow> (unit, 'a) pv_action" where
  "assign_copy P dflt other v =
     (case elements P other of
        Val xs _ \<Rightarrow> assign_range P dflt xs v
      | Exc _ \<Rightarrow> Exc v
      | Fault e \<Rightarrow> Fault e)"

definition swap :: "'a prevector \<Rightarrow> 'a prevector \<Rightarrow> 'a prevector \<times> 'a prevector" where
  "swap v other = (\<lparr>pv_size = pv_size other, pv_union = pv_union other\<rparr>, \<lparr>pv_size = pv_size v, pv_union = pv_union v\<rparr>)"

subsection \<open>Elements\<close>

definition item :: "pv_params \<Rightarrow> u32 \<Rightarrow> ('a, 'a) pv_action" where
  "item P pos v =
     (case pv_block P v of
        None \<Rightarrow> Fault Indeterminate_value
      | Some b \<Rightarrow>
          if sint pos < 0 \<or> unat pos \<ge> length b then Fault Out_of_bounds
          else or_fault Indeterminate_value (b ! unat pos) v)"

definition prevector_front :: "pv_params \<Rightarrow> ('a, 'a) pv_action" where
  "prevector_front P = item P 0"

definition prevector_back :: "pv_params \<Rightarrow> ('a, 'a) pv_action" where
  "prevector_back P = bindA (read_state (prevector_size P)) (\<lambda>n. item P (n - 1))"

definition insert_value :: "pv_params \<Rightarrow> u32 \<Rightarrow> 'a \<Rightarrow> (u32, 'a) pv_action" where
  "insert_value P p val =
     bindA (read_state (prevector_size P)) (\<lambda>n.
     let new_size = n + 1 in
     bindA (ensure_capacity P new_size (new_size + drop_bit 1 new_size)) (\<lambda>_.
     bindA (move_up P p 1) (\<lambda>_. bindA (add_size 1) (\<lambda>_. bindA (fill P p [val]) (\<lambda>_. ret p)))))"

definition insert_n :: "pv_params \<Rightarrow> u32 \<Rightarrow> u32 \<Rightarrow> 'a \<Rightarrow> (unit, 'a) pv_action" where
  "insert_n P p count val =
     bindA (read_state (prevector_size P)) (\<lambda>n.
     let new_size = n + count in
     bindA (ensure_capacity P new_size (new_size + drop_bit 1 new_size)) (\<lambda>_.
     bindA (move_up P p count) (\<lambda>_. bindA (add_size count) (\<lambda>_. fill P p (replicate (unat count) val)))))"

definition insert_range :: "pv_params \<Rightarrow> u32 \<Rightarrow> 'a list \<Rightarrow> (unit, 'a) pv_action" where
  "insert_range P p xs =
     bindA (read_state (prevector_size P)) (\<lambda>n.
     let count = of_nat (length xs); new_size = n + count in
     bindA (ensure_capacity P new_size (new_size + drop_bit 1 new_size)) (\<lambda>_.
     bindA (move_up P p count) (\<lambda>_. bindA (add_size count) (\<lambda>_. fill P p xs))))"

definition erase_at :: "pv_params \<Rightarrow> u32 \<Rightarrow> (u32, 'a) pv_action" where
  "erase_at P pos = erase_range P pos (pos + 1)"

definition push_back :: "pv_params \<Rightarrow> 'a \<Rightarrow> (unit, 'a) pv_action" where
  "push_back P val =
     bindA (read_state (prevector_size P)) (\<lambda>n.
     let new_size = n + 1 in
     bindA (ensure_capacity P new_size (new_size + drop_bit 1 new_size)) (\<lambda>_.
     bindA (read_state (prevector_size P)) (\<lambda>n. bindA (fill P n [val]) (\<lambda>_. add_size 1))))"

definition pop_back :: "pv_params \<Rightarrow> (unit, 'a) pv_action" where
  "pop_back P =
     bindA (read_state (prevector_size P)) (\<lambda>n. bindA (erase_range P (n - 1) n) (\<lambda>_. ret ()))"

text \<open>Comparison: the loops over both vectors.\<close>

fun equal_loop :: "'a list \<Rightarrow> 'a list \<Rightarrow> bool" where
  "equal_loop (x # xs) (y # ys) \<longleftrightarrow> (if x \<noteq> y then False else equal_loop xs ys)"
| "equal_loop _ _ \<longleftrightarrow> True"

fun less_loop :: "('a \<Rightarrow> 'a \<Rightarrow> bool) \<Rightarrow> 'a list \<Rightarrow> 'a list \<Rightarrow> bool" where
  "less_loop lt (x # xs) (y # ys) \<longleftrightarrow> (if lt x y then True else if lt y x then False else less_loop lt xs ys)"
| "less_loop _ _ _ \<longleftrightarrow> False"

definition prevector_eq :: "pv_params \<Rightarrow> 'a prevector \<Rightarrow> (bool, 'a) pv_action" where
  "prevector_eq P other v =
     (if prevector_size P other \<noteq> prevector_size P v then Val False v
      else (case (elements P v, elements P other) of
              (Val xs _, Val ys _) \<Rightarrow> Val (equal_loop xs ys) v
            | _ \<Rightarrow> Fault Indeterminate_value))"

definition prevector_less :: "pv_params \<Rightarrow> ('a \<Rightarrow> 'a \<Rightarrow> bool) \<Rightarrow> 'a prevector \<Rightarrow> (bool, 'a) pv_action" where
  "prevector_less P lt other v =
     (if prevector_size P v < prevector_size P other then Val True v
      else if prevector_size P v > prevector_size P other then Val False v
      else (case (elements P v, elements P other) of
              (Val xs _, Val ys _) \<Rightarrow> Val (less_loop lt xs ys) v
            | _ \<Rightarrow> Fault Indeterminate_value))"

definition allocated_memory :: "pv_params \<Rightarrow> u64 \<Rightarrow> (u64, 'a) pv_action" where
  "allocated_memory P sizeof_T v =
     (if is_direct P v then Val 0 v
      else (case pv_union v of direct _ \<Rightarrow> Fault Indeterminate_value | indirect c _ \<Rightarrow> Val (sizeof_T * ucast c) v))"

subsection \<open>The list a vector stands for\<close>

text \<open>
  Well-formed: the direct array has \<open>N\<close> elements and is the one stored while at most \<open>N\<close> are used; an
  allocated block has the elements its capacity says, more than \<open>N\<close>; the used ones are constructed.
\<close>

definition used_block :: "pv_params \<Rightarrow> 'a prevector \<Rightarrow> 'a option list" where
  "used_block P v =
     take (unat (prevector_size P v)) (case pv_union v of direct b \<Rightarrow> b | indirect c b \<Rightarrow> b)"

definition contents :: "pv_params \<Rightarrow> 'a prevector \<Rightarrow> 'a list" where
  "contents P v = map the (used_block P v)"

definition pv_ok :: "pv_params \<Rightarrow> 'a prevector \<Rightarrow> bool" where
  "pv_ok P v \<longleftrightarrow>
     None \<notin> set (used_block P v) \<and>
     (case pv_union v of
        direct b \<Rightarrow> is_direct P v \<and> length b = unat (pvN P)
      | indirect c b \<Rightarrow> \<not> is_direct P v \<and> length b = unat c \<and> pvN P < c \<and> prevector_size P v \<le> c)"

text \<open>Room for vectors of \<open>n\<close> elements: no size wraps, no position is negative, memory is not exhausted.\<close>

definition roomy :: "pv_params \<Rightarrow> nat \<Rightarrow> bool" where
  "roomy P n \<longleftrightarrow> unat (pvN P) < 2 ^ 30 \<and> n < 2 ^ 30 \<and> (\<forall>k. pv_malloc P k)"

lemma roomy_mono: "roomy P n \<Longrightarrow> m \<le> n \<Longrightarrow> roomy P m"
  by (simp add: roomy_def)

lemma pv_blockD:
  assumes "pv_ok P v"
  obtains b where "pv_block P v = Some b" "unat (prevector_size P v) \<le> length b"
    "take (unat (prevector_size P v)) b = map Some (contents P v)"
    "length b = unat (if is_direct P v then pvN P else (case pv_union v of indirect c _ \<Rightarrow> c | _ \<Rightarrow> 0))"
proof -
  define b where "b = (case pv_union v of direct b \<Rightarrow> b | indirect c b \<Rightarrow> b)"
  have used: "used_block P v = take (unat (prevector_size P v)) b" by (simp add: used_block_def b_def)
  have "map Some (contents P v) = used_block P v"
    using assms unfolding contents_def pv_ok_def by (intro nth_equalityI) (auto simp: in_set_conv_nth)
  moreover have "pv_block P v = Some b" "unat (prevector_size P v) \<le> length b"
    using assms by (auto simp: pv_ok_def pv_block_def b_def prevector_size_def is_direct_def word_le_nat_alt
        split: pv_union.splits if_splits)
  moreover have "length b = unat (if is_direct P v then pvN P else (case pv_union v of indirect c _ \<Rightarrow> c | _ \<Rightarrow> 0))"
    using assms by (auto simp: pv_ok_def b_def split: pv_union.splits)
  ultimately show thesis using used by (intro that [of b]) auto
qed

lemma length_contents: "pv_ok P v \<Longrightarrow> length (contents P v) = unat (prevector_size P v)"
  by (erule pv_blockD) (metis length_map length_take min.absorb2)

text \<open>The sizes: in the direct state the size itself, in the other \<open>N + 1\<close> more.\<close>

lemma size_direct: "is_direct P v \<Longrightarrow> pv_size v = prevector_size P v"
  by (simp add: prevector_size_def)

lemma size_indirect: "\<not> is_direct P v \<Longrightarrow> pv_size v = prevector_size P v + (pvN P + 1)"
  by (simp add: prevector_size_def)

lemma above_N:
  assumes "roomy P (unat n)"
  shows "\<not> n + (pvN P + 1) \<le> pvN P" "unat (n + (pvN P + 1)) = unat n + unat (pvN P) + 1"
proof -
  have N: "unat (pvN P + 1) = unat (pvN P) + 1"
    using assms by (subst unat_word_ariths) (simp add: roomy_def)
  show *: "unat (n + (pvN P + 1)) = unat n + unat (pvN P) + 1"
    using assms by (subst unat_word_ariths) (simp add: N roomy_def)
  show "\<not> n + (pvN P + 1) \<le> pvN P" by (simp add: word_le_nat_alt *)
qed

text \<open>A vector put together from its parts.\<close>

lemma pv_direct:
  assumes "unat n \<le> unat (pvN P)" "length b = unat (pvN P)" "take (unat n) b = map Some xs"
  shows "pv_ok P \<lparr>pv_size = n, pv_union = direct b\<rparr>" "contents P \<lparr>pv_size = n, pv_union = direct b\<rparr> = xs"
  using assms by (auto simp: pv_ok_def contents_def used_block_def prevector_size_def is_direct_def word_le_nat_alt comp_def)

lemma pv_indirect:
  assumes "roomy P (unat n)" "length b = unat c" "pvN P < c" "unat n \<le> unat c" "take (unat n) b = map Some xs"
  shows "pv_ok P \<lparr>pv_size = n + (pvN P + 1), pv_union = indirect c b\<rparr>"
    "contents P \<lparr>pv_size = n + (pvN P + 1), pv_union = indirect c b\<rparr> = xs"
  using assms above_N [OF assms(1)]
  by (auto simp: pv_ok_def contents_def used_block_def prevector_size_def is_direct_def word_le_nat_alt comp_def)

text \<open>The capacity, as a number.\<close>

definition capacity_of :: "pv_params \<Rightarrow> 'a prevector \<Rightarrow> u32" where
  "capacity_of P v = (case pv_union v of direct _ \<Rightarrow> pvN P | indirect c _ \<Rightarrow> c)"

lemma prevector_capacity_ok: "pv_ok P v \<Longrightarrow> prevector_capacity P v = Val (capacity_of P v) v"
  by (auto simp: prevector_capacity_def capacity_of_def pv_ok_def split: pv_union.splits)

lemma length_copied: "n \<le> length src \<Longrightarrow> n \<le> len \<Longrightarrow> length (copied n len src) = len"
  by (simp add: copied_def)

lemma take_copied: "k \<le> n \<Longrightarrow> n \<le> length src \<Longrightarrow> take k (copied n len src) = take k src"
  by (simp add: copied_def)

lemma change_capacity_ok:
  assumes ok: "pv_ok P v" "roomy P (length (contents P v))" and c: "length (contents P v) \<le> unat c"
  shows "\<exists>v'. change_capacity P c v = Val () v' \<and> pv_ok P v' \<and> contents P v' = contents P v
    \<and> unat (capacity_of P v') = max (unat c) (unat (pvN P))"
proof -
  define n where "n = prevector_size P v"
  define xs where "xs = contents P v"
  obtain b where b: "pv_block P v = Some b" "unat n \<le> length b" "take (unat n) b = map Some xs"
    "length b = unat (if is_direct P v then pvN P else (case pv_union v of indirect c _ \<Rightarrow> c | _ \<Rightarrow> 0))"
    unfolding n_def xs_def by (rule pv_blockD [OF ok(1)])
  have len: "length xs = unat n" using length_contents [OF ok(1)] by (simp add: xs_def n_def)
  have room: "roomy P (unat n)" using ok(2) len by (simp add: xs_def)
  have small: "unat n \<le> unat c" using c len by (simp add: xs_def)
  have N: "pvN P < c \<longleftrightarrow> \<not> c \<le> pvN P" by auto
  consider "c \<le> pvN P" "is_direct P v" | "c \<le> pvN P" "\<not> is_direct P v" | "\<not> c \<le> pvN P" "is_direct P v"
    | "\<not> c \<le> pvN P" "\<not> is_direct P v" by blast
  then show ?thesis
  proof cases
    case 1
    then have "capacity_of P v = pvN P" using ok(1) by (auto simp: capacity_of_def pv_ok_def split: pv_union.splits)
    with 1 ok(1) show ?thesis by (auto simp: change_capacity_def word_le_nat_alt)
  next
    case 2
    let ?b = "copied (unat n) (unat (pvN P)) b"
    have fits: "unat n \<le> unat (pvN P)" using small 2(1) by (simp add: word_le_nat_alt)
    have "pv_size v - (pvN P + 1) = n" using size_indirect [OF 2(2)] by (simp add: n_def)
    then have "change_capacity P c v = Val () \<lparr>pv_size = n, pv_union = direct ?b\<rparr>"
      using 2 b(1,2) fits unfolding change_capacity_def n_def [symmetric] by simp
    moreover have "pv_ok P \<lparr>pv_size = n, pv_union = direct ?b\<rparr>" "contents P \<lparr>pv_size = n, pv_union = direct ?b\<rparr> = xs"
      by (rule pv_direct; use fits b(2,3) in \<open>simp add: length_copied take_copied\<close>)+
    ultimately show ?thesis using 2(1) by (simp add: xs_def capacity_of_def word_le_nat_alt)
  next
    case 3
    let ?b = "copied (unat n) (unat c) b"
    have "change_capacity P c v = Val () \<lparr>pv_size = n + (pvN P + 1), pv_union = indirect c ?b\<rparr>"
      using 3 b(1,2) small room size_direct [OF 3(2)]
      unfolding change_capacity_def n_def [symmetric] by (simp add: roomy_def)
    moreover have "pv_ok P \<lparr>pv_size = n + (pvN P + 1), pv_union = indirect c ?b\<rparr>"
      "contents P \<lparr>pv_size = n + (pvN P + 1), pv_union = indirect c ?b\<rparr> = xs"
      by (rule pv_indirect [OF room]; use small b(2,3) 3 N in \<open>simp add: length_copied take_copied\<close>)+
    ultimately show ?thesis using 3(1) by (simp add: xs_def capacity_of_def word_le_nat_alt)
  next
    case 4
    let ?b = "copied (min (length b) (unat c)) (unat c) b"
    have "change_capacity P c v = Val () (v\<lparr>pv_union := indirect c ?b\<rparr>)"
      using 4 b(1) room unfolding change_capacity_def by (simp add: roomy_def)
    moreover have "v\<lparr>pv_union := indirect c ?b\<rparr> = \<lparr>pv_size = n + (pvN P + 1), pv_union = indirect c ?b\<rparr>"
      using size_indirect [OF 4(2)] by (simp add: n_def)
    moreover have "pv_ok P \<lparr>pv_size = n + (pvN P + 1), pv_union = indirect c ?b\<rparr>"
      "contents P \<lparr>pv_size = n + (pvN P + 1), pv_union = indirect c ?b\<rparr> = xs"
      by (rule pv_indirect [OF room]; use small b(2,3) 4 N in \<open>simp add: length_copied take_copied\<close>)+
    ultimately show ?thesis using 4(1) by (simp add: xs_def capacity_of_def word_le_nat_alt)
  qed
qed

lemma ensure_capacity_ok:
  assumes "pv_ok P v" "roomy P (length (contents P v))" "length (contents P v) \<le> unat c" "unat need \<le> unat c"
  shows "\<exists>v'. ensure_capacity P need c v = Val () v' \<and> pv_ok P v' \<and> contents P v' = contents P v
    \<and> unat need \<le> unat (capacity_of P v')"
proof (cases "capacity_of P v < need")
  case True
  obtain v' where "change_capacity P c v = Val () v'" "pv_ok P v'" "contents P v' = contents P v"
    "unat (capacity_of P v') = max (unat c) (unat (pvN P))"
    using change_capacity_ok [OF assms(1-3)] by blast
  then show ?thesis
    using True assms(4) by (simp add: ensure_capacity_def bindA_def prevector_capacity_ok [OF assms(1)])
next
  case False
  then show ?thesis
    using assms(1) by (simp add: ensure_capacity_def bindA_def prevector_capacity_ok ret_def word_less_nat_alt)
qed

subsection \<open>Vectors in parts\<close>

text \<open>\<open>pack n u\<close> is the vector of \<open>n\<close> elements in the storage \<open>u\<close>.\<close>

primrec storage :: "'a pv_union \<Rightarrow> 'a option list" where
  "storage (direct b) = b"
| "storage (indirect c b) = b"

primrec store :: "'a option list \<Rightarrow> 'a pv_union \<Rightarrow> 'a pv_union" where
  "store b' (direct b) = direct b'"
| "store b' (indirect c b) = indirect c b'"

definition pack :: "pv_params \<Rightarrow> u32 \<Rightarrow> 'a pv_union \<Rightarrow> 'a prevector" where
  "pack P n u = \<lparr>pv_size = (case u of direct _ \<Rightarrow> n | indirect _ _ \<Rightarrow> n + (pvN P + 1)), pv_union = u\<rparr>"

definition storage_ok :: "pv_params \<Rightarrow> nat \<Rightarrow> 'a pv_union \<Rightarrow> bool" where
  "storage_ok P n u \<longleftrightarrow> roomy P n \<and> n \<le> length (storage u) \<and>
     (case u of direct b \<Rightarrow> length b = unat (pvN P) | indirect c b \<Rightarrow> length b = unat c \<and> pvN P < c)"

lemma storage_store [simp]: "storage (store b u) = b" "store b (store b' u) = store b u" "store (storage u) u = u"
  by (cases u; simp)+

lemma storage_ok_store [simp]:
  "length b = length (storage u) \<Longrightarrow> storage_ok P n (store b u) \<longleftrightarrow> storage_ok P n u"
  by (cases u) (auto simp: storage_ok_def)

lemma storage_ok_mono: "storage_ok P n u \<Longrightarrow> m \<le> n \<Longrightarrow> storage_ok P m u"
  by (auto simp: storage_ok_def intro: roomy_mono)

lemma pack_facts:
  assumes "storage_ok P (unat n) u"
  shows "prevector_size P (pack P n u) = n" "pv_block P (pack P n u) = Some (storage u)"
    "with_block b (pack P n u) = pack P n (store b u)" "capacity_of P (pack P n u) = of_nat (length (storage u))"
  using assms above_N [of P n]
  by (auto simp: pack_def storage_ok_def prevector_size_def is_direct_def pv_block_def with_block_def capacity_of_def
      word_le_nat_alt split: pv_union.splits)

lemma pack_ok:
  assumes "storage_ok P (unat n) u" "take (unat n) (storage u) = map Some xs"
  shows "pv_ok P (pack P n u)" "contents P (pack P n u) = xs"
  using assms pv_direct [of n P "storage u" xs] pv_indirect [of P n "storage u" _ xs]
  by (cases u; auto simp: pack_def storage_ok_def)+

lemma pv_ok_pack:
  assumes "pv_ok P v" "roomy P (length (contents P v))"
  obtains n u where "v = pack P n u" "storage_ok P (unat n) u" "take (unat n) (storage u) = map Some (contents P v)"
    "unat n = length (contents P v)" "capacity_of P v = of_nat (length (storage u))"
    "length (storage u) = unat (capacity_of P v)"
proof -
  let ?n = "prevector_size P v"
  have n: "unat ?n = length (contents P v)" using length_contents [OF assms(1)] by simp
  have v: "v = pack P ?n (pv_union v)"
    using assms(1) size_direct [of P v] size_indirect [of P v]
    by (auto simp: pack_def pv_ok_def split: pv_union.splits)
  have u: "storage_ok P (unat ?n) (pv_union v)"
    using assms n by (auto simp: storage_ok_def pv_ok_def prevector_size_def is_direct_def word_le_nat_alt split: pv_union.splits if_splits)
  have "take (unat ?n) (storage (pv_union v)) = map Some (contents P v)"
    using pv_blockD [OF assms(1)] pack_facts(2) [OF u] v by (metis option.inject)
  moreover have "length (storage (pv_union v)) = unat (capacity_of P v)"
    using assms(1) by (auto simp: pv_ok_def capacity_of_def split: pv_union.splits)
  ultimately show thesis
    using v u n pack_facts(4) [OF u] by (intro that [of ?n "pv_union v"]) auto
qed

lemma sint_nonneg:
  assumes "unat (p :: u32) < 2 ^ 31"
  shows "\<not> sint p < 0"
proof -
  define k where "k = int (unat p)"
  have "unat p < 2147483648" using assms by simp
  then have k: "0 \<le> k" "k < 2147483648" unfolding k_def by linarith+
  then have "sint (word_of_int k :: u32) = k" by (intro sint_word_of_int) auto
  with k show ?thesis by (simp add: k_def)
qed

lemma fill_pack:
  assumes "storage_ok P (unat n) u" "unat p + length ys \<le> length (storage u)" "unat p < 2 ^ 31"
  shows "fill P p ys (pack P n u) = Val () (pack P n (store (overwrite (unat p) (map Some ys) (storage u)) u))"
  using assms sint_nonneg [of p] by (simp add: fill_def pack_facts [OF assms(1)])

lemma pack_parts:
  "with_block b (pack P n u) = pack P n (store b u)"
  "(pack P n u)\<lparr>pv_size := pv_size (pack P n u) - k\<rparr> = pack P (n - k) u"
  by (cases u; simp add: pack_def with_block_def)+

lemma add_size_pack: "add_size k (pack P n u) = Val () (pack P (n + k) u)"
  by (cases u) (simp_all add: add_size_def modify_def pack_def ac_simps)

lemma move_up_pack:
  assumes "storage_ok P (unat n) u" "unat p \<le> unat n" "unat n + unat k \<le> length (storage u)"
  shows "move_up P p k (pack P n u) =
    Val () (pack P n (store (overwrite (unat p + unat k) (take (unat n - unat p) (drop (unat p) (storage u))) (storage u)) u))"
proof -
  have "unat (n - p) = unat n - unat p" using assms(2) by (simp add: unat_sub word_le_nat_alt)
  moreover have "\<not> sint p < 0" using assms(1,2) by (intro sint_nonneg) (simp add: storage_ok_def roomy_def)
  ultimately show ?thesis
    using assms(2,3) by (simp add: move_up_def pack_facts [OF assms(1)] Let_def)
qed

lemma overwrite_moved:
  assumes "p \<le> n" "n + length ys \<le> length b" "take n b = map Some xs"
  shows "take (n + length ys) (overwrite p (map Some ys) (overwrite (p + length ys) (take (n - p) (drop p b)) b)) =
    map Some (take p xs @ ys @ drop p xs)"
proof -
  have "take p b = map Some (take p xs)" using assms(1,3) by (metis min.absorb1 take_map take_take)
  moreover have "take (n - p) (drop p b) = map Some (drop p xs)" using assms(1,3) by (metis drop_map drop_take)
  moreover have "length xs = n" using assms(2,3) by (metis le_add1 length_map length_take min.absorb2 le_trans)
  ultimately show ?thesis using assms(1,2) by (simp add: overwrite_def)
qed

subsection \<open>Operations against lists\<close>

text \<open>
  An operation is correct on a vector when it succeeds, keeps the vector well-formed and changes the list
  as it should.
\<close>

definition does :: "pv_params \<Rightarrow> (unit, 'a) pv_action \<Rightarrow> 'a prevector \<Rightarrow> 'a list \<Rightarrow> bool" where
  "does P act v xs \<longleftrightarrow> (\<exists>v'. act v = Val () v' \<and> pv_ok P v' \<and> contents P v' = xs)"

lemma doesE: "does P act v xs \<Longrightarrow> (\<And>v'. act v = Val () v' \<Longrightarrow> pv_ok P v' \<Longrightarrow> contents P v' = xs \<Longrightarrow> thesis) \<Longrightarrow> thesis"
  by (auto simp: does_def)

lemma does_bind:
  "does P act v xs \<Longrightarrow> (\<And>v'. pv_ok P v' \<Longrightarrow> contents P v' = xs \<Longrightarrow> does P (f ()) v' ys) \<Longrightarrow> does P (bindA act f) v ys"
  by (auto simp: does_def bindA_def)

lemma does_ret: "pv_ok P v \<Longrightarrow> does P (ret ()) v (contents P v)"
  by (simp add: does_def ret_def)

lemma unat_of_nat_roomy: "roomy P n \<Longrightarrow> unat (of_nat n :: u32) = n"
  by (rule unat_of_nat_id) (simp add: roomy_def)

lemma unat_add_roomy:
  fixes n k :: u32
  assumes "roomy P (unat n + unat k)"
  shows "unat (n + k) = unat n + unat k"
  using assms by (subst unat_word_ariths) (simp add: roomy_def)

text \<open>Inserting, and constructing behind the last element, once there is room.\<close>

lemma insert_into_room:
  assumes ok: "pv_ok P v" "contents P v = xs" and room: "roomy P (length xs + length ys)" "unat p \<le> length xs"
    and space: "length xs + length ys \<le> unat (capacity_of P v)"
  shows "does P (bindA (move_up P p (of_nat (length ys))) (\<lambda>_. bindA (add_size (of_nat (length ys))) (\<lambda>_. fill P p ys))) v
    (take (unat p) xs @ ys @ drop (unat p) xs)"
proof -
  have k: "unat (of_nat (length ys) :: u32) = length ys"
    using roomy_mono [OF room(1), of "length ys"] by (simp add: unat_of_nat_roomy)
  obtain n u where v: "v = pack P n u" "storage_ok P (unat n) u" "take (unat n) (storage u) = map Some xs"
    "unat n = length xs" "length (storage u) = unat (capacity_of P v)"
    using pv_ok_pack [OF ok(1)] ok(2) roomy_mono [OF room(1)] by (metis le_add1)
  have nk: "unat (n + of_nat (length ys)) = unat n + length ys"
    using room(1) by (simp add: unat_add_roomy [of P] k v(4))
  define b where "b = overwrite (unat p + length ys) (take (unat n - unat p) (drop (unat p) (storage u))) (storage u)"
  have b: "length b = length (storage u)" using room(2) space v(4,5) by (simp add: b_def)
  have u: "storage_ok P (unat n + length ys) u"
    using v(2,4,5) space room(1) by (auto simp: storage_ok_def split: pv_union.splits)
  have u': "storage_ok P (unat n + length ys) (store b u)"
    using u b by simp
  have p: "unat p < 2 ^ 31" using room by (simp add: roomy_def)
  have moved: "move_up P p (of_nat (length ys)) v = Val () (pack P n (store b u))"
    unfolding v(1) b_def using room(2) space v(4,5) k by (subst move_up_pack [OF v(2)]) simp_all
  have filled: "fill P p ys (pack P (n + of_nat (length ys)) (store b u)) =
      Val () (pack P (n + of_nat (length ys)) (store (overwrite (unat p) (map Some ys) b) u))"
    using u' nk p room(2) space v(4,5) b by (subst fill_pack) simp_all
  have "storage_ok P (unat (n + of_nat (length ys))) (store (overwrite (unat p) (map Some ys) b) u)"
    using u nk b room(2) space v(4,5) by simp
  moreover have "take (unat (n + of_nat (length ys))) (overwrite (unat p) (map Some ys) b) =
      map Some (take (unat p) xs @ ys @ drop (unat p) xs)"
    unfolding nk b_def using room(2) space v(3-5) by (intro overwrite_moved) simp_all
  ultimately show ?thesis
    using pack_ok [of P "n + of_nat (length ys)" "store (overwrite (unat p) (map Some ys) b) u"
        "take (unat p) xs @ ys @ drop (unat p) xs"] moved filled
    by (auto simp: does_def bindA_def add_size_pack)
qed

lemma append_into_room:
  assumes ok: "pv_ok P v" "contents P v = xs" and room: "roomy P (length xs + length ys)"
    and space: "length xs + length ys \<le> unat (capacity_of P v)"
  shows "does P (bindA (fill P (of_nat (length xs)) ys) (\<lambda>_. add_size (of_nat (length ys)))) v (xs @ ys)"
    and "does P (bindA (add_size (of_nat (length ys))) (\<lambda>_. fill P (of_nat (length xs)) ys)) v (xs @ ys)"
proof -
  have k: "unat (of_nat (length ys) :: u32) = length ys" "unat (of_nat (length xs) :: u32) = length xs"
    using roomy_mono [OF room(1), of "length ys"] roomy_mono [OF room(1), of "length xs"] by (simp_all add: unat_of_nat_roomy)
  obtain n u where v: "v = pack P n u" "storage_ok P (unat n) u" "take (unat n) (storage u) = map Some xs"
    "unat n = length xs" "length (storage u) = unat (capacity_of P v)"
    using pv_ok_pack [OF ok(1)] ok(2) roomy_mono [OF room(1)] by (metis le_add1)
  have nk: "unat (n + of_nat (length ys)) = unat n + length ys"
    using room(1) by (simp add: unat_add_roomy [of P] k v(4))
  let ?b = "overwrite (length xs) (map Some ys) (storage u)"
  let ?v = "pack P (n + of_nat (length ys)) (store ?b u)"
  have b: "length ?b = length (storage u)" using space v(5) by simp
  have u: "storage_ok P (unat (n + of_nat (length ys))) u" "storage_ok P (unat (n + of_nat (length ys))) (store ?b u)"
  proof -
    show u: "storage_ok P (unat (n + of_nat (length ys))) u"
      using v(2,4,5) space room(1) nk by (auto simp: storage_ok_def split: pv_union.splits)
    then show "storage_ok P (unat (n + of_nat (length ys))) (store ?b u)" using b by simp
  qed
  have p: "unat (of_nat (length xs) :: u32) < 2 ^ 31" using room k by (simp add: roomy_def)
  have "take (unat (n + of_nat (length ys))) ?b = map Some (xs @ ys)"
    unfolding nk using space v(3-5) by (simp add: overwrite_def)
  then have ok': "pv_ok P ?v" "contents P ?v = xs @ ys" using pack_ok [OF u(2), of "xs @ ys"] by simp_all
  have "fill P (of_nat (length xs)) ys (pack P m u) = Val () (pack P m (store ?b u))" if "storage_ok P (unat m) u" for m
    using that space v(5) p k by (subst fill_pack) simp_all
  then show "does P (bindA (fill P (of_nat (length xs)) ys) (\<lambda>_. add_size (of_nat (length ys)))) v (xs @ ys)"
    "does P (bindA (add_size (of_nat (length ys))) (\<lambda>_. fill P (of_nat (length xs)) ys)) v (xs @ ys)"
    using ok' v(1,2) u(1) by (auto simp: does_def bindA_def add_size_pack)
qed

lemma erase_range_ok:
  assumes "pv_ok P v" "contents P v = xs" "roomy P (length xs)" "unat start \<le> unat stop" "unat stop \<le> length xs"
  shows "\<exists>v'. erase_range P start stop v = Val start v' \<and> pv_ok P v'
    \<and> contents P v' = take (unat start) xs @ drop (unat stop) xs \<and> capacity_of P v' = capacity_of P v"
proof -
  obtain n u where v: "v = pack P n u" "storage_ok P (unat n) u" "take (unat n) (storage u) = map Some xs"
    "unat n = length xs" "capacity_of P v = of_nat (length (storage u))"
    using pv_ok_pack [OF assms(1)] assms(2,3) by metis
  have n: "unat n \<le> length (storage u)" using v(2) by (simp add: storage_ok_def)
  define b where "b = overwrite (unat start) (take (unat n - unat stop) (drop (unat stop) (storage u))) (storage u)"
  have b: "length b = length (storage u)" using assms(4,5) v(4) n by (simp add: b_def)
  have d: "unat (stop - start) = unat stop - unat start" using assms(4) by (simp add: unat_sub word_le_nat_alt)
  then have m: "unat (n - (stop - start)) = unat n - (unat stop - unat start)"
    using assms(4,5) v(4) by (simp add: unat_sub word_le_nat_alt)
  let ?v = "pack P (n - (stop - start)) (store b u)"
  have "erase_range P start stop v = Val start ?v"
    unfolding v(1) using assms(4,5) v(4) n
    by (simp add: erase_range_def pack_facts(1,2) [OF v(2)] pack_parts Let_def b_def word_less_nat_alt)
  moreover have "storage_ok P (unat (n - (stop - start))) (store b u)"
    using storage_ok_mono [OF v(2)] b m by simp
  moreover have "take (unat (n - (stop - start))) b = map Some (take (unat start) xs @ drop (unat stop) xs)"
  proof -
    have "take (unat start) (storage u) = map Some (take (unat start) xs)"
      using v(3,4) assms(4,5) by (metis le_trans min.absorb1 take_map take_take)
    moreover have "take (unat n - unat stop) (drop (unat stop) (storage u)) = map Some (drop (unat stop) xs)"
      using v(3) by (metis drop_map drop_take)
    ultimately show ?thesis
      unfolding m b_def using assms(4,5) v(4) n by (simp add: overwrite_def)
  qed
  ultimately show ?thesis
    using pack_ok [of P "n - (stop - start)" "store b u" "take (unat start) xs @ drop (unat stop) xs"]
      pack_facts(4) [of P "n - (stop - start)" "store b u"] b v(5) by (intro exI [of _ ?v]) auto
qed

lemma does_size:
  assumes "pv_ok P v" "\<And>n. unat n = length (contents P v) \<Longrightarrow> n = of_nat (length (contents P v)) \<Longrightarrow> does P (f n) v ys"
  shows "does P (bindA (read_state (prevector_size P)) f) v ys"
proof -
  have n: "unat (prevector_size P v) = length (contents P v)" using length_contents [OF assms(1)] by simp
  moreover have "of_nat (unat (prevector_size P v)) = prevector_size P v" by simp
  ultimately have "prevector_size P v = of_nat (length (contents P v))" by simp
  with n assms(2) [of "prevector_size P v"] show ?thesis by (simp add: does_def bindA_def read_state_def)
qed

lemma does_capacity:
  assumes "pv_ok P v" "roomy P (length (contents P v))" "length (contents P v) \<le> unat c" "unat need \<le> unat c"
    and "\<And>v'. pv_ok P v' \<Longrightarrow> contents P v' = contents P v \<Longrightarrow> unat need \<le> unat (capacity_of P v') \<Longrightarrow> does P (f ()) v' ys"
  shows "does P (bindA (ensure_capacity P need c) f) v ys"
  using ensure_capacity_ok [OF assms(1-4)] assms(5) by (auto simp: does_def bindA_def)

lemma growth:
  fixes n :: u32
  assumes "roomy P (unat n)"
  shows "unat n \<le> unat (n + drop_bit 1 n)"
proof -
  have "unat (drop_bit 1 n) = unat n div 2" by (simp add: drop_bit_eq_div unat_div)
  moreover have "unat n + unat n div 2 < 4294967296"
  proof -
    have "unat n < 1073741824" using assms by (simp add: roomy_def)
    then show ?thesis by linarith
  qed
  ultimately have "unat (n + drop_bit 1 n) = unat n + unat n div 2" by (simp add: unat_word_ariths)
  then show ?thesis by simp
qed

lemma resize_ok:
  assumes ok: "pv_ok P v" and room: "roomy P (length (contents P v))" "roomy P (unat n)"
  shows "does P (resize P dflt n) v
    (take (unat n) (contents P v) @ replicate (unat n - length (contents P v)) dflt)"
  unfolding resize_def
proof (rule does_size [OF ok])
  fix m :: u32 assume m: "unat m = length (contents P v)" "m = of_nat (length (contents P v))"
  consider "m = n" | "n < m" | "m < n" by force
  then show "does P (if m = n then ret () else if m > n then bindA (erase_range P n m) (\<lambda>_. ret ())
      else bindA (ensure_capacity P n n) (\<lambda>_. let increase = n - m in
        bindA (fill P m (replicate (unat increase) dflt)) (\<lambda>_. add_size increase))) v
    (take (unat n) (contents P v) @ replicate (unat n - length (contents P v)) dflt)"
  proof cases
    case 1
    then show ?thesis using does_ret [OF ok] m(1) by simp
  next
    case 2
    then show ?thesis
      using erase_range_ok [OF ok refl room(1), of n m] m(1) by (auto simp: does_def bindA_def ret_def word_less_nat_alt)
  next
    case 3
    then have d: "unat (n - m) = unat n - length (contents P v)" "unat m < unat n"
      using m(1) by (simp_all add: unat_sub word_less_nat_alt word_le_nat_alt)
    have "does P (bindA (ensure_capacity P n n) (\<lambda>_. bindA (fill P m (replicate (unat (n - m)) dflt)) (\<lambda>_. add_size (n - m)))) v
        (contents P v @ replicate (unat n - length (contents P v)) dflt)"
    proof (rule does_capacity [OF ok room(1)])
      fix v' assume "pv_ok P v'" "contents P v' = contents P v" "unat n \<le> unat (capacity_of P v')"
      moreover have "of_nat (unat (n - m)) = n - m" by simp
      ultimately show "does P (bindA (fill P m (replicate (unat (n - m)) dflt)) (\<lambda>_. add_size (n - m))) v'
          (contents P v @ replicate (unat n - length (contents P v)) dflt)"
        using append_into_room(1) [of P v' "contents P v" "replicate (unat (n - m)) dflt"] d m room(2) by simp
    qed (use d m in simp_all)
    moreover have "m \<noteq> n" "\<not> n < m" using 3 by auto
    ultimately show ?thesis using d m(1) by (simp add: Let_def)
  qed
qed

lemma clear_ok: "pv_ok P v \<Longrightarrow> roomy P (length (contents P v)) \<Longrightarrow> does P (prevector_clear P dflt) v []"
  using resize_ok [of P v 0 dflt] roomy_mono [of P _ 0] by (simp add: prevector_clear_def)

lemma assign_range_ok:
  assumes "pv_ok P v" "roomy P (length (contents P v))" "roomy P (length xs)"
  shows "does P (assign_range P dflt xs) v xs"
  unfolding assign_range_def Let_def
proof (rule does_bind [OF clear_ok [OF assms(1,2)]], rule does_capacity)
  fix v' v'' :: "'a prevector"
  assume "contents P v' = []" "pv_ok P v''" "contents P v'' = contents P v'"
    "unat (of_nat (length xs) :: u32) \<le> unat (capacity_of P v'')"
  then show "does P (bindA (add_size (of_nat (length xs))) (\<lambda>_. fill P 0 xs)) v'' xs"
    using append_into_room(2) [of P v'' "[]" xs] assms(3) by (simp add: unat_of_nat_roomy)
qed (use assms(3) in \<open>auto simp: roomy_def\<close>)

lemma assign_n_ok:
  assumes "pv_ok P v" "roomy P (length (contents P v))" "roomy P (unat n)"
  shows "does P (assign_n P dflt n x) v (replicate (unat n) x)"
  using assign_range_ok [OF assms(1,2), of "replicate (unat n) x" dflt] assms(3)
  by (simp add: assign_n_def assign_range_def Let_def)

lemma new_ok: "pv_ok P (prevector_new P)" "contents P (prevector_new P) = []"
  by (auto simp: pv_ok_def contents_def used_block_def prevector_new_def prevector_size_def is_direct_def)

lemma construct_range_ok:
  fixes xs :: "'a list"
  assumes "roomy P (length xs)"
  shows "does P (construct_range P xs) (prevector_new P) xs"
proof -
  obtain v :: "'a prevector" where "change_capacity P (of_nat (length xs)) (prevector_new P) = Val () v" "pv_ok P v" "contents P v = []"
    "unat (capacity_of P v) = max (length xs) (unat (pvN P))"
    using change_capacity_ok [OF new_ok(1), of P "of_nat (length xs)"] roomy_mono [OF assms, of 0] unat_of_nat_roomy [OF assms]
    by (auto simp: new_ok(2))
  then show ?thesis
    using append_into_room(2) [of P v "[]" xs] assms by (simp add: construct_range_def Let_def does_def bindA_def)
qed

lemma insert_range_ok:
  assumes ok: "pv_ok P v" and room: "roomy P (length (contents P v) + length xs)" and p: "unat p \<le> length (contents P v)"
  shows "does P (insert_range P p xs) v (take (unat p) (contents P v) @ xs @ drop (unat p) (contents P v))"
  unfolding insert_range_def Let_def
proof (rule does_size [OF ok])
  fix n :: u32 assume n: "unat n = length (contents P v)" "n = of_nat (length (contents P v))"
  have k: "unat (of_nat (length xs) :: u32) = length xs"
    using roomy_mono [OF room, of "length xs"] by (simp add: unat_of_nat_roomy)
  then have nk: "unat (n + of_nat (length xs)) = length (contents P v) + length xs"
    using room n(1) by (simp add: unat_add_roomy [of P])
  note grow = growth [of P "n + of_nat (length xs)"]
  show "does P (bindA (ensure_capacity P (n + of_nat (length xs)) (n + of_nat (length xs) + drop_bit 1 (n + of_nat (length xs))))
      (\<lambda>_. bindA (move_up P p (of_nat (length xs))) (\<lambda>_. bindA (add_size (of_nat (length xs))) (\<lambda>_. fill P p xs)))) v
    (take (unat p) (contents P v) @ xs @ drop (unat p) (contents P v))"
  proof (rule does_capacity [OF ok roomy_mono [OF room]])
    fix v' assume "pv_ok P v'" "contents P v' = contents P v" "unat (n + of_nat (length xs)) \<le> unat (capacity_of P v')"
    then show "does P (bindA (move_up P p (of_nat (length xs))) (\<lambda>_. bindA (add_size (of_nat (length xs))) (\<lambda>_. fill P p xs))) v'
        (take (unat p) (contents P v) @ xs @ drop (unat p) (contents P v))"
      using nk by (intro insert_into_room) (simp_all add: room p)
  qed (use nk grow room in simp_all)
qed

lemma insert_n_ok:
  assumes "pv_ok P v" "roomy P (length (contents P v) + unat n)" "unat p \<le> length (contents P v)"
  shows "does P (insert_n P p n x) v (take (unat p) (contents P v) @ replicate (unat n) x @ drop (unat p) (contents P v))"
  using insert_range_ok [OF assms(1), of "replicate (unat n) x" p] assms(2,3) by (simp add: insert_n_def insert_range_def Let_def)

lemma insert_value_ok:
  assumes "pv_ok P v" "roomy P (length (contents P v) + 1)" "unat p \<le> length (contents P v)"
  shows "does P (bindA (insert_value P p x) (\<lambda>_. ret ())) v (take (unat p) (contents P v) @ x # drop (unat p) (contents P v))"
proof -
  have "bindA (insert_value P p x) (\<lambda>_. ret ()) = insert_range P p [x]"
    by (simp add: insert_value_def insert_range_def bindA_assoc action_steps Let_def)
      (simp add: bindA_def ret_def fun_eq_iff split: outcome.splits)
  then show ?thesis using insert_range_ok [OF assms(1), of "[x]" p] assms(2,3) by simp
qed

lemma push_back_ok:
  assumes ok: "pv_ok P v" and room: "roomy P (length (contents P v) + 1)"
  shows "does P (push_back P x) v (contents P v @ [x])"
  unfolding push_back_def Let_def
proof (rule does_size [OF ok])
  fix n :: u32 assume n: "unat n = length (contents P v)" "n = of_nat (length (contents P v))"
  have n1: "unat (n + 1) = length (contents P v) + 1" using room n(1) by (simp add: unat_add_roomy [of P])
  note grow = growth [of P "n + 1"]
  show "does P (bindA (ensure_capacity P (n + 1) (n + 1 + drop_bit 1 (n + 1)))
      (\<lambda>_. bindA (read_state (prevector_size P)) (\<lambda>n. bindA (fill P n [x]) (\<lambda>_. add_size 1)))) v (contents P v @ [x])"
  proof (rule does_capacity [OF ok roomy_mono [OF room]])
    fix v' assume v': "pv_ok P v'" "contents P v' = contents P v" "unat (n + 1) \<le> unat (capacity_of P v')"
    show "does P (bindA (read_state (prevector_size P)) (\<lambda>n. bindA (fill P n [x]) (\<lambda>_. add_size 1))) v' (contents P v @ [x])"
      using append_into_room(1) [OF v'(1,2), of "[x]"] room v' n1 by (intro does_size) simp_all
  qed (use n1 grow room in simp_all)
qed

lemma pop_back_ok:
  assumes ok: "pv_ok P v" and room: "roomy P (length (contents P v))" and "contents P v \<noteq> []"
  shows "does P (pop_back P) v (butlast (contents P v))"
  unfolding pop_back_def
proof (rule does_size [OF ok])
  fix n :: u32 assume n: "unat n = length (contents P v)" "n = of_nat (length (contents P v))"
  have "n \<noteq> 0" using assms(3) n(1) by auto
  then have "unat (n - 1) = length (contents P v) - 1" using n(1) by (simp add: unat_minus_one)
  then show "does P (bindA (erase_range P (n - 1) n) (\<lambda>_. ret ())) v (butlast (contents P v))"
    using erase_range_ok [OF ok refl room, of "n - 1" n] n(1) by (auto simp: does_def bindA_def ret_def butlast_conv_take)
qed

lemma reserve_ok:
  "pv_ok P v \<Longrightarrow> roomy P (length (contents P v)) \<Longrightarrow> length (contents P v) \<le> unat n
    \<Longrightarrow> does P (prevector_reserve P n) v (contents P v)"
  unfolding prevector_reserve_def does_def using ensure_capacity_ok [of P v n n] by auto

lemma shrink_to_fit_ok:
  "pv_ok P v \<Longrightarrow> roomy P (length (contents P v)) \<Longrightarrow> does P (shrink_to_fit P) v (contents P v)"
  unfolding shrink_to_fit_def
proof (rule does_size)
  fix n :: u32 assume "pv_ok P v" "roomy P (length (contents P v))" "unat n = length (contents P v)"
  then show "does P (change_capacity P n) v (contents P v)"
    unfolding does_def using change_capacity_ok [of P v n] by auto
qed

lemma constructed_map: "constructed (map Some xs) = Some xs"
  by (induction xs) auto

lemma elements_ok: "pv_ok P v \<Longrightarrow> elements P v = Val (contents P v) v"
  by (erule pv_blockD) (simp add: elements_def constructed_map or_fault_def)

lemma item_ok:
  assumes "pv_ok P v" "roomy P (length (contents P v))" "unat p < length (contents P v)"
  shows "item P p v = Val (contents P v ! unat p) v"
proof -
  obtain b where b: "pv_block P v = Some b" "unat (prevector_size P v) \<le> length b"
    "take (unat (prevector_size P v)) b = map Some (contents P v)"
    by (rule pv_blockD [OF assms(1)])
  have "b ! unat p = Some (contents P v ! unat p)"
    using b(3) assms(3) length_contents [OF assms(1)] by (metis nth_map nth_take)
  moreover have "\<not> sint p < 0" using assms(2,3) by (intro sint_nonneg) (simp add: roomy_def)
  ultimately show ?thesis
    using b assms(3) length_contents [OF assms(1)] by (simp add: item_def or_fault_def)
qed

lemma equal_loop_iff: "length xs = length ys \<Longrightarrow> equal_loop xs ys \<longleftrightarrow> xs = ys"
  by (induction xs ys rule: list_induct2) auto

lemma prevector_eq_ok:
  assumes "pv_ok P v" "pv_ok P w"
  shows "prevector_eq P w v = Val (contents P v = contents P w) v"
proof -
  have "prevector_size P w = prevector_size P v \<longleftrightarrow> length (contents P w) = length (contents P v)"
    using length_contents assms by (metis word_unat_eq_iff)
  with assms show ?thesis
    by (auto simp: prevector_eq_def elements_ok equal_loop_iff)
qed

lemma size_le_capacity: "pv_ok P v \<Longrightarrow> length (contents P v) \<le> unat (capacity_of P v)"
  by (auto simp: length_contents pv_ok_def capacity_of_def is_direct_def prevector_size_def word_le_nat_alt
      split: pv_union.splits if_splits)

lemma reserve_any_ok:
  assumes "pv_ok P v" "roomy P (length (contents P v))"
  shows "does P (prevector_reserve P n) v (contents P v)"
proof (cases "length (contents P v) \<le> unat n")
  case False
  then have "\<not> capacity_of P v < n" using size_le_capacity [OF assms(1)] by (simp add: word_less_nat_alt)
  then have "prevector_reserve P n v = Val () v"
    by (simp add: prevector_reserve_def ensure_capacity_def bindA_def prevector_capacity_ok [OF assms(1)] ret_def)
  with assms(1) show ?thesis by (simp add: does_def)
qed (use assms in \<open>simp add: reserve_ok\<close>)

lemma fill_ok:
  assumes "pv_ok P v" "contents P v = xs" "roomy P (length xs)" "unat p + length ys \<le> length xs"
  shows "does P (fill P p ys) v (overwrite (unat p) ys xs)"
proof -
  obtain n u where v: "v = pack P n u" "storage_ok P (unat n) u" "take (unat n) (storage u) = map Some xs" "unat n = length xs"
    using pv_ok_pack [OF assms(1)] assms(2,3) by metis
  have n: "unat n \<le> length (storage u)" using v(2) by (simp add: storage_ok_def)
  let ?b = "overwrite (unat p) (map Some ys) (storage u)"
  have "fill P p ys v = Val () (pack P n (store ?b u))"
    unfolding v(1) using assms(3,4) n v(4) by (intro fill_pack [OF v(2)]) (simp_all add: roomy_def)
  moreover have "storage_ok P (unat n) (store ?b u)" using v(2,4) n assms(4) by simp
  moreover have "take (unat n) ?b = overwrite (unat p) (map Some ys) (take (unat n) (storage u))"
  proof -
    have "length xs \<le> unat p \<Longrightarrow> unat p = length xs \<and> ys = []" using assms(4) by (cases ys) auto
    then show ?thesis using assms(4) v(4) n by (auto simp: overwrite_def min_def drop_take)
  qed
  ultimately show ?thesis
    using pack_ok [of P n "store ?b u" "overwrite (unat p) ys xs"] v(3)
    by (auto simp: does_def overwrite_def take_map drop_map)
qed

subsection \<open>The interface of a vector\<close>

text \<open>
  The operations a user of a vector calls and what each does to the list it stands for; \<open>None\<close> is a call
  outside the operation's precondition.
\<close>

datatype 'a vector_op = Push_back 'a | Pop_back | Insert nat "'a list" | Erase nat nat | Resize nat | Write nat "'a list"
  | Assign "'a list" | Reserve nat | Shrink_to_fit | Clear

fun on_list :: "'a \<Rightarrow> 'a vector_op \<Rightarrow> 'a list \<Rightarrow> 'a list option" where
  "on_list dflt (Push_back x) xs = Some (xs @ [x])"
| "on_list dflt Pop_back xs = (if xs = [] then None else Some (butlast xs))"
| "on_list dflt (Insert p ys) xs = (if p \<le> length xs then Some (take p xs @ ys @ drop p xs) else None)"
| "on_list dflt (Erase p q) xs = (if p \<le> q \<and> q \<le> length xs then Some (take p xs @ drop q xs) else None)"
| "on_list dflt (Resize n) xs = Some (take n xs @ replicate (n - length xs) dflt)"
| "on_list dflt (Write p ys) xs = (if p + length ys \<le> length xs then Some (overwrite p ys xs) else None)"
| "on_list dflt (Assign ys) xs = Some ys"
| "on_list dflt (Reserve n) xs = Some xs"
| "on_list dflt Shrink_to_fit xs = Some xs"
| "on_list dflt Clear xs = Some []"

fun all_on_list :: "nat \<Rightarrow> 'a \<Rightarrow> 'a vector_op list \<Rightarrow> 'a list \<Rightarrow> 'a list option" where
  "all_on_list limit dflt [] xs = Some xs"
| "all_on_list limit dflt (op # ops) xs =
     Option.bind (on_list dflt op xs) (\<lambda>ys. if length ys < limit then all_on_list limit dflt ops ys else None)"

fun run_all :: "('op \<Rightarrow> (unit, 'v) action) \<Rightarrow> 'op list \<Rightarrow> (unit, 'v) action" where
  "run_all act [] = ret ()"
| "run_all act (op # ops) = bindA (act op) (\<lambda>_. run_all act ops)"

locale list_vector =
  fixes act :: "'a vector_op \<Rightarrow> (unit, 'v) action"
    and ok :: "'v \<Rightarrow> bool"
    and abs :: "'v \<Rightarrow> 'a list"
    and limit :: nat
    and dflt :: 'a
  assumes act_ok: "ok v \<Longrightarrow> length (abs v) < limit \<Longrightarrow> on_list dflt op (abs v) = Some ys \<Longrightarrow> length ys < limit
    \<Longrightarrow> \<exists>v'. act op v = Val () v' \<and> ok v' \<and> abs v' = ys"
begin

text \<open>Any sequence of calls acts on the vector as it acts on the list.\<close>

lemma run_all_ok:
  "ok v \<Longrightarrow> length (abs v) < limit \<Longrightarrow> all_on_list limit dflt ops (abs v) = Some ys
    \<Longrightarrow> \<exists>v'. run_all act ops v = Val () v' \<and> ok v' \<and> abs v' = ys"
proof (induction ops arbitrary: v)
  case Nil
  then show ?case by (simp add: ret_def)
next
  case (Cons op ops)
  then obtain zs where zs: "on_list dflt op (abs v) = Some zs" "length zs < limit" "all_on_list limit dflt ops zs = Some ys"
    by (auto simp: bind_eq_Some_conv split: if_splits)
  obtain v' where v': "act op v = Val () v'" "ok v'" "abs v' = zs"
    using act_ok [OF Cons.prems(1,2) zs(1,2)] by blast
  with Cons.IH [of v'] zs show ?case by (simp add: bindA_def)
qed

text \<open>Appending element by element is appending the list.\<close>

lemma push_all:
  assumes "ok v" "length (abs v) + length xs < limit"
  shows "\<exists>v'. run_all act (map Push_back xs) v = Val () v' \<and> ok v' \<and> abs v' = abs v @ xs"
proof (rule run_all_ok [OF assms(1)])
  show "all_on_list limit dflt (map Push_back xs) (abs v) = Some (abs v @ xs)"
    using assms(2)
  proof (induction xs arbitrary: v rule: rev_induct)
    case (snoc x xs)
    have "all_on_list limit dflt (map Push_back xs @ [Push_back x]) zs =
        Option.bind (all_on_list limit dflt (map Push_back xs) zs)
          (\<lambda>ys. if length ys + 1 < limit then Some (ys @ [x]) else None)" for zs
      by (induction xs arbitrary: zs) auto
    with snoc show ?case by simp
  qed simp
qed (use assms(2) in simp)

end

text \<open>The operations of \<open>prevector\<close>.\<close>

fun prevector_act :: "pv_params \<Rightarrow> 'a \<Rightarrow> 'a vector_op \<Rightarrow> (unit, 'a) pv_action" where
  "prevector_act P dflt (Push_back x) = push_back P x"
| "prevector_act P dflt Pop_back = pop_back P"
| "prevector_act P dflt (Insert p ys) = insert_range P (of_nat p) ys"
| "prevector_act P dflt (Erase p q) = bindA (erase_range P (of_nat p) (of_nat q)) (\<lambda>_. ret ())"
| "prevector_act P dflt (Resize n) = resize P dflt (of_nat n)"
| "prevector_act P dflt (Write p ys) = fill P (of_nat p) ys"
| "prevector_act P dflt (Assign ys) = assign_range P dflt ys"
| "prevector_act P dflt (Reserve n) = prevector_reserve P (of_nat n)"
| "prevector_act P dflt Shrink_to_fit = shrink_to_fit P"
| "prevector_act P dflt Clear = prevector_clear P dflt"

definition params_ok :: "pv_params \<Rightarrow> bool" where
  "params_ok P \<longleftrightarrow> unat (pvN P) < 2 ^ 30 \<and> (\<forall>k. pv_malloc P k)"

lemma roomy_iff: "roomy P n \<longleftrightarrow> params_ok P \<and> n < 2 ^ 30"
  by (auto simp: roomy_def params_ok_def)

lemma prevector_act_ok:
  assumes "params_ok P" "pv_ok P v" "length (contents P v) < 2 ^ 30" "on_list dflt op (contents P v) = Some ys" "length ys < 2 ^ 30"
  shows "does P (prevector_act P dflt op) v ys"
proof -
  have room: "roomy P (length (contents P v))" "roomy P (length ys)" using assms by (simp_all add: roomy_iff)
  have pos: "unat (of_nat p :: u32) = p" if "p < 2 ^ 30" for p using that by (intro unat_of_nat_id) simp
  show ?thesis
  proof (cases op)
    case (Push_back x)
    then show ?thesis using assms room push_back_ok [OF assms(2), of x] by auto
  next
    case Pop_back
    then show ?thesis using assms room pop_back_ok [OF assms(2) room(1)] by (auto split: if_splits)
  next
    case (Insert p zs)
    then have "p \<le> length (contents P v)" "ys = take p (contents P v) @ zs @ drop p (contents P v)"
      using assms(4) by (auto split: if_splits)
    moreover from this have "roomy P (length (contents P v) + length zs)" using room(2) by (simp add: add.commute)
    ultimately show ?thesis using Insert insert_range_ok [OF assms(2), of zs "of_nat p"] pos [of p] assms(3) by simp
  next
    case (Erase p q)
    then have "p \<le> q" "q \<le> length (contents P v)" "ys = take p (contents P v) @ drop q (contents P v)"
      using assms(4) by (auto split: if_splits)
    then show ?thesis
      using Erase erase_range_ok [OF assms(2) refl room(1), of "of_nat p" "of_nat q"] pos [of p] pos [of q] assms(3)
      by (auto simp: does_def bindA_def ret_def)
  next
    case (Resize n)
    then have "ys = take n (contents P v) @ replicate (n - length (contents P v)) dflt" using assms(4) by simp
    moreover from this have "n < 2 ^ 30" using assms(3,5) by (cases "n \<le> length (contents P v)") auto
    ultimately show ?thesis
      using Resize resize_ok [OF assms(2) room(1), of "of_nat n" dflt] pos [of n] assms(1) by (simp add: roomy_iff)
  next
    case (Write p zs)
    then have "p + length zs \<le> length (contents P v)" "ys = overwrite p zs (contents P v)"
      using assms(4) by (auto split: if_splits)
    then show ?thesis using Write fill_ok [OF assms(2) refl room(1), of "of_nat p" zs] pos [of p] assms(3) by simp
  qed (use assms room in \<open>auto simp: assign_range_ok reserve_any_ok shrink_to_fit_ok clear_ok\<close>)
qed

interpretation prevector: list_vector "prevector_act P dflt" "\<lambda>v. params_ok P \<and> pv_ok P v" "contents P" "2 ^ 30" dflt
  for P and dflt :: 'a
proof
  fix v :: "'a prevector" and op ys
  assume v: "params_ok P \<and> pv_ok P v" "length (contents P v) < 2 ^ 30" "on_list dflt op (contents P v) = Some ys" "length ys < 2 ^ 30"
  then have "does P (prevector_act P dflt op) v ys" by (intro prevector_act_ok) simp_all
  with v(1) show "\<exists>v'. prevector_act P dflt op v = Val () v' \<and> (params_ok P \<and> pv_ok P v') \<and> contents P v' = ys"
    by (auto simp: does_def)
qed

lemma less_loop_iff:
  assumes "length xs = length ys" "\<And>x y. \<not> lt x y \<Longrightarrow> \<not> lt y x \<Longrightarrow> x = y" "\<And>x y. lt x y \<Longrightarrow> \<not> lt y x"
  shows "less_loop lt xs ys \<longleftrightarrow> (xs, ys) \<in> lexord {(x, y). lt x y}"
  using assms by (induction xs ys rule: list_induct2) auto

text \<open>Vectors are ordered by their length first, unlike lists and \<^verbatim>\<open>std::vector\<close>.\<close>

lemma prevector_less_ok:
  assumes "pv_ok P v" "pv_ok P w" "\<And>x y. \<not> lt x y \<Longrightarrow> \<not> lt y x \<Longrightarrow> x = y" "\<And>x y. lt x y \<Longrightarrow> \<not> lt y x"
  shows "prevector_less P lt w v = Val (length (contents P v) < length (contents P w) \<or>
    length (contents P v) = length (contents P w) \<and> (contents P v, contents P w) \<in> lexord {(x, y). lt x y}) v"
proof -
  have "prevector_size P v < prevector_size P w \<longleftrightarrow> length (contents P v) < length (contents P w)"
    "prevector_size P w < prevector_size P v \<longleftrightarrow> length (contents P w) < length (contents P v)"
    using assms(1,2) by (simp_all add: length_contents word_less_nat_alt)
  then show ?thesis
    using assms(1,2) less_loop_iff [of "contents P v" "contents P w" lt] assms(3,4)
    by (auto simp: prevector_less_def elements_ok)
qed

subsection \<open>Reading a script into a vector\<close>

text \<open>
  \<^verbatim>\<open>Unserialize_impl\<close> of a vector of bytes: the vector grows by one chunk after the other, and each chunk is
  read into it. What a fault inside the vector's operations leaves is passed on.
\<close>

function Unserialize_prevector_loop ::
  "pv_params \<Rightarrow> nat \<Rightarrow> nat \<Rightarrow> byte prevector \<Rightarrow> (unit, byte prevector) outcome reader" where
  "Unserialize_prevector_loop P nSize i v =
     (if i < nSize then
        let blk = min (nSize - i) (1 + 4999999 div 1) in
        (case resize P 0 (of_nat (i + blk)) v of
           Val _ v' \<Rightarrow>
             Read blk (\<lambda>bs.
               case fill P (of_nat i) bs v' of
                 Val _ v'' \<Rightarrow> Unserialize_prevector_loop P nSize (i + blk) v''
               | Exc w \<Rightarrow> Return (Exc w)
               | Fault e \<Rightarrow> Return (Fault e))
         | Exc w \<Rightarrow> Return (Exc w)
         | Fault e \<Rightarrow> Return (Fault e))
      else Return (Val () v))"
  by pat_completeness auto
termination by (relation "measure (\<lambda>(P, nSize, i, _). nSize - i)") auto

declare Unserialize_prevector_loop.simps [simp del]

definition Unserialize_prevector :: "pv_params \<Rightarrow> byte prevector \<Rightarrow> (unit, byte prevector) outcome reader" where
  "Unserialize_prevector P v =
     (case prevector_clear P 0 v of
        Val _ v' \<Rightarrow>
          bindR ReadCompactSize (\<lambda>n. let nSize = unat (ucast n :: u32) in Unserialize_prevector_loop P nSize 0 v')
      | Exc w \<Rightarrow> Return (Exc w)
      | Fault e \<Rightarrow> Return (Fault e))"

text \<open>\<open>agrees\<close>: the same failure, or the vector of the list that is read, with the same bytes left.\<close>

definition agrees ::
  "pv_params \<Rightarrow> (failure + 'a list) \<times> byte list \<Rightarrow> (failure + (unit, 'a prevector) outcome) \<times> byte list \<Rightarrow> bool" where
  "agrees P r r' \<longleftrightarrow> snd r' = snd r \<and>
     (case fst r of
        Inl e \<Rightarrow> fst r' = Inl e
      | Inr ys \<Rightarrow> \<exists>v. fst r' = Inr (Val () v) \<and> pv_ok P v \<and> contents P v = ys)"

lemma Unserialize_prevector_loop_agrees:
  "params_ok P \<Longrightarrow> pv_ok P v \<Longrightarrow> contents P v = w \<Longrightarrow> length w = i \<Longrightarrow> i \<le> nSize \<Longrightarrow> nSize < 2 ^ 30 \<Longrightarrow>
    agrees P (run_list (Unserialize_blob_loop nSize i w) bs) (run_list (Unserialize_prevector_loop P nSize i v) bs)"
proof (induction nSize i w arbitrary: v bs rule: Unserialize_blob_loop.induct)
  case (1 nSize i w)
  show ?case
  proof (cases "i < nSize")
    case False
    with 1 show ?thesis
      unfolding Unserialize_blob_loop.simps [of nSize i w] Unserialize_prevector_loop.simps [of P nSize i v]
      by (simp add: agrees_def)
  next
    case True
    define blk where "blk = min (nSize - i) (1 + 4999999 div 1 :: nat)"
    have blk: "i + blk \<le> nSize" "0 < blk" using True by (auto simp: blk_def)
    have pos: "unat (of_nat k :: u32) = k" if "k \<le> nSize" for k
      using that "1.prems"(6) by (intro unat_of_nat_id) simp
    have room: "roomy P (length w)" "roomy P (unat (of_nat (i + blk) :: u32))"
      using "1.prems" blk pos [OF blk(1)] by (simp_all add: roomy_iff)
    obtain v' where v': "resize P 0 (of_nat (i + blk)) v = Val () v'" "pv_ok P v'" "contents P v' = w @ replicate blk 0"
      using resize_ok [OF "1.prems"(2), of "of_nat (i + blk)" 0] room "1.prems"(3,4) pos [OF blk(1)]
      by (auto simp: does_def)
    have lhs: "run_list (Unserialize_blob_loop nSize i w) bs =
        run_list (Read blk (\<lambda>bs. Unserialize_blob_loop nSize (i + blk) (w @ bs))) bs"
      using True by (subst Unserialize_blob_loop.simps) (simp only: if_P Let_def blk_def [symmetric])
    have rhs: "run_list (Unserialize_prevector_loop P nSize i v) bs =
        run_list (Read blk (\<lambda>bs. case fill P (of_nat i) bs v' of
          Val _ v'' \<Rightarrow> Unserialize_prevector_loop P nSize (i + blk) v''
        | Exc w \<Rightarrow> Return (Exc w) | Fault e \<Rightarrow> Return (Fault e))) bs"
      using True v'(1) by (subst Unserialize_prevector_loop.simps) (simp only: if_P Let_def blk_def [symmetric] outcome.case)
    show ?thesis
    proof (cases "blk \<le> length bs")
      case False
      then show ?thesis unfolding lhs rhs by (simp add: agrees_def list_read_def)
    next
      case le: True
      have "does P (fill P (of_nat i) (take blk bs)) v' (overwrite (unat (of_nat i :: u32)) (take blk bs) (w @ replicate blk 0))"
        using "1.prems" blk pos [of i] le by (intro fill_ok [OF v'(2,3)]) (simp_all add: roomy_iff)
      moreover have "overwrite (unat (of_nat i :: u32)) (take blk bs) (w @ replicate blk 0) = w @ take blk bs"
        using "1.prems"(4,5) pos [of i] le by (simp add: overwrite_def)
      ultimately obtain v'' where v'': "fill P (of_nat i) (take blk bs) v' = Val () v''" "pv_ok P v''" "contents P v'' = w @ take blk bs"
        by (auto simp: does_def)
      have "agrees P (run_list (Unserialize_blob_loop nSize (i + blk) (w @ take blk bs)) (drop blk bs))
          (run_list (Unserialize_prevector_loop P nSize (i + blk) v'') (drop blk bs))"
        using "1.prems" blk le by (intro "1.IH" [OF True blk_def _ v''(2,3)]) simp_all
      then show ?thesis unfolding lhs rhs using le v''(1) by (simp add: list_read_def)
    qed
  qed
qed

lemma Unserialize_prevector_agrees:
  assumes "params_ok P" "pv_ok P v" "length (contents P v) < 2 ^ 30"
  shows "agrees P (run_list Unserialize_blob bs) (run_list (Unserialize_prevector P v) bs)"
proof -
  obtain v' where v': "prevector_clear P 0 v = Val () v'" "pv_ok P v'" "contents P v' = []"
    using clear_ok [OF assms(2), of 0] assms(1,3) by (auto simp: does_def roomy_iff)
  show ?thesis
  proof (cases "run_list ReadCompactSize bs")
    case (Pair r rest)
    show ?thesis
    proof (cases r)
      case (Inl e)
      with Pair v'(1) show ?thesis by (simp add: Unserialize_blob_def Unserialize_prevector_def run_bindR agrees_def)
    next
      case (Inr n)
      have "n \<le> ucast MAX_SIZE" using run_ReadCompactSize_inv [of bs n rest] Pair Inr by simp
      then have "unat (ucast n :: u32) < 2 ^ 30" using max_size_of_nat [of n] by (simp add: max_size_eq)
      then have "agrees P (run_list (Unserialize_blob_loop (unat (ucast n :: u32)) 0 []) rest)
          (run_list (Unserialize_prevector_loop P (unat (ucast n :: u32)) 0 v') rest)"
        using v' assms(1) by (intro Unserialize_prevector_loop_agrees) simp_all
      with Pair Inr v'(1) show ?thesis by (simp add: Unserialize_blob_def Unserialize_prevector_def run_bindR Let_def)
    qed
  qed
qed

subsection \<open>Properties\<close>

definition script_params :: pv_params where
  "script_params = \<lparr>pvN = 28, pv_malloc = (\<lambda>_. True)\<rparr>"

lemma script_params_ok: "params_ok script_params"
  by (simp add: params_ok_def script_params_def)

text \<open>(C17) Any sequence of operations on a new vector, inserting, erasing, resizing, reserving, shrinking and
  assigning in any order, so that it crosses between the two representations in both directions, succeeds
  and leaves the vector of the list that the same operations give, as long as no list reaches \<open>2 ^ 30\<close>
  elements and no allocation fails.\<close>

theorem prevector_refines_list:
  assumes "params_ok P" "all_on_list (2 ^ 30) dflt ops [] = Some xs"
  shows "\<exists>v. run_all (prevector_act P dflt) ops (prevector_new P) = Val () v \<and> pv_ok P v \<and> contents P v = xs
    \<and> elements P v = Val xs v"
  using prevector.run_all_ok [of P "prevector_new P" dflt ops xs] assms by (auto simp: new_ok elements_ok)

theorem prevector_refines_list_witness:
  "\<exists>v. run_all (prevector_act script_params (0 :: nat)) [Assign [1, 2], Insert 1 (map (\<lambda>_. 7) [0..<30]), Erase 2 31, Shrink_to_fit, Push_back 5]
      (prevector_new script_params) = Val () v \<and> elements script_params v = Val [1, 7, 2, 5] v"
proof -
  have "all_on_list (2 ^ 30) 0 [Assign [1, 2], Insert 1 (map (\<lambda>_. 7) [0..<30]), Erase 2 31, Shrink_to_fit, Push_back 5] [] = Some [1, 7, 2, 5 :: nat]"
    by (simp add: take_map)
  from prevector_refines_list [OF script_params_ok this] show ?thesis by blast
qed

text \<open>(C31) Reading a script into a vector, chunk by chunk into memory that is grown first, is reading the list
  of its bytes: the same bytes, the same failures, the same bytes left.\<close>

theorem Unserialize_prevector_refines:
  assumes "params_ok P" "pv_ok P v" "length (contents P v) < 2 ^ 30"
  shows "snd (run_list (Unserialize_prevector P v) bs) = snd (run_list Unserialize_blob bs) \<and>
    (case fst (run_list Unserialize_blob bs) of
       Inl e \<Rightarrow> fst (run_list (Unserialize_prevector P v) bs) = Inl e
     | Inr ys \<Rightarrow> \<exists>w. fst (run_list (Unserialize_prevector P v) bs) = Inr (Val () w) \<and> pv_ok P w \<and> contents P w = ys)"
  using Unserialize_prevector_agrees [OF assms, of bs] by (simp add: agrees_def)

theorem Unserialize_prevector_refines_witness:
  "\<exists>w. fst (run_list (Unserialize_prevector script_params (prevector_new script_params)) [2, 10, 11, 12]) = Inr (Val () w)
    \<and> contents script_params w = [10, 11]"
proof -
  have "run_list Unserialize_blob ([2] @ [10, 11] @ [12]) = (Inr [10, 11], [12])"
    using blob.roundtrip [of "[10, 11]" "[12]"]
    by (simp add: Serialize_blob_def max_size_eq WriteCompactSize_def write_simps)
  then show ?thesis
    using Unserialize_prevector_refines [OF script_params_ok new_ok(1), of "[2, 10, 11, 12]"] by (auto simp: new_ok)
qed

end
