(* ===== verification/Wrappers.thy ===== *)
theory Wrappers
  imports Prevector
begin

section \<open>More of serialize.h: primitive types, wrappers, small vectors of any elements\<close>

text \<open>
  The overloads for \<^verbatim>\<open>bool\<close> and arrays, the wrapper classes that choose an encoding for an integer, the
  variadic templates, and \<^verbatim>\<open>prevector\<close>s as the streams see them. A wrapper holds a reference: reading
  through it returns the value that is assigned. The arguments of a variadic template are the list of
  their serialisers, and for reading the list of the functions that read one into an object.
\<close>

subsection \<open>Primitive types and wrappers\<close>

definition Serialize_bool :: "bool \<Rightarrow> wop list" where
  "Serialize_bool a = (let f = (if a then 1 else 0) in [wop.Write (ser_writedata8 f)])"

definition Unserialize_bool :: "bool reader" where
  "Unserialize_bool = bindR ser_readdata8 (\<lambda>f. Return (f \<noteq> 0))"

definition Serialize_array :: "byte list \<Rightarrow> wop list" where
  "Serialize_array a = [wop.Write a]"

definition CVarInt_Serialize :: "u64 \<Rightarrow> wop list" where
  "CVarInt_Serialize n = [VarInt n]"

definition CVarInt_Unserialize :: "u64 reader" where
  "CVarInt_Unserialize = ReadVarInt"

definition BigEndian_Serialize :: "u16 \<Rightarrow> wop list" where
  "BigEndian_Serialize m_val = [wop.Write (ser_writedata16be m_val)]"

definition BigEndian_Unserialize :: "u16 reader" where
  "BigEndian_Unserialize = ser_readdata16be"

text \<open>\<^verbatim>\<open>CCompactSize\<close> names the template argument, so that also a \<^verbatim>\<open>CSizeComputer\<close> is given the general template.\<close>

definition CCompactSize_Serialize :: "u64 \<Rightarrow> wop list" where
  "CCompactSize_Serialize n = map wop.Write (WriteCompactSize n)"

definition CCompactSize_Unserialize :: "u64 reader" where
  "CCompactSize_Unserialize = ReadCompactSize"

fun SerializeMany :: "wop list list \<Rightarrow> wop list" where
  "SerializeMany [] = []"
| "SerializeMany (arg # args) = arg @ SerializeMany args"

fun UnserializeMany :: "('o \<Rightarrow> 'o reader) list \<Rightarrow> 'o \<Rightarrow> 'o reader" where
  "UnserializeMany [] x = Return x"
| "UnserializeMany (arg # args) x = bindR (arg x) (UnserializeMany args)"

definition GetSerializeSizeMany :: "wop list list \<Rightarrow> u64" where
  "GetSerializeSizeMany t = foldl CSizeComputer_step 0 (SerializeMany t)"

subsection \<open>Small vectors\<close>

definition Serialize_prevector_bytes :: "pv_params \<Rightarrow> byte prevector \<Rightarrow> (wop list, byte prevector) outcome" where
  "Serialize_prevector_bytes P =
     bindA (read_state (prevector_size P)) (\<lambda>n. bindA (read_state (prevector_empty P)) (\<lambda>none.
       if \<not> none then bindA (elements P) (\<lambda>xs. ret [CompactSize (ucast n), wop.Write xs])
       else ret [CompactSize (ucast n)]))"

definition Serialize_prevector :: "pv_params \<Rightarrow> ('a \<Rightarrow> wop list) \<Rightarrow> 'a prevector \<Rightarrow> (wop list, 'a prevector) outcome" where
  "Serialize_prevector P ser =
     bindA (read_state (prevector_size P)) (\<lambda>n. bindA (elements P) (\<lambda>xs.
       ret (CompactSize (ucast n) # concat (map ser xs))))"

fun Unserialize_prevector_elems ::
  "pv_params \<Rightarrow> 'a reader \<Rightarrow> nat \<Rightarrow> nat \<Rightarrow> 'a prevector \<Rightarrow> (unit, 'a prevector) outcome reader" where
  "Unserialize_prevector_elems P el i 0 v = Return (Val () v)"
| "Unserialize_prevector_elems P el i (Suc k) v =
     bindR el (\<lambda>x.
       case fill P (of_nat i) [x] v of
         Val _ v' \<Rightarrow> Unserialize_prevector_elems P el (i + 1) k v'
       | Exc w \<Rightarrow> Return (Exc w)
       | Fault e \<Rightarrow> Return (Fault e))"

function Unserialize_prevector_mid ::
  "pv_params \<Rightarrow> 'a \<Rightarrow> 'a reader \<Rightarrow> nat \<Rightarrow> nat \<Rightarrow> nat \<Rightarrow> 'a prevector \<Rightarrow> (unit, 'a prevector) outcome reader" where
  "Unserialize_prevector_mid P dflt el chunk nSize nMid v =
     (if nMid < nSize \<and> 0 < chunk then
        let nMid' = (if nMid + chunk > nSize then nSize else nMid + chunk) in
        (case resize P dflt (of_nat nMid') v of
           Val _ v' \<Rightarrow>
             bindR (Unserialize_prevector_elems P el nMid (nMid' - nMid) v') (\<lambda>r.
               case r of
                 Val _ v'' \<Rightarrow> Unserialize_prevector_mid P dflt el chunk nSize nMid' v''
               | Exc w \<Rightarrow> Return (Exc w)
               | Fault e \<Rightarrow> Return (Fault e))
         | Exc w \<Rightarrow> Return (Exc w)
         | Fault e \<Rightarrow> Return (Fault e))
      else Return (Val () v))"
  by pat_completeness auto
termination by (relation "measure (\<lambda>(_, _, _, _, nSize, nMid, _). nSize - nMid)") auto

declare Unserialize_prevector_mid.simps [simp del]

definition Unserialize_prevector_vec ::
  "pv_params \<Rightarrow> 'a \<Rightarrow> nat \<Rightarrow> 'a reader \<Rightarrow> 'a prevector \<Rightarrow> (unit, 'a prevector) outcome reader" where
  "Unserialize_prevector_vec P dflt sizeof_T el v =
     (case prevector_clear P dflt v of
        Val _ v' \<Rightarrow>
          bindR ReadCompactSize (\<lambda>n. let nSize = unat (ucast n :: u32) in
            Unserialize_prevector_mid P dflt el (5000000 div sizeof_T) nSize 0 v')
      | Exc w \<Rightarrow> Return (Exc w)
      | Fault e \<Rightarrow> Return (Fault e))"

subsection \<open>Encodings\<close>

text \<open>Any byte but zero is read as true, so that \<^verbatim>\<open>bool\<close> has more encodings than values.\<close>

interpretation bool: codec Serialize_bool Unserialize_bool "\<lambda>_. True"
  by unfold_locales (auto simp: Serialize_bool_def Unserialize_bool_def run_simps write_simps)

lemma many_written: "bytes_written (SerializeMany ts) = concat (map bytes_written ts)"
  by (induction ts) (simp_all add: bytes_written_def)

lemma GetSerializeSizeMany_exact: "GetSerializeSizeMany ts = (\<Sum>t \<leftarrow> ts. GetSerializeSize t)"
proof -
  have "(\<Sum>t \<leftarrow> ts. of_nat (length (bytes_written t)) :: u64) = of_nat (length (concat (map bytes_written ts)))"
    by (induction ts) simp_all
  then show ?thesis by (simp add: GetSerializeSizeMany_def GetSerializeSize_def foldl_CSizeComputer many_written)
qed

subsection \<open>Small vectors are read and written as the lists they hold\<close>

lemma size_word: "pv_ok P v \<Longrightarrow> ucast (prevector_size P v) = (of_nat (length (contents P v)) :: u64)"
  by (simp add: length_contents)

theorem Serialize_prevector_agrees:
  assumes "pv_ok P v"
  shows "Serialize_prevector P ser v = Val (Serialize_vec ser (contents P v)) v"
  using assms by (simp add: Serialize_prevector_def Serialize_vec_def bindA_def read_state_def ret_def elements_ok size_word)

theorem Serialize_prevector_bytes_agrees:
  assumes "pv_ok P v"
  shows "Serialize_prevector_bytes P v = Val (Serialize_blob (contents P v)) v"
proof -
  have "prevector_empty P v \<longleftrightarrow> contents P v = []"
    using length_contents [OF assms] by (simp add: prevector_empty_def flip: length_0_conv) (simp add: unat_eq_0)
  then show ?thesis
    using assms by (simp add: Serialize_prevector_bytes_def Serialize_blob_def bindA_def read_state_def ret_def elements_ok size_word)
qed

lemma agrees_bind:
  assumes "agrees P (run_list p bs) (run_list q bs)"
    and "\<And>ys v rest. run_list p bs = (Inr ys, rest) \<Longrightarrow> pv_ok P v \<Longrightarrow> contents P v = ys \<Longrightarrow> agrees P (run_list (f ys) rest) (run_list (g v) rest)"
  shows "agrees P (run_list (bindR p f) bs)
    (run_list (bindR q (\<lambda>r. case r of Val _ v \<Rightarrow> g v | Exc w \<Rightarrow> Return (Exc w) | Fault e \<Rightarrow> Return (Fault e))) bs)"
proof (cases "run_list p bs")
  case (Pair r rest)
  show ?thesis
  proof (cases r)
    case (Inl e)
    then have "run_list q bs = (Inl e, rest)" using assms(1) Pair by (cases "run_list q bs") (simp add: agrees_def)
    then show ?thesis using Pair Inl by (simp add: run_bindR agrees_def)
  next
    case (Inr ys)
    then obtain v where v: "run_list q bs = (Inr (Val () v), rest)" "pv_ok P v" "contents P v = ys"
      using assms(1) Pair by (cases "run_list q bs") (auto simp: agrees_def)
    show ?thesis using assms(2) [OF _ v(2,3)] Pair Inr v(1) by (simp add: run_bindR)
  qed
qed

lemma elems_agrees:
  "params_ok P \<Longrightarrow> pv_ok P v \<Longrightarrow> contents P v = w @ replicate k dflt \<Longrightarrow> length w + k < 2 ^ 30 \<Longrightarrow>
    agrees P (run_list (Unserialize_elems el k w) bs) (run_list (Unserialize_prevector_elems P el (length w) k v) bs)"
proof (induction k arbitrary: w v bs)
  case 0
  then show ?case by (simp add: agrees_def)
next
  case (Suc k)
  show ?case
  proof (cases "run_list el bs")
    case (Pair r rest)
    show ?thesis
    proof (cases r)
      case (Inl e)
      then show ?thesis using Pair by (simp add: run_bindR agrees_def)
    next
      case (Inr x)
      have pos: "unat (of_nat (length w) :: u32) = length w" using Suc.prems(4) by (intro unat_of_nat_id) simp
      have "does P (fill P (of_nat (length w)) [x]) v (overwrite (unat (of_nat (length w) :: u32)) [x] (w @ replicate (Suc k) dflt))"
        using Suc.prems pos by (intro fill_ok) (simp_all add: roomy_iff)
      moreover have "overwrite (unat (of_nat (length w) :: u32)) [x] (w @ replicate (Suc k) dflt) = (w @ [x]) @ replicate k dflt"
        by (simp add: pos overwrite_def)
      ultimately obtain v' where v': "fill P (of_nat (length w)) [x] v = Val () v'" "pv_ok P v'"
        "contents P v' = (w @ [x]) @ replicate k dflt" by (auto simp: does_def)
      have "agrees P (run_list (Unserialize_elems el k (w @ [x])) rest)
          (run_list (Unserialize_prevector_elems P el (length (w @ [x])) k v') rest)"
        by (rule Suc.IH [OF Suc.prems(1) v'(2,3)]) (use Suc.prems(4) in simp)
      then show ?thesis using Pair Inr v'(1) by (simp add: run_bindR)
    qed
  qed
qed

lemma mid_agrees:
  "params_ok P \<Longrightarrow> pv_ok P v \<Longrightarrow> contents P v = w \<Longrightarrow> length w = nMid \<Longrightarrow> nMid \<le> nSize \<Longrightarrow> nSize < 2 ^ 30 \<Longrightarrow>
    agrees P (run_list (Unserialize_mid el chunk nSize nMid w) bs) (run_list (Unserialize_prevector_mid P dflt el chunk nSize nMid v) bs)"
proof (induction el chunk nSize nMid w arbitrary: v bs rule: Unserialize_mid.induct)
  case (1 el chunk nSize nMid w)
  show ?case
  proof (cases "nMid < nSize \<and> 0 < chunk")
    case False
    show ?thesis
      unfolding Unserialize_mid.simps [of el chunk nSize nMid w] Unserialize_prevector_mid.simps [of P dflt el chunk nSize nMid v]
        if_not_P [OF False]
      using "1.prems" by (simp add: agrees_def)
  next
    case True
    define m where "m = (if nMid + chunk > nSize then nSize else nMid + chunk)"
    have m: "nMid < m" "m \<le> nSize" using True by (auto simp: m_def)
    have pos: "unat (of_nat m :: u32) = m" using m "1.prems"(6) by (intro unat_of_nat_id) simp
    obtain v' where v': "resize P dflt (of_nat m) v = Val () v'" "pv_ok P v'" "contents P v' = w @ replicate (m - nMid) dflt"
      using resize_ok [OF "1.prems"(2), of "of_nat m" dflt] "1.prems" m pos by (auto simp: does_def roomy_iff)
    have first: "agrees P (run_list (Unserialize_elems el (m - nMid) w) bs)
        (run_list (Unserialize_prevector_elems P el nMid (m - nMid) v') bs)"
      using elems_agrees [OF "1.prems"(1) v'(2,3), of el bs] "1.prems"(4,6) m by simp
    have lengths: "length ys = m" if "run_list (Unserialize_elems el (m - nMid) w) bs = (Inr ys, rest)" for ys rest
      using elems_all [of el "\<lambda>_. True", OF _ that] "1.prems"(4) m by simp
    show ?thesis
      unfolding Unserialize_mid.simps [of el chunk nSize nMid w] Unserialize_prevector_mid.simps [of P dflt el chunk nSize nMid v]
        if_P [OF True] Let_def m_def [symmetric] v'(1) outcome.case
    proof (rule agrees_bind [OF first])
      fix ys v'' rest
      assume "run_list (Unserialize_elems el (m - nMid) w) bs = (Inr ys, rest)" "pv_ok P v''" "contents P v'' = ys"
      then show "agrees P (run_list (Unserialize_mid el chunk nSize m ys) rest)
          (run_list (Unserialize_prevector_mid P dflt el chunk nSize m v'') rest)"
        using "1.prems" m lengths by (intro "1.IH" [OF True m_def]) simp_all
    qed
  qed
qed

text \<open>Reading a small vector of any elements, into memory that is grown for five megabytes of them at a time, is
  reading a vector of them.\<close>

theorem Unserialize_prevector_vec_agrees:
  assumes "params_ok P" "pv_ok P v" "length (contents P v) < 2 ^ 30"
  shows "agrees P (run_list (Unserialize_vec sizeof_T el) bs) (run_list (Unserialize_prevector_vec P dflt sizeof_T el v) bs)"
proof -
  obtain v' where v': "prevector_clear P dflt v = Val () v'" "pv_ok P v'" "contents P v' = []"
    using clear_ok [OF assms(2), of dflt] assms(1,3) by (auto simp: does_def roomy_iff)
  show ?thesis
  proof (cases "run_list ReadCompactSize bs")
    case (Pair r rest)
    show ?thesis
    proof (cases r)
      case (Inl e)
      with Pair v'(1) show ?thesis by (simp add: Unserialize_vec_def Unserialize_prevector_vec_def run_bindR agrees_def)
    next
      case (Inr n)
      have "n \<le> ucast MAX_SIZE" using run_ReadCompactSize_inv [of bs n rest] Pair Inr by simp
      then have "unat (ucast n :: u32) < 2 ^ 30" using max_size_of_nat [of n] by (simp add: max_size_eq)
      then have "agrees P (run_list (Unserialize_mid el (5000000 div sizeof_T) (unat (ucast n :: u32)) 0 []) rest)
          (run_list (Unserialize_prevector_mid P dflt el (5000000 div sizeof_T) (unat (ucast n :: u32)) 0 v') rest)"
        using v' assms(1) by (intro mid_agrees) simp_all
      with Pair Inr v'(1) show ?thesis
        by (simp add: Unserialize_vec_def Unserialize_prevector_vec_def run_bindR Let_def)
    qed
  qed
qed

end
