(* ===== verification/TXODB.thy ===== *)
theory TXODB
  imports Runtime Block
begin

section \<open>The output database: TXO.h, TXODB.h, TXODB.cxx\<close>

text \<open>
  LMDB is not part of the repository: its calls are the fields of \<open>lmdb\<close>, functions on a state \<open>'e\<close> of
  the environment. A call that can fail returns an error, 0 for success, and the handles and values it
  sets; the codes of the errors are fields too. Transactions, databases and cursors are numbers. After
  a call that failed the variables it sets are indeterminate: they are \<open>None\<close>, and using them is a fault.
  The mutex of \<^verbatim>\<open>IncreaseMapSize\<close> makes it one step; the log messages are left out.
\<close>

datatype mdb_flag = MDB_CREATE | MDB_WRITEMAP | MDB_MAPASYNC | MDB_NOSUBDIR | MDB_DUPSORT
  | MDB_NODUPDATA | MDB_APPENDDUP | MDB_NOSYNC

record 'e lmdb =
  MDB_NOTFOUND :: int
  MDB_MAP_FULL :: int
  MDB_KEYEXIST :: int
  EINVAL :: int
  mdb_env_create :: "'e \<Rightarrow> int \<times> 'e"
  mdb_env_set_maxdbs :: "nat \<Rightarrow> 'e \<Rightarrow> int \<times> 'e"
  mdb_env_open :: "string \<Rightarrow> mdb_flag list \<Rightarrow> nat \<Rightarrow> 'e \<Rightarrow> int \<times> 'e"
  mdb_env_info :: "'e \<Rightarrow> (int \<times> u64) \<times> 'e"
  mdb_env_set_mapsize :: "u64 \<Rightarrow> 'e \<Rightarrow> int \<times> 'e"
  mdb_txn_begin :: "'e \<Rightarrow> (int \<times> nat) \<times> 'e"
  mdb_txn_commit :: "nat \<Rightarrow> 'e \<Rightarrow> int \<times> 'e"
  mdb_txn_abort :: "nat \<Rightarrow> 'e \<Rightarrow> unit \<times> 'e"
  mdb_dbi_open :: "nat \<Rightarrow> string \<Rightarrow> mdb_flag list \<Rightarrow> 'e \<Rightarrow> (int \<times> nat) \<times> 'e"
  mdb_set_dupsort :: "nat \<Rightarrow> nat \<Rightarrow> (byte list \<Rightarrow> byte list \<Rightarrow> int) \<Rightarrow> 'e \<Rightarrow> int \<times> 'e"
  mdb_stat :: "nat \<Rightarrow> nat \<Rightarrow> 'e \<Rightarrow> (int \<times> nat) \<times> 'e"
  mdb_get :: "nat \<Rightarrow> nat \<Rightarrow> byte list \<Rightarrow> 'e \<Rightarrow> (int \<times> byte list) \<times> 'e"
  mdb_put :: "nat \<Rightarrow> nat \<Rightarrow> byte list \<Rightarrow> byte list \<Rightarrow> mdb_flag list \<Rightarrow> 'e \<Rightarrow> int \<times> 'e"
  mdb_cursor_open :: "nat \<Rightarrow> nat \<Rightarrow> 'e \<Rightarrow> (int \<times> nat) \<times> 'e"
  mdb_cursor_put :: "nat \<Rightarrow> byte list \<Rightarrow> byte list \<Rightarrow> mdb_flag list \<Rightarrow> 'e \<Rightarrow> int \<times> 'e"
  mdb_cursor_close :: "nat \<Rightarrow> 'e \<Rightarrow> unit \<times> 'e"
  mdb_env_set_flags :: "mdb_flag \<Rightarrow> bool \<Rightarrow> 'e \<Rightarrow> int \<times> 'e"
  mdb_env_sync :: "bool \<Rightarrow> 'e \<Rightarrow> int \<times> 'e"

subsection \<open>Outputs\<close>

record TXO =
  txo_txHash :: uint256
  txo_scriptHash :: uint256
  txo_n :: u32
  txo_value :: CAmount
  txo_spend :: COutPoint

definition TXO_new :: "uint256 \<Rightarrow> uint256 \<Rightarrow> u32 \<Rightarrow> CAmount \<Rightarrow> u64 \<Rightarrow> TXO" where
  "TXO_new sHash txHash tIndex v blockHeight =
     \<lparr>txo_txHash = txHash, txo_scriptHash = sHash, txo_n = tIndex, txo_value = v, txo_spend = COutPoint_new\<rparr>"

definition TXO_Serialize :: "TXO \<Rightarrow> wop list" where
  "TXO_Serialize t =
     [Write (ser_writedata32 (txo_n t)), Write (ser_writedata64 (txo_value t))] @ COutPoint_Serialize (txo_spend t)"

text \<open>Reading sets the three serialised members of an existing object.\<close>

definition TXO_Unserialize :: "TXO \<Rightarrow> TXO reader" where
  "TXO_Unserialize t =
     bindR ser_readdata32 (\<lambda>n. bindR ser_readdata64 (\<lambda>value. bindR COutPoint_Unserialize (\<lambda>spend.
       Return (t\<lparr>txo_n := n, txo_value := value, txo_spend := spend\<rparr>))))"

subsection \<open>Opening and growing\<close>

definition SER_DISK :: int where "SER_DISK = 2"

definition TXO_ERR :: int where "TXO_ERR = 0"
definition TXO_OK :: int where "TXO_OK = 1"
definition TXO_NOTFOUND :: int where "TXO_NOTFOUND = 2"
definition TXO_RESIZED :: int where "TXO_RESIZED = 3"
definition TXO_MAP_FULL :: int where "TXO_MAP_FULL = 4"

definition DBI_TXO :: string where "DBI_TXO = ''txo''"
definition DBI_ADDR :: string where "DBI_ADDR = ''addr''"
definition DBI_BLK :: string where "DBI_BLK = ''blk''"

definition MAPSIZE_BASE_UNIT :: u64 where "MAPSIZE_BASE_UNIT = 1024 * 1024 * 100"

definition TXODB_Open :: "'e lmdb \<Rightarrow> string \<Rightarrow> (int, 'e) action" where
  "TXODB_Open L dbPath =
     bindA (call (mdb_env_create L)) (\<lambda>err. if err \<noteq> 0 then ret err else
     bindA (call (mdb_env_set_maxdbs L 3)) (\<lambda>err. if err \<noteq> 0 then ret err else
     bindA (call (mdb_env_open L dbPath [MDB_CREATE, MDB_WRITEMAP, MDB_MAPASYNC, MDB_NOSUBDIR] 420)) (\<lambda>err.
       if err \<noteq> 0 then ret err else
     bindA (call (mdb_env_info L)) (\<lambda>(err, me_mapsize). if err \<noteq> 0 then ret err else
     if me_mapsize < MAPSIZE_BASE_UNIT then call (mdb_env_set_mapsize L MAPSIZE_BASE_UNIT) else ret err))))"

definition IncreaseMapSize :: "'e lmdb \<Rightarrow> (int, 'e) action" where
  "IncreaseMapSize L =
     bindA (call (mdb_env_info L)) (\<lambda>(err, me_mapsize). if err \<noteq> 0 then ret err else
     let new_size = (me_mapsize - (me_mapsize mod MAPSIZE_BASE_UNIT)) + MAPSIZE_BASE_UNIT in
     bindA (call (mdb_env_set_mapsize L new_size)) (\<lambda>err. if err \<noteq> 0 then ret err else
     ret TXO_RESIZED))"

subsection \<open>Reading\<close>

text \<open>The transaction and the database are set by the calls that succeed.\<close>

definition StartTXOTxn :: "'e lmdb \<Rightarrow> string \<Rightarrow> (int \<times> nat option \<times> nat option, 'e) action" where
  "StartTXOTxn L dbn =
     bindA (call (mdb_txn_begin L)) (\<lambda>(err, txn). if err \<noteq> 0 then ret (err, None, None) else
     bindA (call (mdb_dbi_open L txn dbn [MDB_CREATE])) (\<lambda>(err, dbi).
       if err \<noteq> 0 then
         (if err = MDB_MAP_FULL L then bindA (IncreaseMapSize L) (\<lambda>err. ret (err, Some txn, None))
          else ret (err, Some txn, None))
       else ret (TXO_OK, Some txn, Some dbi)))"

abbreviation used :: "'a option \<Rightarrow> ('a, 'e) action" where
  "used x \<equiv> or_fault Indeterminate_value x"

definition GetTXOStats :: "'e lmdb \<Rightarrow> string \<Rightarrow> (int \<times> nat option, 'e) action" where
  "GetTXOStats L dbn =
     bindA (StartTXOTxn L dbn) (\<lambda>(err, txn, dbi). if err = 0 then ret (err, None) else
     bindA (used txn) (\<lambda>txn. bindA (used dbi) (\<lambda>dbi.
     bindA (call (mdb_stat L txn dbi)) (\<lambda>(err, stats). if err \<noteq> 0 then ret (err, None) else
     bindA (call (mdb_txn_commit L txn)) (\<lambda>_. ret (err, Some stats))))))"

definition GetTXOs :: "'e lmdb \<Rightarrow> uint256 \<Rightarrow> TXO list \<Rightarrow> (int \<times> TXO list, 'e) action" where
  "GetTXOs L scriptHash ntx =
     bindA (StartTXOTxn L DBI_ADDR) (\<lambda>(err, txn, dbi). if err = 0 then ret (err, ntx) else
     bindA (used txn) (\<lambda>txn. bindA (used dbi) (\<lambda>dbi.
     bindA (call (mdb_get L txn dbi (blob_data scriptHash))) (\<lambda>(err, val).
       if err = MDB_NOTFOUND L then bindA (call (mdb_txn_abort L txn)) (\<lambda>_. ret (TXO_NOTFOUND, ntx))
       else if err = EINVAL L then bindA (call (mdb_txn_abort L txn)) (\<lambda>_. ret (err, ntx))
       else
         bindA (used (if err = 0 then Some val else None)) (\<lambda>val.
         case CDataStream_shr (CDataStream_Init val SER_DISK PROTOCOL_VERSION) COutPoint_Unserialize of
           (Inl e, _) \<Rightarrow> fault Uncaught_exception
         | (Inr outPoint, _) \<Rightarrow> bindA (call (mdb_txn_commit L txn)) (\<lambda>_. ret (TXO_OK, ntx)))))))"

subsection \<open>Adding outputs\<close>

text \<open>The bytes a \<^verbatim>\<open>CDataStream\<close> holds, as \<^verbatim>\<open>ds.size()\<close> and \<^verbatim>\<open>ds.data()\<close> give them to LMDB.\<close>

definition ds_val :: "CDataStream \<Rightarrow> byte list" where
  "ds_val ds = drop (CDataStream_begin ds) (vch ds)"

definition InternalSpendTXO :: "COutPoint \<Rightarrow> COutPoint \<Rightarrow> (int, 'e) action" where
  "InternalSpendTXO prevout_in spendingTx = ret TXO_OK"

definition write_error :: "'e lmdb \<Rightarrow> nat \<Rightarrow> int \<Rightarrow> (int, 'e) action" where
  "write_error L txn err =
     (if err = MDB_MAP_FULL L then bindA (call (mdb_txn_abort L txn)) (\<lambda>_. IncreaseMapSize L) else ret err)"

definition InternalAddTXO :: "'e lmdb \<Rightarrow> TXO \<Rightarrow> nat \<Rightarrow> nat \<Rightarrow> nat \<Rightarrow> (int, 'e) action" where
  "InternalAddTXO L nTx txn dbi dbi_i2a =
     (let op = \<lparr>op_hash = txo_txHash nTx, op_n = txo_n nTx\<rparr>;
          ds = CDataStream_shl (CDataStream_Init [] SER_DISK PROTOCOL_VERSION) (COutPoint_Serialize op)
      in bindA (call (mdb_put L txn dbi (blob_data (txo_scriptHash nTx)) (ds_val ds) [])) (\<lambda>err.
         if err \<noteq> 0 then write_error L txn err
         else
           let ds = CDataStream_shl (CDataStream_clear ds) (TXO_Serialize nTx)
           in bindA (call (mdb_put L txn dbi (blob_data (txo_txHash nTx)) (ds_val ds) [])) (\<lambda>err.
              if err \<noteq> 0 then write_error L txn err else ret TXO_OK)))"

definition PushBlockTip :: "nat \<Rightarrow> CBlockHeader \<Rightarrow> (int, 'e) action" where
  "PushBlockTip tx h = ret TXO_OK"

subsection \<open>Storing a block\<close>

text \<open>
  The part of \<^verbatim>\<open>PreLoadBlocks\<close> that stores one block, from the label \<^verbatim>\<open>try_block_again\<close> to the commit. An
  attempt ends with the commit, with a \<^verbatim>\<open>return\<close> of an error, or with the \<^verbatim>\<open>goto\<close> after the map has grown;
  the loops inside yield \<open>Some\<close> end of the attempt or \<open>None\<close> to go on.
\<close>

datatype attempt = Committed | Returned int | Again

definition and_then :: "('x option, 'e) action \<Rightarrow> ('x option, 'e) action \<Rightarrow> ('x option, 'e) action" where
  "and_then m k = bindA m (\<lambda>r. case r of Some x \<Rightarrow> ret (Some x) | None \<Rightarrow> k)"

definition map_full :: "'e lmdb \<Rightarrow> nat \<Rightarrow> (attempt option, 'e) action" where
  "map_full L txn =
     bindA (call (mdb_txn_abort L txn)) (\<lambda>_. bindA (IncreaseMapSize L) (\<lambda>err.
       if err \<noteq> TXO_RESIZED then ret (Some (Returned err)) else ret (Some Again)))"

definition dup_compare :: "byte list \<Rightarrow> byte list \<Rightarrow> int" where
  "dup_compare a b = sint (le_word (take 4 a) - le_word (take 4 b) :: u32)"

text \<open>
  The result of \<^verbatim>\<open>mdb_cursor_open\<close> is ignored: after a failure the cursor is used, and closed, without having
  been set. So is the result of \<^verbatim>\<open>mdb_txn_commit\<close>.
\<close>

definition write_output ::
  "'e lmdb \<Rightarrow> ('s, 'r) mbedtls \<Rightarrow> nat \<Rightarrow> nat \<Rightarrow> nat option \<Rightarrow> uint256 \<Rightarrow> u32 \<Rightarrow> CTxOut \<Rightarrow> (attempt option, 'e) action" where
  "write_output L m txn dbi_addr curtx txHash txop ntxo =
     (let sh = SHash m (scriptPubKey ntxo);
          t = TXO_new sh txHash txop (nValue ntxo) 0;
          out_tx = \<lparr>op_hash = txHash, op_n = txo_n t\<rparr>;
          ds = CDataStream_shl (CDataStream_Init [] SER_DISK PROTOCOL_VERSION) (COutPoint_Serialize out_tx)
      in bindA (call (mdb_put L txn dbi_addr (blob_data sh) (ds_val ds) [MDB_NODUPDATA])) (\<lambda>err.
         if err \<noteq> 0 then
           (if err = MDB_MAP_FULL L then map_full L txn
            else if err = MDB_KEYEXIST L then ret None
            else ret (Some (Returned err)))
         else
           let ds = CDataStream_shl (CDataStream_clear ds) (TXO_Serialize t)
           in bindA (used curtx) (\<lambda>curtx.
              bindA (call (mdb_cursor_put L curtx (blob_data txHash) (ds_val ds) [MDB_APPENDDUP])) (\<lambda>err.
              if err \<noteq> 0 then
                (if err = MDB_MAP_FULL L then map_full L txn else ret (Some (Returned err)))
              else ret None))))"

fun write_outputs ::
  "'e lmdb \<Rightarrow> ('s, 'r) mbedtls \<Rightarrow> nat \<Rightarrow> nat \<Rightarrow> nat option \<Rightarrow> uint256 \<Rightarrow> u32 \<Rightarrow> CTxOut list \<Rightarrow> (attempt option, 'e) action" where
  "write_outputs L m txn dbi_addr curtx txHash txop [] = ret None"
| "write_outputs L m txn dbi_addr curtx txHash txop (ntxo # outs) =
     and_then (write_output L m txn dbi_addr curtx txHash txop ntxo)
       (write_outputs L m txn dbi_addr curtx txHash (txop + 1) outs)"

fun spend_inputs :: "uint256 \<Rightarrow> u32 \<Rightarrow> CTxIn list \<Rightarrow> (attempt option, 'e) action" where
  "spend_inputs txHash txip [] = ret None"
| "spend_inputs txHash txip (ntxi # ins) =
     bindA
       (if \<not> COutPoint_IsNull (prevout ntxi) then
          let thisTxi = \<lparr>op_hash = txHash, op_n = txip\<rparr> in
          bindA (InternalSpendTXO (prevout ntxi) thisTxi) (\<lambda>r.
            if r = TXO_RESIZED then bindA (InternalSpendTXO (prevout ntxi) thisTxi) (\<lambda>_. ret ()) else ret ())
        else ret ())
       (\<lambda>_. spend_inputs txHash (txip + 1) ins)"

fun write_txs ::
  "'e lmdb \<Rightarrow> ('s, 'r) mbedtls \<Rightarrow> int \<Rightarrow> nat \<Rightarrow> nat \<Rightarrow> nat \<Rightarrow> CTransaction list \<Rightarrow> (attempt option, 'e) action" where
  "write_txs L m mode txn dbi dbi_addr [] = ret None"
| "write_txs L m mode txn dbi dbi_addr (tx # txs) =
     (let txHash = tx_hash tx in
      bindA (call (mdb_cursor_open L txn dbi)) (\<lambda>(err, cursor).
      let curtx = (if err = 0 then Some cursor else None) in
      and_then
        (if mode = 1 then spend_inputs txHash 0 (vin tx)
         else write_outputs L m txn dbi_addr curtx txHash 0 (vout tx))
        (bindA (used curtx) (\<lambda>curtx.
         bindA (call (mdb_cursor_close L curtx)) (\<lambda>_. write_txs L m mode txn dbi dbi_addr txs)))))"

definition open_failed :: "'e lmdb \<Rightarrow> int \<Rightarrow> (attempt, 'e) action" where
  "open_failed L err =
     (if err = MDB_MAP_FULL L then bindA (IncreaseMapSize L) (\<lambda>err. ret (Returned err)) else ret (Returned err))"

definition try_block :: "'e lmdb \<Rightarrow> ('s, 'r) mbedtls \<Rightarrow> int \<Rightarrow> CBlock \<Rightarrow> (attempt, 'e) action" where
  "try_block L m mode blk =
     bindA (call (mdb_txn_begin L)) (\<lambda>(err, txn). if err \<noteq> 0 then ret (Returned err) else
     bindA (call (mdb_dbi_open L txn DBI_TXO [MDB_CREATE, MDB_DUPSORT])) (\<lambda>(err, dbi).
       if err \<noteq> 0 then open_failed L err else
     bindA (call (mdb_dbi_open L txn DBI_ADDR [MDB_CREATE, MDB_DUPSORT])) (\<lambda>(err, dbi_addr).
       if err \<noteq> 0 then open_failed L err else
     bindA (call (mdb_dbi_open L txn DBI_BLK [MDB_CREATE])) (\<lambda>(err, dbi_blk).
       if err \<noteq> 0 then open_failed L err else
     bindA (call (mdb_set_dupsort L txn dbi dup_compare)) (\<lambda>err. if err \<noteq> 0 then ret (Returned err) else
     let blkHash = CBlockHeader_GetHash m blk;
         ds = CDataStream_shl (CDataStream_clear (CDataStream_Init [] SER_DISK PROTOCOL_VERSION))
           (CBlockHeader_Serialize (CBlock_GetBlockHeader blk))
     in bindA (call (mdb_put L txn dbi_blk (blob_data blkHash) (ds_val ds) [MDB_NODUPDATA])) (\<lambda>err.
        bindA
          (and_then
            (if err \<noteq> 0 then
               (if err = MDB_MAP_FULL L then map_full L txn else ret (Some (Returned err)))
             else ret None)
            (write_txs L m mode txn dbi dbi_addr (vtx blk)))
          (\<lambda>r. case r of Some stop \<Rightarrow> ret stop
           | None \<Rightarrow> bindA (call (mdb_txn_commit L txn)) (\<lambda>_. ret Committed))))))))"

text \<open>The loop of \<^verbatim>\<open>goto try_block_again\<close> need not end: its value is \<open>None\<close> when it does not.\<close>

partial_function (option) store_block ::
  "'e lmdb \<Rightarrow> ('s, 'r) mbedtls \<Rightarrow> int \<Rightarrow> CBlock \<Rightarrow> 'e \<Rightarrow> (attempt, 'e) outcome option" where
  "store_block L m mode blk e =
     (case try_block L m mode blk e of
        Val Again e' \<Rightarrow> store_block L m mode blk e'
      | r \<Rightarrow> Some r)"

subsection \<open>The map grows until the block fits\<close>

text \<open>
  What LMDB promises about the size of its map: \<^verbatim>\<open>mdb_env_info\<close> reports it, \<^verbatim>\<open>mdb_env_set_mapsize\<close> sets it, no
  other call changes it, and a map of at least \<open>limit\<close> bytes is never reported full. Any call may fail.
\<close>

definition keeps :: "('e \<Rightarrow> 'x) \<Rightarrow> ('e \<Rightarrow> 'a \<times> 'e) \<Rightarrow> bool" where
  "keeps f op \<longleftrightarrow> (\<forall>e. f (snd (op e)) = f e)"

definition map_limit :: "'e lmdb \<Rightarrow> ('e \<Rightarrow> u64) \<Rightarrow> nat \<Rightarrow> bool" where
  "map_limit L msize limit \<longleftrightarrow>
     keeps msize (mdb_env_info L) \<and>
     (\<forall>e. fst (fst (mdb_env_info L e)) = 0 \<longrightarrow> snd (fst (mdb_env_info L e)) = msize e) \<and>
     (\<forall>n e. fst (mdb_env_set_mapsize L n e) = 0 \<longrightarrow> msize (snd (mdb_env_set_mapsize L n e)) = n) \<and>
     (\<forall>e. fst (fst (mdb_env_info L e)) \<noteq> TXO_RESIZED) \<and> (\<forall>n e. fst (mdb_env_set_mapsize L n e) \<noteq> TXO_RESIZED) \<and>
     keeps msize (mdb_txn_begin L) \<and> (\<forall>t. keeps msize (mdb_txn_commit L t)) \<and> (\<forall>t. keeps msize (mdb_txn_abort L t)) \<and>
     (\<forall>t s fl. keeps msize (mdb_dbi_open L t s fl)) \<and> (\<forall>t d c. keeps msize (mdb_set_dupsort L t d c)) \<and>
     (\<forall>t d. keeps msize (mdb_cursor_open L t d)) \<and> (\<forall>c. keeps msize (mdb_cursor_close L c)) \<and>
     (\<forall>t d k v fl. keeps msize (mdb_put L t d k v fl)) \<and> (\<forall>c k v fl. keeps msize (mdb_cursor_put L c k v fl)) \<and>
     (\<forall>t d k v fl e. fst (mdb_put L t d k v fl e) = MDB_MAP_FULL L \<longrightarrow> unat (msize e) < limit) \<and>
     (\<forall>c k v fl e. fst (mdb_cursor_put L c k v fl e) = MDB_MAP_FULL L \<longrightarrow> unat (msize e) < limit)"

lemma holds_call_keeps:
  assumes "keeps msize f" "\<And>x e'. f e = (x, e') \<Longrightarrow> msize e' = msize e \<Longrightarrow> P x e'"
  shows "holds P E F (call f) e"
  using assms by (auto simp: keeps_def holds_def call_def split: prod.splits) (metis snd_conv)

lemma next_multiple:
  assumes "unat (m :: u64) + unat u < 2 ^ 64" "0 < u"
  shows "unat ((m - (m mod u)) + u) = unat m - unat m mod unat u + unat u"
proof -
  have "m mod u \<le> m" by (simp add: word_le_nat_alt unat_mod_distrib)
  then have d: "unat (m - m mod u) = unat m - unat m mod unat u"
    by (simp add: unat_sub unat_mod_distrib)
  moreover have "unat (m - m mod u) + unat u < 2 ^ LENGTH(64)" using assms(1) unfolding d by simp
  ultimately show ?thesis using unat_add_lem by (metis (no_types))
qed

lemma unit_positive: "0 < MAPSIZE_BASE_UNIT" "unat MAPSIZE_BASE_UNIT = 104857600"
  by (simp_all add: MAPSIZE_BASE_UNIT_def)

lemma IncreaseMapSize_eq:
  assumes "mdb_env_info L e = ((0, m), e')" "unat m + unat MAPSIZE_BASE_UNIT < 2 ^ 64"
  obtains n where "unat n = unat m - unat m mod unat MAPSIZE_BASE_UNIT + unat MAPSIZE_BASE_UNIT"
    "IncreaseMapSize L e = (case mdb_env_set_mapsize L n e' of
       (err, e'') \<Rightarrow> Val (if err \<noteq> 0 then err else TXO_RESIZED) e'')"
proof -
  let ?n = "(m - (m mod MAPSIZE_BASE_UNIT)) + MAPSIZE_BASE_UNIT"
  show thesis
    by (rule that [of ?n], rule next_multiple [OF assms(2) unit_positive(1)])
      (simp add: IncreaseMapSize_def bindA_def call_def ret_def assms(1) Let_def split: prod.splits)
qed

lemma map_grows:
  assumes "unat n = unat m - unat m mod unat MAPSIZE_BASE_UNIT + unat MAPSIZE_BASE_UNIT"
  shows "unat m < unat n"
proof -
  have "unat m mod unat MAPSIZE_BASE_UNIT < unat MAPSIZE_BASE_UNIT" unfolding unit_positive(2) by simp
  moreover have "unat m mod unat MAPSIZE_BASE_UNIT \<le> unat m" by simp
  ultimately show ?thesis using assms by linarith
qed

lemma IncreaseMapSize_grows:
  assumes L: "map_limit L msize limit" and s: "msize e = s" "unat s + unat MAPSIZE_BASE_UNIT < 2 ^ 64"
  shows "holds (\<lambda>r e'. r = TXO_RESIZED \<longrightarrow> unat s < unat (msize e')) E F (IncreaseMapSize L) e"
proof -
  obtain err m e1 where info: "mdb_env_info L e = ((err, m), e1)" by (metis prod.exhaust)
  show ?thesis
  proof (cases "err = 0")
    case True
    then have m: "m = s" using L info s(1) by (auto simp: map_limit_def dest: spec [of _ e])
    obtain n where n: "unat n = unat m - unat m mod unat MAPSIZE_BASE_UNIT + unat MAPSIZE_BASE_UNIT"
      "IncreaseMapSize L e = (case mdb_env_set_mapsize L n e1 of
         (err, e'') \<Rightarrow> Val (if err \<noteq> 0 then err else TXO_RESIZED) e'')"
      using IncreaseMapSize_eq [of L e m e1] info s(2) True m by blast
    obtain err2 e2 where set: "mdb_env_set_mapsize L n e1 = (err2, e2)" by (metis prod.exhaust)
    have "err2 \<noteq> TXO_RESIZED \<and> (err2 = 0 \<longrightarrow> msize e2 = n)"
      using L set by (auto simp: map_limit_def) (metis fst_conv snd_conv)+
    then show ?thesis using map_grows [OF n(1)] m by (auto simp: holds_def n(2) set)
  next
    case False
    moreover have "err \<noteq> TXO_RESIZED" using L info by (auto simp: map_limit_def) (metis fst_conv)
    ultimately show ?thesis by (simp add: holds_def IncreaseMapSize_def bindA_def call_def ret_def info)
  qed
qed

abbreviation any :: "'x \<Rightarrow> bool" where
  "any \<equiv> \<lambda>_. True"

abbreviation never :: "'x \<Rightarrow> bool" where
  "never \<equiv> \<lambda>_. False"

fun progress :: "('e \<Rightarrow> u64) \<Rightarrow> nat \<Rightarrow> u64 \<Rightarrow> attempt option \<Rightarrow> 'e \<Rightarrow> bool" where
  "progress msize limit s None e = (msize e = s)"
| "progress msize limit s (Some Again) e = (unat s < limit \<and> unat s < unat (msize e))"
| "progress msize limit s (Some (Returned err)) e = True"
| "progress msize limit s (Some Committed) e = True"

definition grows :: "'e lmdb \<Rightarrow> ('e \<Rightarrow> u64) \<Rightarrow> nat \<Rightarrow> bool" where
  "grows L msize limit \<longleftrightarrow> map_limit L msize limit \<and> limit + unat MAPSIZE_BASE_UNIT < 2 ^ 64"

lemma grows_keeps:
  assumes "grows L msize limit"
  shows "keeps msize (mdb_txn_begin L)" "keeps msize (mdb_txn_commit L t)" "keeps msize (mdb_txn_abort L t)"
    "keeps msize (mdb_dbi_open L t nm fl)" "keeps msize (mdb_set_dupsort L t d cmp)"
    "keeps msize (mdb_cursor_open L t d)" "keeps msize (mdb_cursor_close L c)"
  using assms by (simp_all add: grows_def map_limit_def)

lemma holds_put:
  assumes "grows L msize limit" "msize e = s"
    and "\<And>err e'. msize e' = s \<Longrightarrow> (err = MDB_MAP_FULL L \<Longrightarrow> unat s < limit) \<Longrightarrow> P err e'"
  shows "holds P E F (call (mdb_put L t d k v fl)) e" "holds P E F (call (mdb_cursor_put L c k v fl)) e"
proof -
  have "keeps msize (mdb_put L t d k v fl)" "keeps msize (mdb_cursor_put L c k v fl)"
    and full: "fst (mdb_put L t d k v fl e) = MDB_MAP_FULL L \<Longrightarrow> unat s < limit"
      "fst (mdb_cursor_put L c k v fl e) = MDB_MAP_FULL L \<Longrightarrow> unat s < limit"
    using assms(1,2) by (auto simp: grows_def map_limit_def)
  then show "holds P E F (call (mdb_put L t d k v fl)) e" "holds P E F (call (mdb_cursor_put L c k v fl)) e"
    using assms(2) by (auto intro!: holds_call_keeps assms(3))
qed

lemma holds_used: "(\<And>v. x = Some v \<Longrightarrow> P v e) \<Longrightarrow> holds P any any (used x) e"
  by (rule holds_or_fault) simp_all

lemma map_full_progress:
  assumes "grows L msize limit" "msize e = s" "unat s < limit"
  shows "holds (progress msize limit s) any any (map_full L txn) e"
  unfolding map_full_def
proof (intro holds_rules holds_call_keeps [OF grows_keeps(3) [OF assms(1)]])
  fix x e' assume "msize e' = msize e"
  then have "msize e' = s" using assms(2) by simp
  then show "holds (\<lambda>x. holds (progress msize limit s) any any
      (if x \<noteq> TXO_RESIZED then ret (Some (Returned x)) else ret (Some Again))) any any (IncreaseMapSize L) e'"
    using assms(1,3)
    by (intro holds_weaken [OF IncreaseMapSize_grows [where msize = msize and limit = limit and s = s]])
      (auto simp: grows_def holds_ret)
qed

lemma and_then_progress:
  assumes "holds (progress msize limit s) any any m e"
    "\<And>e'. msize e' = s \<Longrightarrow> holds (progress msize limit s) any any k e'"
  shows "holds (progress msize limit s) any any (and_then m k) e"
  unfolding and_then_def
proof (rule holds_bind, rule holds_weaken [OF assms(1)])
  fix r e' assume "progress msize limit s r e'"
  with assms(2) [of e'] show "holds (progress msize limit s) any any (case r of None \<Rightarrow> k | Some x \<Rightarrow> ret (Some x)) e'"
    by (cases r) (auto intro: holds_ret)
qed

lemma write_output_progress:
  assumes "grows L msize limit" "msize e = s"
  shows "holds (progress msize limit s) any any (write_output L m txn dbi_addr curtx txHash txop ntxo) e"
  unfolding write_output_def Let_def
  by (intro holds_bind holds_put(1) [OF assms])
    (auto intro!: holds_ret holds_bind holds_used map_full_progress [OF assms(1)] holds_put(2) [OF assms(1)])

lemma write_outputs_progress:
  "grows L msize limit \<Longrightarrow> msize e = s \<Longrightarrow>
    holds (progress msize limit s) any any (write_outputs L m txn dbi_addr curtx txHash txop outs) e"
proof (induction outs arbitrary: txop e)
  case (Cons o outs)
  then show ?case by (auto intro!: and_then_progress write_output_progress)
qed (simp add: holds_ret)

lemma spend_inputs_ret: "spend_inputs txHash txip ins = ret None"
  by (induction ins arbitrary: txip)
    (simp_all add: InternalSpendTXO_def fun_eq_iff bindA_def ret_def TXO_OK_def TXO_RESIZED_def Let_def)

lemma write_txs_progress:
  "grows L msize limit \<Longrightarrow> msize e = s \<Longrightarrow>
    holds (progress msize limit s) any any (write_txs L m mode txn dbi dbi_addr txs) e"
proof (induction txs arbitrary: e)
  case (Cons tx txs)
  note keeps = grows_keeps [OF Cons.prems(1)]
  show ?case
    unfolding write_txs.simps Let_def
    by (intro holds_bind holds_call_keeps [OF keeps(6)])
      (use Cons in \<open>auto simp: spend_inputs_ret split: prod.splits intro!: holds_ret and_then_progress
        write_outputs_progress holds_bind holds_used holds_call_keeps [OF keeps(7)]\<close>)
qed (simp add: holds_ret)

lemma open_failed_progress:
  "holds (\<lambda>r. progress msize limit s (Some r)) any any (open_failed L err) e"
  if "grows L msize limit"
proof -
  have any: "holds (\<lambda>_ _. True) (\<lambda>_. False) (\<lambda>_. False) (IncreaseMapSize L) e" for e
    unfolding IncreaseMapSize_def
    by (auto simp: holds_def bindA_def call_def ret_def Let_def split: prod.splits)
  show ?thesis
    unfolding open_failed_def by (auto intro!: holds_rules holds_weaken [OF any])
qed

lemma block_tail_progress:
  assumes "grows L msize limit" "holds (progress msize limit s) any any start e"
  shows "holds (\<lambda>r. progress msize limit s (Some r)) any any
      (bindA (and_then start (write_txs L m mode txn dbi dbi_addr txs))
        (\<lambda>r. case r of Some stop \<Rightarrow> ret stop | None \<Rightarrow> bindA (call (mdb_txn_commit L txn)) (\<lambda>_. ret Committed))) e"
proof (rule holds_bind, rule holds_weaken [OF and_then_progress [OF assms(2) write_txs_progress [OF assms(1)]]])
  fix r e' assume "progress msize limit s r e'"
  then show "holds (\<lambda>r. progress msize limit s (Some r)) any any
    (case r of Some stop \<Rightarrow> ret stop | None \<Rightarrow> bindA (call (mdb_txn_commit L txn)) (\<lambda>_. ret Committed)) e'"
    by (cases r) (auto intro!: holds_ret holds_bind holds_call)
qed

lemma block_header_progress:
  assumes "grows L msize limit" "msize e = s"
  shows "holds (\<lambda>r. progress msize limit s (Some r)) any any
      (bindA (call (mdb_put L txn d k v fl)) (\<lambda>err.
        bindA
          (and_then
            (if err \<noteq> 0 then
               (if err = MDB_MAP_FULL L then map_full L txn else ret (Some (Returned err)))
             else ret None)
            (write_txs L m mode txn dbi dbi_addr txs))
          (\<lambda>r. case r of Some stop \<Rightarrow> ret stop
           | None \<Rightarrow> bindA (call (mdb_txn_commit L txn)) (\<lambda>_. ret Committed)))) e"
  by (intro holds_bind [of _ _ _ _ "call (mdb_put L txn d k v fl)"] holds_put(1) [OF assms] block_tail_progress [OF assms(1)])
    (auto intro!: map_full_progress [OF assms(1)] holds_ret)

lemma try_block_progress:
  assumes "grows L msize limit" "msize e = s"
  shows "holds (\<lambda>r. progress msize limit s (Some r)) any any (try_block L m mode blk) e"
proof -
  note keeps = grows_keeps [OF assms(1)]
  note step = holds_bind [OF holds_call_keeps]
  show ?thesis
    unfolding try_block_def Let_def
    by (auto intro!: step [OF keeps(1)] step [OF keeps(4)] step [OF keeps(5)] holds_ret
        open_failed_progress [OF assms(1)] block_header_progress [OF assms(1)] simp: assms(2))
qed

subsection \<open>What can go wrong besides\<close>

text \<open>Nothing throws, and the one fault is the use of a cursor that \<^verbatim>\<open>mdb_cursor_open\<close> did not set.\<close>

definition unset_cursor :: "'e lmdb \<Rightarrow> fault \<Rightarrow> bool" where
  "unset_cursor L f \<longleftrightarrow> f = Indeterminate_value \<and> (\<exists>t d e. fst (fst (mdb_cursor_open L t d e)) \<noteq> 0)"

definition sound :: "'e lmdb \<Rightarrow> ('x, 'e) action \<Rightarrow> bool" where
  "sound L act \<longleftrightarrow> (\<forall>e. holds (\<lambda>_. any) never (unset_cursor L) act e)"

definition cursor_ok :: "'e lmdb \<Rightarrow> nat option \<Rightarrow> bool" where
  "cursor_ok L cur \<longleftrightarrow> cur = None \<longrightarrow> unset_cursor L Indeterminate_value"

named_theorems sound_intros \<open>actions that neither throw nor fault, but for a cursor that was not set\<close>

lemma sound_bind [sound_intros]:
  assumes "sound L act" "\<And>x. sound L (f x)"
  shows "sound L (bindA act f)"
  unfolding sound_def
proof
  fix e
  show "holds (\<lambda>_. any) never (unset_cursor L) (bindA act f) e"
    using assms by (cases "act e") (auto simp: sound_def holds_def bindA_def split: outcome.splits dest: spec [of _ e])
qed

lemma sound_atoms [sound_intros]: "sound L (ret x)" "sound L (call f)" "cursor_ok L cur \<Longrightarrow> sound L (used cur)"
  by (cases cur; simp add: sound_def holds_def ret_def call_def or_fault_def cursor_ok_def split: prod.splits)+

lemma sound_cursor:
  assumes "\<And>err c. cursor_ok L (if err = 0 then Some c else None) \<Longrightarrow> sound L (f (err, c))"
  shows "sound L (bindA (call (mdb_cursor_open L t d)) f)"
  unfolding sound_def
proof
  fix e
  obtain err c e' where opened: "mdb_cursor_open L t d e = ((err, c), e')" by (metis prod.exhaust)
  have "unset_cursor L Indeterminate_value" if "err \<noteq> 0"
    using that opened unfolding unset_cursor_def by (metis fst_conv)
  then have "cursor_ok L (if err = 0 then Some c else None)" by (simp add: cursor_ok_def)
  from assms [OF this] show "holds (\<lambda>_. any) never (unset_cursor L) (bindA (call (mdb_cursor_open L t d)) f) e"
    by (simp add: sound_def holds_def bindA_def call_def opened)
qed

lemma sound_if [sound_intros]: "sound L a \<Longrightarrow> sound L b \<Longrightarrow> sound L (if c then a else b)"
  by simp

lemma sound_then [sound_intros]: "sound L a \<Longrightarrow> sound L k \<Longrightarrow> sound L (and_then a k)"
  by (auto simp: and_then_def intro!: sound_intros split: option.splits)

lemma sound_grow [sound_intros]: "sound L (IncreaseMapSize L)" "sound L (map_full L txn)" "sound L (open_failed L err)"
  by (auto simp: IncreaseMapSize_def map_full_def open_failed_def Let_def intro!: sound_intros split: prod.splits)

lemma sound_output [sound_intros]: "cursor_ok L cur \<Longrightarrow> sound L (write_output L m txn d cur h i out)"
  by (auto simp: write_output_def Let_def intro!: sound_intros)

lemma sound_outputs [sound_intros]: "cursor_ok L cur \<Longrightarrow> sound L (write_outputs L m txn d cur h i outs)"
  by (induction outs arbitrary: i) (auto intro!: sound_intros)

lemma sound_inputs [sound_intros]: "sound L (spend_inputs h i ins)"
  by (induction ins arbitrary: i) (auto simp: Let_def InternalSpendTXO_def intro!: sound_intros)

lemma sound_txs [sound_intros]: "sound L (write_txs L m mode txn d d' txs)"
proof (induction txs)
  case (Cons tx txs)
  show ?case
    unfolding write_txs.simps Let_def prod.case
    by (rule sound_cursor) (use Cons in \<open>auto intro!: sound_intros\<close>)
qed (simp add: sound_intros)

lemma sound_try_block: "sound L (try_block L m mode blk)"
  unfolding try_block_def Let_def by (auto intro!: sound_intros split: prod.splits option.splits)

lemma try_block_outcome:
  obtains (ended) a e' where "try_block L m mode blk e = Val a e'"
  | (unset) "try_block L m mode blk e = Fault Indeterminate_value" "unset_cursor L Indeterminate_value"
  using sound_try_block [of L m mode blk]
  by (cases "try_block L m mode blk e")
    (auto simp: sound_def holds_def unset_cursor_def split: outcome.splits dest!: spec [of _ e])

lemma store_block_terminates:
  assumes "grows L msize limit"
  shows "(\<exists>a e'. store_block L m mode blk e = Some (Val a e') \<and> a \<noteq> Again)
    \<or> store_block L m mode blk e = Some (Fault Indeterminate_value) \<and> unset_cursor L Indeterminate_value"
proof (induction "limit - unat (msize e)" arbitrary: e rule: less_induct)
  case less
  show ?case
  proof (cases rule: try_block_outcome [of L m mode blk e])
    case (ended a e')
    show ?thesis
    proof (cases a)
      case Again
      then have "unat (msize e) < limit \<and> unat (msize e) < unat (msize e')"
        using try_block_progress [OF assms refl, of e m mode blk] ended by (simp add: holds_def)
      then have "limit - unat (msize e') < limit - unat (msize e)" by linarith
      from less [OF this] show ?thesis using ended Again by (simp add: store_block.simps [of L m mode blk e])
    qed (use ended in \<open>simp_all add: store_block.simps [of L m mode blk e]\<close>)
  qed (simp add: store_block.simps [of L m mode blk e])
qed

subsection \<open>What a stored block adds\<close>

text \<open>
  The environment as a database: which of the named databases exist, whether they were created with
  \<^verbatim>\<open>MDB_DUPSORT\<close>, and the rows, each with the name of its database, its key and its value. A database that
  was not created with \<^verbatim>\<open>MDB_DUPSORT\<close> has one value for a key, and a put overwrites it.
\<close>

type_synonym row = "string \<times> byte list \<times> byte list"

record database =
  db_dup :: "string \<Rightarrow> bool option"
  db_rows :: "row set"

definition dup_sorted :: "database \<Rightarrow> string \<Rightarrow> bool" where
  "dup_sorted D nm \<longleftrightarrow> db_dup D nm = Some True"

text \<open>Opening with \<^verbatim>\<open>MDB_CREATE\<close> creates a missing database; the flags of an existing one stay.\<close>

definition open_db :: "string \<Rightarrow> bool \<Rightarrow> database \<Rightarrow> database" where
  "open_db nm dup D = (if db_dup D nm = None then D\<lparr>db_dup := (db_dup D)(nm \<mapsto> dup)\<rparr> else D)"

definition same_key :: "row \<Rightarrow> row \<Rightarrow> bool" where
  "same_key r r' \<longleftrightarrow> fst r = fst r' \<and> fst (snd r) = fst (snd r')"

definition put_row :: "row \<Rightarrow> database \<Rightarrow> database" where
  "put_row r D = D\<lparr>db_rows := insert r (if dup_sorted D (fst r) then db_rows D else {r' \<in> db_rows D. \<not> same_key r r'})\<rparr>"

text \<open>
  The rows of a block, written out: its 80-byte header under its hash, and for every output of every
  transaction the outpoint under the digest of the script, and number, value and a null outpoint under
  the hash of the transaction.
\<close>

definition null_outpoint :: "byte list" where
  "null_outpoint = replicate 32 0 @ replicate 4 0xff"

definition header_row :: "('s, 'r) mbedtls \<Rightarrow> CBlock \<Rightarrow> row" where
  "header_row m blk =
     (''blk'', blob_data (CBlockHeader_GetHash m blk), bytes_written (CBlockHeader_Serialize (CBlock_GetBlockHeader blk)))"

definition addr_row :: "('s, 'r) mbedtls \<Rightarrow> byte list \<Rightarrow> u32 \<Rightarrow> CTxOut \<Rightarrow> row" where
  "addr_row m txid i out = (''addr'', blob_data (SHash m (scriptPubKey out)), txid @ le_bytes 4 i)"

definition txo_row :: "byte list \<Rightarrow> u32 \<Rightarrow> CTxOut \<Rightarrow> row" where
  "txo_row txid i out = (''txo'', txid, le_bytes 4 i @ le_bytes 8 (nValue out) @ null_outpoint)"

text \<open>An outpoint that its script already has is skipped, with its output.\<close>

definition add_output :: "('s, 'r) mbedtls \<Rightarrow> byte list \<Rightarrow> u32 \<Rightarrow> CTxOut \<Rightarrow> database \<Rightarrow> database" where
  "add_output m txid i out D =
     (if dup_sorted D ''addr'' \<and> addr_row m txid i out \<in> db_rows D then D
      else put_row (txo_row txid i out) (put_row (addr_row m txid i out) D))"

fun add_outputs :: "('s, 'r) mbedtls \<Rightarrow> byte list \<Rightarrow> u32 \<Rightarrow> CTxOut list \<Rightarrow> database \<Rightarrow> database" where
  "add_outputs m txid i [] D = D"
| "add_outputs m txid i (out # outs) D = add_outputs m txid (i + 1) outs (add_output m txid i out D)"

fun add_txs :: "('s, 'r) mbedtls \<Rightarrow> CTransaction list \<Rightarrow> database \<Rightarrow> database" where
  "add_txs m [] D = D"
| "add_txs m (tx # txs) D = add_txs m txs (add_outputs m (blob_data (tx_hash tx)) 0 (vout tx) D)"

text \<open>The first pass adds the block, the second pass only its header.\<close>

definition open_dbs :: "database \<Rightarrow> database" where
  "open_dbs D = open_db ''blk'' False (open_db ''addr'' True (open_db ''txo'' True D))"

definition add_block :: "('s, 'r) mbedtls \<Rightarrow> int \<Rightarrow> CBlock \<Rightarrow> database \<Rightarrow> database" where
  "add_block m mode blk D =
     (if mode = 1 then id else add_txs m (vtx blk)) (put_row (header_row m blk) (open_dbs D))"

subsection \<open>What LMDB promises\<close>

text \<open>
  LMDB's documentation, as laws over views of the environment's state: what is committed, what the open
  write transaction has made of it, and which databases the handles and cursors are of. Any call may fail.
  Two counters of the past let a theorem say that no call failed: \<open>refused\<close> grows with every call that
  returns an error, \<^verbatim>\<open>MDB_MAP_FULL\<close> of a put and \<^verbatim>\<open>MDB_KEYEXIST\<close> of a put with \<^verbatim>\<open>MDB_NODUPDATA\<close> apart, and \<open>lost\<close>
  with every commit that fails. The flag \<^verbatim>\<open>MDB_NODUPDATA\<close>, documented for databases with \<^verbatim>\<open>MDB_DUPSORT\<close> only,
  has no effect on others: the code relies on it for the headers.
\<close>

record 'e lmdb_view =
  committed :: "'e \<Rightarrow> database"
  pending :: "'e \<Rightarrow> database"
  handle :: "'e \<Rightarrow> nat \<Rightarrow> string option"
  cursor :: "'e \<Rightarrow> nat \<Rightarrow> string option"
  refused :: "'e \<Rightarrow> nat"
  lost :: "'e \<Rightarrow> nat"

definition undisturbed :: "'e lmdb_view \<Rightarrow> 'e \<Rightarrow> 'e \<Rightarrow> bool" where
  "undisturbed V e e' \<longleftrightarrow> committed V e' = committed V e \<and> lost V e' = lost V e \<and> refused V e \<le> refused V e'"

definition counts :: "'e lmdb_view \<Rightarrow> int \<Rightarrow> 'e \<Rightarrow> 'e \<Rightarrow> bool" where
  "counts V err e e' \<longleftrightarrow> undisturbed V e e' \<and> (err \<noteq> 0 \<longrightarrow> refused V e < refused V e')"

definition same_txn :: "'e lmdb_view \<Rightarrow> 'e \<Rightarrow> 'e \<Rightarrow> bool" where
  "same_txn V e e' \<longleftrightarrow> pending V e' = pending V e \<and> handle V e' = handle V e \<and> cursor V e' = cursor V e"

definition put_done :: "'e lmdb_view \<Rightarrow> row \<Rightarrow> 'e \<Rightarrow> 'e \<Rightarrow> bool" where
  "put_done V r e e' \<longleftrightarrow> pending V e' = put_row r (pending V e) \<and> handle V e' = handle V e \<and> cursor V e' = cursor V e"

definition always :: "('e \<Rightarrow> 'a \<times> 'e) \<Rightarrow> ('a \<Rightarrow> 'e \<Rightarrow> 'e \<Rightarrow> bool) \<Rightarrow> bool" where
  "always f Q \<longleftrightarrow> (\<forall>e. Q (fst (f e)) e (snd (f e)))"

definition begin_law :: "'e lmdb_view \<Rightarrow> int \<times> nat \<Rightarrow> 'e \<Rightarrow> 'e \<Rightarrow> bool" where
  "begin_law V x e e' \<longleftrightarrow> counts V (fst x) e e' \<and> (fst x = 0 \<longrightarrow> pending V e' = committed V e)"

definition open_law :: "'e lmdb_view \<Rightarrow> string \<Rightarrow> mdb_flag list \<Rightarrow> int \<times> nat \<Rightarrow> 'e \<Rightarrow> 'e \<Rightarrow> bool" where
  "open_law V nm fl x e e' \<longleftrightarrow> counts V (fst x) e e' \<and>
     (fst x = 0 \<longrightarrow> MDB_CREATE \<in> set fl \<longrightarrow>
        pending V e' = open_db nm (MDB_DUPSORT \<in> set fl) (pending V e)
        \<and> handle V e (snd x) \<in> {None, Some nm} \<and> handle V e' = (handle V e)(snd x \<mapsto> nm))"

definition put_law :: "'e lmdb \<Rightarrow> 'e lmdb_view \<Rightarrow> nat \<Rightarrow> byte list \<Rightarrow> byte list \<Rightarrow> mdb_flag list \<Rightarrow> int \<Rightarrow> 'e \<Rightarrow> 'e \<Rightarrow> bool" where
  "put_law L V d k v fl err e e' \<longleftrightarrow> (\<forall>nm. handle V e d = Some nm \<longrightarrow>
     undisturbed V e e' \<and>
     (let there = dup_sorted (pending V e) nm \<and> (nm, k, v) \<in> db_rows (pending V e) in
      (err = 0 \<longrightarrow> put_done V (nm, k, v) e e' \<and> (MDB_NODUPDATA \<in> set fl \<longrightarrow> \<not> there)) \<and>
      (err = MDB_KEYEXIST L \<longrightarrow> MDB_NODUPDATA \<in> set fl \<longrightarrow> there \<and> same_txn V e e')) \<and>
     (err \<noteq> 0 \<longrightarrow> err \<noteq> MDB_MAP_FULL L \<longrightarrow> err \<noteq> MDB_KEYEXIST L \<longrightarrow> refused V e < refused V e'))"

definition cursor_open_law :: "'e lmdb_view \<Rightarrow> nat \<Rightarrow> int \<times> nat \<Rightarrow> 'e \<Rightarrow> 'e \<Rightarrow> bool" where
  "cursor_open_law V d x e e' \<longleftrightarrow> counts V (fst x) e e' \<and> handle V e' = handle V e \<and>
     (fst x = 0 \<longrightarrow> pending V e' = pending V e \<and> cursor V e' (snd x) = handle V e d)"

definition cursor_put_law :: "'e lmdb \<Rightarrow> 'e lmdb_view \<Rightarrow> nat \<Rightarrow> byte list \<Rightarrow> byte list \<Rightarrow> int \<Rightarrow> 'e \<Rightarrow> 'e \<Rightarrow> bool" where
  "cursor_put_law L V c k v err e e' \<longleftrightarrow> (\<forall>nm. cursor V e c = Some nm \<longrightarrow>
     undisturbed V e e' \<and> (err = 0 \<longrightarrow> put_done V (nm, k, v) e e') \<and>
     (err \<noteq> 0 \<longrightarrow> err \<noteq> MDB_MAP_FULL L \<longrightarrow> refused V e < refused V e'))"

definition close_law :: "'e lmdb_view \<Rightarrow> unit \<Rightarrow> 'e \<Rightarrow> 'e \<Rightarrow> bool" where
  "close_law V x e e' \<longleftrightarrow> undisturbed V e e' \<and> pending V e' = pending V e \<and> handle V e' = handle V e"

definition commit_law :: "'e lmdb_view \<Rightarrow> int \<Rightarrow> 'e \<Rightarrow> 'e \<Rightarrow> bool" where
  "commit_law V err e e' \<longleftrightarrow>
     (if err = 0 then committed V e' = pending V e \<and> lost V e' = lost V e \<and> refused V e \<le> refused V e'
      else committed V e' = committed V e \<and> lost V e < lost V e' \<and> refused V e < refused V e')"

definition lmdb_laws :: "'e lmdb \<Rightarrow> 'e lmdb_view \<Rightarrow> bool" where
  "lmdb_laws L V \<longleftrightarrow>
     always (mdb_txn_begin L) (begin_law V) \<and>
     (\<forall>t fl. \<forall>nm \<in> {DBI_TXO, DBI_ADDR, DBI_BLK}. always (mdb_dbi_open L t nm fl) (open_law V nm fl)) \<and>
     (\<forall>t d c. always (mdb_set_dupsort L t d c) (\<lambda>err e e'. counts V err e e' \<and> (err = 0 \<longrightarrow> same_txn V e e'))) \<and>
     (\<forall>t d k v fl. always (mdb_put L t d k v fl) (put_law L V d k v fl)) \<and>
     (\<forall>t d. always (mdb_cursor_open L t d) (cursor_open_law V d)) \<and>
     (\<forall>c k v. always (mdb_cursor_put L c k v [MDB_APPENDDUP]) (cursor_put_law L V c k v)) \<and>
     (\<forall>c. always (mdb_cursor_close L c) (close_law V)) \<and>
     (\<forall>t. always (mdb_txn_commit L t) (commit_law V)) \<and>
     (\<forall>t d. always (mdb_stat L t d) (\<lambda>x e e'. counts V (fst x) e e' \<and> (fst x = 0 \<longrightarrow> same_txn V e e'))) \<and>
     (\<forall>t. always (mdb_txn_abort L t) (\<lambda>_. undisturbed V)) \<and>
     always (mdb_env_info L) (\<lambda>x. counts V (fst x)) \<and> (\<forall>n. always (mdb_env_set_mapsize L n) (counts V)) \<and>
     (\<forall>force. always (mdb_env_sync L force) (\<lambda>_. undisturbed V)) \<and>
     (\<forall>fl on. always (mdb_env_set_flags L fl on) (\<lambda>_. undisturbed V))"

lemma holds_always:
  "always f Q \<Longrightarrow> (\<And>x e'. Q x e e' \<Longrightarrow> P x e') \<Longrightarrow> holds P E F (call f) e"
  by (auto simp: always_def holds_def call_def split: prod.splits) (metis fst_conv snd_conv)

lemma lmdb_calls:
  assumes "lmdb_laws L V"
  shows "always (mdb_txn_begin L) (begin_law V)"
    "nm \<in> {DBI_TXO, DBI_ADDR, DBI_BLK} \<Longrightarrow> always (mdb_dbi_open L t nm fl) (open_law V nm fl)"
    "always (mdb_set_dupsort L t d cmp) (\<lambda>err e e'. counts V err e e' \<and> (err = 0 \<longrightarrow> same_txn V e e'))"
    "always (mdb_put L t d k v fl) (put_law L V d k v fl)"
    "always (mdb_cursor_open L t d) (cursor_open_law V d)"
    "always (mdb_cursor_put L c k v [MDB_APPENDDUP]) (cursor_put_law L V c k v)"
    "always (mdb_cursor_close L c) (close_law V)"
    "always (mdb_txn_commit L t) (commit_law V)"
    "always (mdb_txn_abort L t) (\<lambda>_. undisturbed V)"
    "always (mdb_env_info L) (\<lambda>x. counts V (fst x))"
    "always (mdb_env_set_mapsize L n) (counts V)"
    "always (mdb_env_sync L force) (\<lambda>_. undisturbed V)"
    "always (mdb_env_set_flags L flag on) (\<lambda>_. undisturbed V)"
    "always (mdb_stat L t d) (\<lambda>x e e'. counts V (fst x) e e' \<and> (fst x = 0 \<longrightarrow> same_txn V e e'))"
  using assms by (auto simp: lmdb_laws_def)

lemma undisturbed_trans: "undisturbed V e e' \<Longrightarrow> undisturbed V e' e'' \<Longrightarrow> undisturbed V e e''"
  by (simp add: undisturbed_def)

lemma undisturbed_refl [simp]: "undisturbed V e e"
  by (simp add: undisturbed_def)

lemma always_snd: "always f (\<lambda>_. undisturbed V) \<Longrightarrow> undisturbed V e (snd (f e))"
  by (simp add: always_def)

subsection \<open>Storing a block adds it\<close>

text \<open>
  An attempt that began in \<open>e0\<close>, between two of its calls: nothing is committed yet and the transaction
  holds \<open>D\<close>. It may stop, to be tried again or for an error, and then a call has failed.
\<close>

definition stopped :: "'e lmdb_view \<Rightarrow> 'e \<Rightarrow> attempt \<Rightarrow> 'e \<Rightarrow> bool" where
  "stopped V e0 a e \<longleftrightarrow> undisturbed V e0 e \<and> a \<noteq> Committed \<and> (a \<noteq> Again \<longrightarrow> refused V e0 < refused V e)"

definition writing :: "'e lmdb_view \<Rightarrow> 'e \<Rightarrow> (nat \<Rightarrow> string option) \<Rightarrow> database \<Rightarrow> attempt option \<Rightarrow> 'e \<Rightarrow> bool" where
  "writing V e0 H D r e \<longleftrightarrow>
     (case r of
        None \<Rightarrow> undisturbed V e0 e \<and> pending V e = D \<and> handle V e = H
      | Some a \<Rightarrow> stopped V e0 a e)"

definition on_cursor :: "'e lmdb_view \<Rightarrow> nat \<Rightarrow> ('r option \<Rightarrow> 'e \<Rightarrow> bool) \<Rightarrow> 'r option \<Rightarrow> 'e \<Rightarrow> bool" where
  "on_cursor V c P r e \<longleftrightarrow> P r e \<and> (r = None \<longrightarrow> cursor V e c = Some DBI_TXO)"

lemma holds_and_then:
  assumes "holds Q E F a e" "\<And>x e'. Q (Some x) e' \<Longrightarrow> P (Some x) e'" "\<And>e'. Q None e' \<Longrightarrow> holds P E F k e'"
  shows "holds P E F (and_then a k) e"
  unfolding and_then_def
proof (rule holds_bind, rule holds_weaken [OF assms(1)])
  fix r e' assume "Q r e'"
  then show "holds P E F (case r of None \<Rightarrow> k | Some x \<Rightarrow> ret (Some x)) e'"
    using assms(2,3) by (cases r) (simp_all add: holds_ret)
qed simp_all

lemma IncreaseMapSize_counts:
  assumes "lmdb_laws L V" "undisturbed V e0 e"
  shows "holds (\<lambda>r e'. undisturbed V e0 e' \<and> (r \<noteq> TXO_RESIZED \<longrightarrow> refused V e0 < refused V e')) any any (IncreaseMapSize L) e"
  unfolding IncreaseMapSize_def
  by (rule holds_bind, rule holds_always [OF lmdb_calls(10) [OF assms(1)]])
    (use assms(2) in \<open>auto simp: Let_def counts_def undisturbed_def split: prod.splits
      intro!: holds_ret holds_bind holds_always [OF lmdb_calls(11) [OF assms(1)]]\<close>)

lemma map_full_stops:
  assumes "lmdb_laws L V" "undisturbed V e0 e"
  shows "holds (\<lambda>r e'. \<exists>a. r = Some a \<and> stopped V e0 a e') any any (map_full L txn) e"
  unfolding map_full_def
proof (rule holds_bind, rule holds_always [OF lmdb_calls(9) [OF assms(1)]])
  fix e1 assume "undisturbed V e e1"
  with assms(2) have "undisturbed V e0 e1" by (rule undisturbed_trans)
  then show "holds (\<lambda>r e'. \<exists>a. r = Some a \<and> stopped V e0 a e') any any
      (bindA (IncreaseMapSize L) (\<lambda>err. if err \<noteq> TXO_RESIZED then ret (Some (Returned err)) else ret (Some Again))) e1"
    by (intro holds_bind holds_weaken [OF IncreaseMapSize_counts [OF assms(1)]])
      (auto simp: stopped_def intro!: holds_ret)
qed

lemma put_counts:
  assumes "put_law L V d k v fl err e e'" "handle V e d = Some nm" "undisturbed V e0 e"
  shows "undisturbed V e0 e'" "err = 0 \<Longrightarrow> put_done V (nm, k, v) e e'"
    "err = 0 \<Longrightarrow> MDB_NODUPDATA \<in> set fl \<Longrightarrow> \<not> (dup_sorted (pending V e) nm \<and> (nm, k, v) \<in> db_rows (pending V e))"
    "err = MDB_KEYEXIST L \<Longrightarrow> MDB_NODUPDATA \<in> set fl \<Longrightarrow>
       dup_sorted (pending V e) nm \<and> (nm, k, v) \<in> db_rows (pending V e) \<and> same_txn V e e'"
    "err \<noteq> 0 \<Longrightarrow> err \<noteq> MDB_MAP_FULL L \<Longrightarrow> err \<noteq> MDB_KEYEXIST L \<Longrightarrow> refused V e0 < refused V e'"
  using assms by (auto simp: put_law_def Let_def undisturbed_def)

lemma ds_val_written:
  "ds_val (CDataStream_shl (CDataStream_Init [] a b) ws) = bytes_written ws"
  "ds_val (CDataStream_shl (CDataStream_clear ds) ws) = bytes_written ws"
  by (simp_all add: ds_val_def CDataStream_shl_eq CDataStream_write_def CDataStream_Init_def CDataStream_clear_def
      CDataStream_begin_def)

lemma le_bytes_null_index: "le_bytes 4 (NULL_INDEX :: u32) = replicate 4 0xff"
  unfolding NULL_INDEX_def by code_simp

lemma txo_n_new: "txo_n (TXO_new sh h i v b) = i"
  by (simp add: TXO_new_def)

lemma output_bytes:
  "bytes_written (COutPoint_Serialize \<lparr>op_hash = h, op_n = i\<rparr>) = blob_data h @ le_bytes 4 i"
  "bytes_written (TXO_Serialize (TXO_new sh h i v 0)) = le_bytes 4 i @ le_bytes 8 v @ null_outpoint"
  by (simp_all add: COutPoint_Serialize_def TXO_Serialize_def TXO_new_def COutPoint_new_def le_bytes_null_index
      null_outpoint_def base_blob_Serialize_def base_blob_new_def write_simps)

text \<open>One output: its outpoint, and unless the script has it, the output.\<close>

lemma cursor_put_writes:
  assumes L: "lmdb_laws L V" and e: "undisturbed V e0 e" "handle V e = H" "cursor V e c = Some DBI_TXO"
  shows "holds (on_cursor V c (writing V e0 H (put_row (DBI_TXO, k, v) (pending V e)))) any any
    (bindA (call (mdb_cursor_put L c k v [MDB_APPENDDUP])) (\<lambda>err.
       if err \<noteq> 0 then (if err = MDB_MAP_FULL L then map_full L txn else ret (Some (Returned err))) else ret None)) e"
proof (rule holds_bind, rule holds_always [OF lmdb_calls(6) [OF L]])
  fix err e' assume "cursor_put_law L V c k v err e e'"
  then have e': "undisturbed V e e'" "err = 0 \<Longrightarrow> put_done V (DBI_TXO, k, v) e e'"
    "err \<noteq> 0 \<Longrightarrow> err \<noteq> MDB_MAP_FULL L \<Longrightarrow> refused V e < refused V e'"
    using e(3) by (auto simp: cursor_put_law_def)
  have "undisturbed V e0 e'" by (rule undisturbed_trans [OF e(1) e'(1)])
  with e e' show "holds (on_cursor V c (writing V e0 H (put_row (DBI_TXO, k, v) (pending V e)))) any any
     (if err \<noteq> 0 then (if err = MDB_MAP_FULL L then map_full L txn else ret (Some (Returned err))) else ret None) e'"
    by (auto simp: on_cursor_def writing_def put_done_def stopped_def undisturbed_def
        intro!: holds_ret holds_weaken [OF map_full_stops [OF L, of e0]])
qed

lemma write_output_adds:
  assumes L: "lmdb_laws L V" and e: "on_cursor V c (writing V e0 H D) None e" and H: "H d = Some DBI_ADDR"
  shows "holds (on_cursor V c (writing V e0 H (add_output m (blob_data h) i out D))) any any
    (write_output L m txn d (Some c) h i out) e"
proof -
  let ?k = "blob_data (SHash m (scriptPubKey out))" and ?op = "blob_data h @ le_bytes 4 i"
    and ?v = "le_bytes 4 i @ le_bytes 8 (nValue out) @ null_outpoint"
  let ?P = "on_cursor V c (writing V e0 H (add_output m (blob_data h) i out D))"
  have at: "undisturbed V e0 e" "pending V e = D" "handle V e = H" "cursor V e c = Some DBI_TXO"
    using e by (simp_all add: on_cursor_def writing_def)
  have hd: "handle V e d = Some DBI_ADDR" using at(3) H by simp
  have rows: "addr_row m (blob_data h) i out = (DBI_ADDR, ?k, ?op)" "txo_row (blob_data h) i out = (DBI_TXO, blob_data h, ?v)"
    by (simp_all add: addr_row_def txo_row_def DBI_ADDR_def DBI_TXO_def)
  have "holds ?P any any
      (if err \<noteq> 0 then
         (if err = MDB_MAP_FULL L then map_full L txn
          else if err = MDB_KEYEXIST L then ret None
          else ret (Some (Returned err)))
       else
         bindA (used (Some c)) (\<lambda>curtx.
            bindA (call (mdb_cursor_put L curtx (blob_data h) ?v [MDB_APPENDDUP])) (\<lambda>err.
            if err \<noteq> 0 then
              (if err = MDB_MAP_FULL L then map_full L txn else ret (Some (Returned err)))
            else ret None))) e'"
    if law: "put_law L V d ?k ?op [MDB_NODUPDATA] err e e'" for err e'
  proof -
    note put = put_counts [OF law hd at(1)]
    consider (stored) "err = 0" | (full) "err \<noteq> 0" "err = MDB_MAP_FULL L"
      | (exists) "err \<noteq> 0" "err \<noteq> MDB_MAP_FULL L" "err = MDB_KEYEXIST L"
      | (failed) "err \<noteq> 0" "err \<noteq> MDB_MAP_FULL L" "err \<noteq> MDB_KEYEXIST L" by blast
    then show ?thesis
    proof cases
      case stored
      have new: "add_output m (blob_data h) i out D = put_row (DBI_TXO, blob_data h, ?v) (pending V e')"
        using put(2,3) [OF stored] at(2) by (auto simp: add_output_def rows put_done_def DBI_ADDR_def)
      have "handle V e' = H" "cursor V e' c = Some DBI_TXO" using put(2) [OF stored] at by (simp_all add: put_done_def)
      from cursor_put_writes [OF L put(1) this] show ?thesis by (simp add: stored new action_steps)
    next
      case full
      have "holds ?P any any (map_full L txn) e'"
        by (rule holds_weaken [OF map_full_stops [OF L put(1)]]) (auto simp: on_cursor_def writing_def)
      then show ?thesis using full by simp
    next
      case exists
      have "dup_sorted D DBI_ADDR \<and> (DBI_ADDR, ?k, ?op) \<in> db_rows D \<and> same_txn V e e'"
        using put(4) [OF exists(3)] at(2) by simp
      then have "?P None e'" using put(1) at
        by (auto simp: on_cursor_def writing_def same_txn_def add_output_def rows DBI_ADDR_def)
      then show ?thesis using exists by (simp add: holds_ret)
    next
      case failed
      then have "?P (Some (Returned err)) e'" using put(1,5) by (simp add: on_cursor_def writing_def stopped_def)
      then show ?thesis using failed by (simp add: holds_ret)
    qed
  qed
  then show ?thesis
    unfolding write_output_def Let_def ds_val_written output_bytes txo_n_new
    by (intro holds_bind [where m = "call f" for f] holds_always [OF lmdb_calls(4) [OF L]]) blast
qed

lemma write_outputs_adds:
  "lmdb_laws L V \<Longrightarrow> on_cursor V c (writing V e0 H D) None e \<Longrightarrow> H d = Some DBI_ADDR \<Longrightarrow>
    holds (on_cursor V c (writing V e0 H (add_outputs m (blob_data h) i outs D))) any any
      (write_outputs L m txn d (Some c) h i outs) e"
proof (induction outs arbitrary: i e D)
  case (Cons out outs)
  show ?case
    unfolding write_outputs.simps add_outputs.simps
    by (rule holds_and_then [OF write_output_adds [OF Cons.prems]])
      (simp add: on_cursor_def writing_def, rule Cons.IH [OF Cons.prems(1) _ Cons.prems(3)])
qed (simp add: holds_ret)

text \<open>Without a cursor an attempt can still stop before the cursor is used.\<close>

definition loose :: "'e lmdb_view \<Rightarrow> 'e \<Rightarrow> (nat \<Rightarrow> string option) \<Rightarrow> attempt option \<Rightarrow> 'e \<Rightarrow> bool" where
  "loose V e0 H r e \<longleftrightarrow>
     (case r of None \<Rightarrow> undisturbed V e0 e \<and> handle V e = H | Some a \<Rightarrow> stopped V e0 a e)"

lemma write_output_loose:
  assumes L: "lmdb_laws L V" and e: "loose V e0 H None e" and H: "H d = Some DBI_ADDR"
  shows "holds (loose V e0 H) any any (write_output L m txn d None h i out) e"
proof -
  have at: "undisturbed V e0 e" "handle V e d = Some DBI_ADDR" "handle V e = H" using e H by (simp_all add: loose_def)
  have "holds (loose V e0 H) any any
      (if err \<noteq> 0 then
         (if err = MDB_MAP_FULL L then map_full L txn
          else if err = MDB_KEYEXIST L then ret None
          else ret (Some (Returned err)))
       else bindA (used None) k) e'"
    if law: "put_law L V d key v [MDB_NODUPDATA] err e e'" for err e' k key v
  proof -
    note put = put_counts [OF law at(2,1)]
    have full: "holds (loose V e0 H) any any (map_full L txn) e'"
      by (rule holds_weaken [OF map_full_stops [OF L put(1)]]) (auto simp: loose_def)
    have unset: "holds (loose V e0 H) any any (bindA (used None) k) e'" by (simp add: holds_def bindA_def or_fault_def)
    consider (stored) "err = 0" | (full) "err \<noteq> 0" "err = MDB_MAP_FULL L"
      | (exists) "err \<noteq> 0" "err \<noteq> MDB_MAP_FULL L" "err = MDB_KEYEXIST L"
      | (failed) "err \<noteq> 0" "err \<noteq> MDB_MAP_FULL L" "err \<noteq> MDB_KEYEXIST L" by blast
    then show ?thesis
    proof cases
      case exists
      then have "loose V e0 H None e'" using put(1,4) at(3) by (simp add: loose_def same_txn_def)
      then show ?thesis using exists by (simp add: holds_ret)
    next
      case failed
      then have "loose V e0 H (Some (Returned err)) e'" using put(1,5) by (simp add: loose_def stopped_def)
      then show ?thesis using failed by (simp add: holds_ret)
    qed (simp_all add: full unset)
  qed
  then show ?thesis
    unfolding write_output_def Let_def
    by (intro holds_bind [where m = "call f" for f] holds_always [OF lmdb_calls(4) [OF L]]) blast
qed

lemma write_outputs_loose:
  "lmdb_laws L V \<Longrightarrow> loose V e0 H None e \<Longrightarrow> H d = Some DBI_ADDR \<Longrightarrow>
    holds (loose V e0 H) any any (write_outputs L m txn d None h i outs) e"
proof (induction outs arbitrary: i e)
  case (Cons out outs)
  show ?case
    unfolding write_outputs.simps
    by (rule holds_and_then [OF write_output_loose [OF Cons.prems]])
      (simp, rule Cons.IH [OF Cons.prems(1) _ Cons.prems(3)])
qed (simp add: holds_ret)

lemma write_txs_adds:
  assumes L: "lmdb_laws L V" and H: "H dbi = Some DBI_TXO" "H d = Some DBI_ADDR"
  shows "writing V e0 H D None e \<Longrightarrow>
    holds (writing V e0 H ((if mode = 1 then id else add_txs m txs) D)) any any (write_txs L m mode txn dbi d txs) e"
proof (induction txs arbitrary: e D)
  case (Cons tx txs)
  let ?D' = "if mode = 1 then D else add_outputs m (blob_data (tx_hash tx)) 0 (vout tx) D"
  let ?P = "writing V e0 H ((if mode = 1 then id else add_txs m (tx # txs)) D)"
  let ?close = "\<lambda>cur. bindA (used cur) (\<lambda>curtx.
      bindA (call (mdb_cursor_close L curtx)) (\<lambda>_. write_txs L m mode txn dbi d txs))"
  have close: "holds ?P any any (?close (Some c)) e'" if e': "writing V e0 H ?D' None e'" for c e'
  proof -
    have "holds ?P any any (write_txs L m mode txn dbi d txs) e''" if "close_law V () e' e''" for e''
    proof -
      have "writing V e0 H ?D' None e''"
        using e' that by (auto simp: writing_def close_law_def undisturbed_def)
      from Cons.IH [OF this] show ?thesis by (cases "mode = 1") simp_all
    qed
    then show ?thesis
      by (simp only: action_steps) (intro holds_bind holds_always [OF lmdb_calls(7) [OF L]], simp)
  qed
  let ?first = "\<lambda>cur. if mode = 1 then spend_inputs (tx_hash tx) 0 (vin tx)
      else write_outputs L m txn d cur (tx_hash tx) 0 (vout tx)"
  have set: "holds ?P any any (and_then (?first (Some c)) (?close (Some c))) e'"
    if e': "on_cursor V c (writing V e0 H D) None e'" for c e'
  proof (rule holds_and_then [where Q = "on_cursor V c (writing V e0 H ?D')"])
    show "holds (on_cursor V c (writing V e0 H ?D')) any any (?first (Some c)) e'"
      using e' write_outputs_adds [OF L e' H(2), of m] by (simp add: spend_inputs_ret holds_ret)
    show "holds ?P any any (?close (Some c)) e'" if "on_cursor V c (writing V e0 H ?D') None e'" for e'
      by (rule close) (use that in \<open>simp add: on_cursor_def\<close>)
  qed (simp add: on_cursor_def writing_def)
  have unset: "holds ?P any any (and_then (?first None) (?close None)) e'" if e': "loose V e0 H None e'" for e'
  proof (rule holds_and_then [where Q = "loose V e0 H"])
    show "holds (loose V e0 H) any any (?first None) e'"
      using e' write_outputs_loose [OF L e' H(2), of m] by (simp add: spend_inputs_ret holds_ret)
  qed (simp_all add: loose_def writing_def holds_def bindA_def or_fault_def)
  show ?case
    unfolding write_txs.simps Let_def
  proof (rule holds_bind, rule holds_always [OF lmdb_calls(5) [OF L]])
    fix x e' assume law: "cursor_open_law V dbi x e e'"
    obtain err c where x: "x = (err, c)" by fastforce
    have here: "undisturbed V e0 e'" "handle V e' = H"
      using law Cons.prems by (auto simp: cursor_open_law_def counts_def writing_def undisturbed_def)
    show "holds ?P any any
       (case x of (err, cur) \<Rightarrow>
          and_then (?first (if err = 0 then Some cur else None)) (?close (if err = 0 then Some cur else None))) e'"
    proof (cases "err = 0")
      case True
      then have "pending V e' = D \<and> cursor V e' c = Some DBI_TXO"
        using law Cons.prems H(1) by (simp add: cursor_open_law_def writing_def x)
      with here have "on_cursor V c (writing V e0 H D) None e'" by (simp add: on_cursor_def writing_def)
      from set [OF this] show ?thesis by (simp only: x prod.case True if_True simp_thms)
    next
      case False
      have "loose V e0 H None e'" using here by (simp add: loose_def)
      from unset [OF this] show ?thesis by (simp only: x prod.case False if_False)
    qed
  qed
qed (simp add: holds_ret)

text \<open>What an attempt, or the loop of attempts, has done to the committed rows when it ends.\<close>

definition attempt_effect :: "'e lmdb_view \<Rightarrow> ('s, 'r) mbedtls \<Rightarrow> int \<Rightarrow> CBlock \<Rightarrow> 'e \<Rightarrow> attempt \<Rightarrow> 'e \<Rightarrow> bool" where
  "attempt_effect V m mode blk e a e' \<longleftrightarrow>
     (if a = Committed then
        refused V e \<le> refused V e' \<and>
        (lost V e' = lost V e \<and> committed V e' = add_block m mode blk (committed V e)
         \<or> lost V e < lost V e' \<and> refused V e < refused V e' \<and> committed V e' = committed V e)
      else stopped V e a e')"

lemma open_failed_stops:
  assumes "lmdb_laws L V" "undisturbed V e0 e" "refused V e0 < refused V e"
  shows "holds (attempt_effect V m mode blk e0) any any (open_failed L err) e"
proof -
  have "holds (\<lambda>r e'. undisturbed V e e') any any (IncreaseMapSize L) e"
    by (rule holds_weaken [OF IncreaseMapSize_counts [OF assms(1) undisturbed_refl]]) simp_all
  with assms(2,3) show ?thesis
    unfolding open_failed_def
    by (auto simp: attempt_effect_def stopped_def undisturbed_def intro!: holds_ret holds_bind elim!: holds_weaken)
qed

lemma open_db_other: "nm' \<noteq> nm \<Longrightarrow> dup_sorted (open_db nm' dup D) nm = dup_sorted D nm"
  by (simp add: open_db_def dup_sorted_def)

lemma blk_not_dup_sorted:
  "\<not> dup_sorted D ''blk'' \<Longrightarrow> \<not> dup_sorted (open_dbs D) ''blk''"
  unfolding open_dbs_def by (simp add: open_db_def dup_sorted_def)

text \<open>The three databases are open.\<close>

lemma open_three:
  assumes "undisturbed V e0 e" "pending V e = committed V e0"
    and "open_law V DBI_TXO [MDB_CREATE, MDB_DUPSORT] (0, d1) e e1"
    and "open_law V DBI_ADDR [MDB_CREATE, MDB_DUPSORT] (0, d2) e1 e2"
    and "open_law V DBI_BLK [MDB_CREATE] (0, d3) e2 e3"
  shows "undisturbed V e0 e3" "pending V e3 = open_dbs (committed V e0)"
    "handle V e3 d1 = Some DBI_TXO" "handle V e3 d2 = Some DBI_ADDR" "handle V e3 d3 = Some DBI_BLK"
  using assms
  by (auto simp: open_law_def counts_def undisturbed_def open_dbs_def DBI_TXO_def DBI_ADDR_def DBI_BLK_def)

lemma try_block_adds:
  assumes L: "lmdb_laws L V" and blk: "\<not> dup_sorted (committed V e0) DBI_BLK"
  shows "holds (attempt_effect V m mode blk e0) any any (try_block L m mode blk) e0"
proof -
  let ?P = "attempt_effect V m mode blk e0"
  let ?h = "bytes_written (CBlockHeader_Serialize (CBlock_GetBlockHeader blk))"
  have tail: "holds ?P any any
      (bindA (and_then start (write_txs L m mode txn dbi d (vtx blk)))
        (\<lambda>r. case r of Some stop \<Rightarrow> ret stop | None \<Rightarrow> bindA (call (mdb_txn_commit L txn)) (\<lambda>_. ret Committed))) e"
    if start: "holds (writing V e0 H (put_row (header_row m blk) (open_dbs (committed V e0)))) any any start e"
      and H: "H dbi = Some DBI_TXO" "H d = Some DBI_ADDR" for start txn dbi d e H
  proof (rule holds_bind, rule holds_weaken)
    show "holds (writing V e0 H (add_block m mode blk (committed V e0))) any any
        (and_then start (write_txs L m mode txn dbi d (vtx blk))) e"
      unfolding add_block_def
      by (rule holds_and_then [OF start]) (simp add: writing_def, rule write_txs_adds [OF L H])
    fix r e' assume r: "writing V e0 H (add_block m mode blk (committed V e0)) r e'"
    show "holds ?P any any
        (case r of Some stop \<Rightarrow> ret stop | None \<Rightarrow> bindA (call (mdb_txn_commit L txn)) (\<lambda>_. ret Committed)) e'"
    proof (cases r)
      case None
      have "?P Committed e''" if "commit_law V err e' e''" for err e''
        using that r None by (auto simp: attempt_effect_def commit_law_def writing_def undisturbed_def split: if_splits)
      then show ?thesis
        using None by (auto intro!: holds_bind holds_always [OF lmdb_calls(8) [OF L]] holds_ret)
    qed (use r in \<open>auto simp: writing_def attempt_effect_def stopped_def intro!: holds_ret\<close>)
  qed simp_all
  have body: "holds ?P any any
      (bindA (call (mdb_put L txn db (blob_data (CBlockHeader_GetHash m blk)) ?h [MDB_NODUPDATA])) (\<lambda>err.
        bindA
          (and_then
            (if err \<noteq> 0 then
               (if err = MDB_MAP_FULL L then map_full L txn else ret (Some (Returned err)))
             else ret None)
            (write_txs L m mode txn dbi d (vtx blk)))
          (\<lambda>r. case r of Some stop \<Rightarrow> ret stop
           | None \<Rightarrow> bindA (call (mdb_txn_commit L txn)) (\<lambda>_. ret Committed)))) e"
    if at: "undisturbed V e0 e" "pending V e = open_dbs (committed V e0)"
      and H: "handle V e dbi = Some DBI_TXO" "handle V e d = Some DBI_ADDR" "handle V e db = Some DBI_BLK"
    for txn dbi d db e
  proof (rule holds_bind, rule holds_always [OF lmdb_calls(4) [OF L]], rule tail [where H = "handle V e", OF _ H(1,2)])
    fix err e1
    assume law: "put_law L V db (blob_data (CBlockHeader_GetHash m blk)) ?h [MDB_NODUPDATA] err e e1"
    note put = put_counts [OF law H(3) at(1)]
    have "err \<noteq> MDB_KEYEXIST L"
      using put(4) blk_not_dup_sorted blk at(2) by (auto simp: DBI_BLK_def)
    then have failed: "err \<noteq> 0 \<Longrightarrow> err \<noteq> MDB_MAP_FULL L \<Longrightarrow> stopped V e0 (Returned err) e1"
      using put(1,5) by (simp add: stopped_def)
    have "err = 0 \<Longrightarrow> writing V e0 (handle V e) (put_row (header_row m blk) (open_dbs (committed V e0))) None e1"
      using put(1,2) at(2) by (simp add: writing_def put_done_def header_row_def DBI_BLK_def)
    moreover have "holds (writing V e0 (handle V e) (put_row (header_row m blk) (open_dbs (committed V e0)))) any any
        (map_full L txn) e1"
      by (rule holds_weaken [OF map_full_stops [OF L put(1)]]) (auto simp: writing_def)
    ultimately show "holds (writing V e0 (handle V e) (put_row (header_row m blk) (open_dbs (committed V e0)))) any any
        (if err \<noteq> 0 then (if err = MDB_MAP_FULL L then map_full L txn else ret (Some (Returned err))) else ret None) e1"
      using failed by (auto simp: writing_def intro!: holds_ret)
  qed
  have stop: "holds ?P any any (ret (Returned err)) e" if "undisturbed V e0 e" "refused V e0 < refused V e" for err e
    using that by (simp add: holds_ret attempt_effect_def stopped_def)
  have "holds ?P any any
      (bindA (call (mdb_set_dupsort L txn dbi dup_compare)) (\<lambda>err. if err \<noteq> 0 then ret (Returned err) else
        bindA (call (mdb_put L txn db (blob_data (CBlockHeader_GetHash m blk)) ?h [MDB_NODUPDATA])) (\<lambda>err.
        bindA
          (and_then
            (if err \<noteq> 0 then
               (if err = MDB_MAP_FULL L then map_full L txn else ret (Some (Returned err)))
             else ret None)
            (write_txs L m mode txn dbi d (vtx blk)))
          (\<lambda>r. case r of Some stop \<Rightarrow> ret stop
           | None \<Rightarrow> bindA (call (mdb_txn_commit L txn)) (\<lambda>_. ret Committed))))) e"
    if at: "undisturbed V e0 e" "pending V e = open_dbs (committed V e0)"
      and H: "handle V e dbi = Some DBI_TXO" "handle V e d = Some DBI_ADDR" "handle V e db = Some DBI_BLK"
    for txn dbi d db e
  proof (rule holds_bind, rule holds_always [OF lmdb_calls(3) [OF L]])
    fix err e1 assume law: "counts V err e e1 \<and> (err = 0 \<longrightarrow> same_txn V e e1)"
    then have "undisturbed V e0 e1" "err \<noteq> 0 \<Longrightarrow> refused V e0 < refused V e1"
      using at(1) by (auto simp: counts_def undisturbed_def)
    moreover have "err = 0 \<Longrightarrow> pending V e1 = open_dbs (committed V e0) \<and> handle V e1 = handle V e"
      using law at(2) by (simp add: same_txn_def)
    ultimately show "holds ?P any any
        (if err \<noteq> 0 then ret (Returned err) else
          bindA (call (mdb_put L txn db (blob_data (CBlockHeader_GetHash m blk)) ?h [MDB_NODUPDATA])) (\<lambda>err.
          bindA
            (and_then
              (if err \<noteq> 0 then
                 (if err = MDB_MAP_FULL L then map_full L txn else ret (Some (Returned err)))
               else ret None)
              (write_txs L m mode txn dbi d (vtx blk)))
            (\<lambda>r. case r of Some stop \<Rightarrow> ret stop
             | None \<Rightarrow> bindA (call (mdb_txn_commit L txn)) (\<lambda>_. ret Committed)))) e1"
      using stop [of e1 err] body [of e1 dbi d db txn] H by auto
  qed
  note opened = this
  have next_open: "holds ?P any any
      (bindA (call (mdb_dbi_open L txn nm fl)) (\<lambda>(err, d). if err \<noteq> 0 then open_failed L err else k d)) e"
    if "undisturbed V e0 e" "nm \<in> {DBI_TXO, DBI_ADDR, DBI_BLK}" "\<And>d e'. open_law V nm fl (0, d) e e' \<Longrightarrow> holds ?P any any (k d) e'"
    for txn nm fl k e
  proof (rule holds_bind, rule holds_always [OF lmdb_calls(2) [OF L that(2)]])
    fix x e' assume law: "open_law V nm fl x e e'"
    then have "fst x \<noteq> 0 \<Longrightarrow> undisturbed V e0 e' \<and> refused V e0 < refused V e'"
      using that(1) by (auto simp: open_law_def counts_def undisturbed_def)
    with law that(3) [of "snd x" e'] open_failed_stops [OF L, of e0 e' m mode blk "fst x"]
    show "holds ?P any any (case x of (err, d) \<Rightarrow> if err \<noteq> 0 then open_failed L err else k d) e'"
      by (cases x) auto
  qed
  have begun: "undisturbed V e0 e1 \<and> (fst x = 0 \<longrightarrow> pending V e1 = committed V e0) \<and> (fst x \<noteq> 0 \<longrightarrow> refused V e0 < refused V e1)"
    if "begin_law V x e0 e1" for x e1
    using that by (auto simp: begin_law_def counts_def undisturbed_def)
  show ?thesis
    unfolding try_block_def Let_def ds_val_written
  proof (rule holds_bind, rule holds_always [OF lmdb_calls(1) [OF L]], split prod.split, intro allI impI)
    fix x e1 err txn assume "begin_law V x e0 e1" and x: "x = (err, txn)"
    note e1 = begun [OF this(1), unfolded x fst_conv]
    show "holds ?P any any
      (if err \<noteq> 0 then ret (Returned err) else
       bindA (call (mdb_dbi_open L txn DBI_TXO [MDB_CREATE, MDB_DUPSORT])) (\<lambda>(err, dbi).
         if err \<noteq> 0 then open_failed L err else
       bindA (call (mdb_dbi_open L txn DBI_ADDR [MDB_CREATE, MDB_DUPSORT])) (\<lambda>(err, d).
         if err \<noteq> 0 then open_failed L err else
       bindA (call (mdb_dbi_open L txn DBI_BLK [MDB_CREATE])) (\<lambda>(err, db).
         if err \<noteq> 0 then open_failed L err else
       bindA (call (mdb_set_dupsort L txn dbi dup_compare)) (\<lambda>err. if err \<noteq> 0 then ret (Returned err) else
        bindA (call (mdb_put L txn db (blob_data (CBlockHeader_GetHash m blk)) ?h [MDB_NODUPDATA])) (\<lambda>err.
        bindA
          (and_then
            (if err \<noteq> 0 then
               (if err = MDB_MAP_FULL L then map_full L txn else ret (Some (Returned err)))
             else ret None)
            (write_txs L m mode txn dbi d (vtx blk)))
          (\<lambda>r. case r of Some stop \<Rightarrow> ret stop
           | None \<Rightarrow> bindA (call (mdb_txn_commit L txn)) (\<lambda>_. ret Committed)))))))) e1"
    proof (cases "err = 0")
      case True
      have later: "undisturbed V e0 e'" if "open_law V nm fl (0, d) e e'" "undisturbed V e0 e" for nm fl d e e'
        using that by (auto simp: open_law_def counts_def undisturbed_def)
      from True have began: "\<not> err \<noteq> 0" by simp
      show ?thesis
        unfolding if_not_P [OF began]
        by (intro next_open opened) (use e1 True in \<open>auto intro: later open_three\<close>)
    qed (use e1 stop in simp)
  qed
qed

lemma store_block_adds:
  assumes "store_block L m mode blk e = Some r"
  shows "lmdb_laws L V \<Longrightarrow> \<not> dup_sorted (committed V e) DBI_BLK \<Longrightarrow>
    (case r of
       Val a e' \<Rightarrow> a \<noteq> Again \<and> attempt_effect V m mode blk e a e'
     | Exc e' \<Rightarrow> False
     | Fault f \<Rightarrow> unset_cursor L f)"
  using assms
proof (induction L m mode blk e r rule: store_block.raw_induct)
  case (1 store L m mode blk e r)
  note effect = try_block_adds [OF 1(3,4), of m mode blk]
  show ?case
  proof (cases rule: try_block_outcome [of L m mode blk e])
    case (ended a e')
    with effect have here: "attempt_effect V m mode blk e a e'" by (simp add: holds_def)
    show ?thesis
    proof (cases "a = Again")
      case True
      then have before: "undisturbed V e e'" using here by (simp add: attempt_effect_def stopped_def)
      have "store L m mode blk e' = Some r" using 1(2) ended True by simp
      moreover have "store_block L m mode blk e' = Some r"
        using 1(5) ended True by (simp add: store_block.simps [of L m mode blk e])
      ultimately have
        "case r of Val a e'' \<Rightarrow> a \<noteq> Again \<and> attempt_effect V m mode blk e' a e'' | Exc e' \<Rightarrow> False | Fault f \<Rightarrow> unset_cursor L f"
        using 1(1) [OF _ 1(3)] 1(4) before by (simp add: undisturbed_def)
      then show ?thesis using before
        by (auto simp: attempt_effect_def stopped_def undisturbed_def split: outcome.splits if_splits)
    next
      case False
      then have "r = Val a e'" using 1(2) ended by (cases a) simp_all
      then show ?thesis using here False by simp
    qed
  next
    case unset
    have "r = Fault Indeterminate_value" using 1(2) by (simp add: unset(1))
    then show ?thesis using unset(2) by simp
  qed
qed (rule assms)

lemma put_row_flags: "dup_sorted (put_row r D) nm = dup_sorted D nm"
  by (simp add: put_row_def dup_sorted_def)

lemma add_txs_flags: "dup_sorted (add_txs m txs D) nm = dup_sorted D nm"
proof (induction txs arbitrary: D)
  case (Cons tx txs)
  have "dup_sorted (add_outputs m txid i outs D) nm = dup_sorted D nm" for txid i outs D
    by (induction outs arbitrary: i D) (simp_all add: add_output_def put_row_flags)
  with Cons show ?case by simp
qed simp

lemma block_keeps_blk: "\<not> dup_sorted D ''blk'' \<Longrightarrow> \<not> dup_sorted (add_block m mode blk D) ''blk''"
  by (simp add: add_block_def add_txs_flags put_row_flags blk_not_dup_sorted)

subsection \<open>A script keeps one outpoint where its database has no duplicates\<close>

definition one_value :: "string \<Rightarrow> database \<Rightarrow> bool" where
  "one_value nm D \<longleftrightarrow> db_dup D nm = Some False
     \<and> (\<forall>k v v'. (nm, k, v) \<in> db_rows D \<longrightarrow> (nm, k, v') \<in> db_rows D \<longrightarrow> v = v')"

lemma one_value_put: "one_value nm D \<Longrightarrow> one_value nm (put_row r D)"
  by (cases r) (auto simp: one_value_def put_row_def dup_sorted_def same_key_def)

lemma one_value_open: "one_value nm D \<Longrightarrow> one_value nm (open_db nm' dup D)"
  by (auto simp: one_value_def open_db_def)

lemma one_value_outputs: "one_value nm D \<Longrightarrow> one_value nm (add_outputs m txid i outs D)"
  by (induction outs arbitrary: i D) (simp_all add: add_output_def one_value_put)

lemma one_value_txs: "one_value nm D \<Longrightarrow> one_value nm (add_txs m txs D)"
  by (induction txs arbitrary: D) (simp_all add: one_value_outputs)

lemma one_value_block: "one_value nm D \<Longrightarrow> one_value nm (add_block m mode blk D)"
  by (simp add: add_block_def open_dbs_def one_value_txs one_value_put one_value_open)

lemma one_value_blocks: "one_value nm D \<Longrightarrow> one_value nm (fold (add_block m mode) blks D)"
  by (induction blks arbitrary: D) (simp_all add: one_value_block)

definition empty_database :: database where
  "empty_database = \<lparr>db_dup = Map.empty, db_rows = {}\<rparr>"

lemma stats_create:
  assumes L: "lmdb_laws L V" and nm: "nm \<in> {DBI_TXO, DBI_ADDR, DBI_BLK}"
    and stats: "GetTXOStats L nm e = Val (0, Some stats) e'"
  shows "lost V e \<le> lost V e'" "lost V e' = lost V e \<Longrightarrow> committed V e' = open_db nm False (committed V e)"
proof -
  obtain err1 t e1 where began: "mdb_txn_begin L e = ((err1, t), e1)" by (metis prod.exhaust)
  obtain err2 d e2 where opened: "mdb_dbi_open L t nm [MDB_CREATE] e1 = ((err2, d), e2)" by (metis prod.exhaust)
  obtain err3 n e3 where stat: "mdb_stat L t d e2 = ((err3, n), e3)" by (metis prod.exhaust)
  obtain err4 e4 where commit: "mdb_txn_commit L t e3 = (err4, e4)" by (metis prod.exhaust)
  note unfolded = GetTXOStats_def StartTXOTxn_def bindA_def call_def ret_def or_fault_def
  have ok: "err1 = 0" "err2 = 0" "err3 = 0" "e' = e4"
    using stats began opened stat commit
    by (auto simp: unfolded TXO_OK_def split: if_splits outcome.splits prod.splits)
  have "begin_law V (err1, t) e e1" "open_law V nm [MDB_CREATE] (err2, d) e1 e2"
    "counts V err3 e2 e3 \<and> (err3 = 0 \<longrightarrow> same_txn V e2 e3)" "commit_law V err4 e3 e4"
    using lmdb_calls(1) [OF L] lmdb_calls(2) [OF L nm, of t "[MDB_CREATE]"] lmdb_calls(14) [OF L, of t d] lmdb_calls(8) [OF L, of t]
      began opened stat commit unfolding always_def by (metis fst_conv snd_conv)+
  then show "lost V e \<le> lost V e'" "lost V e' = lost V e \<Longrightarrow> committed V e' = open_db nm False (committed V e)"
    using ok by (auto simp: begin_law_def open_law_def counts_def undisturbed_def same_txn_def commit_law_def split: if_splits)
qed

subsection \<open>An environment in memory\<close>

text \<open>
  For running the model: the size of the map, a switch that makes transactions fail, and what is committed
  and what the transaction holds, as lists. A map of less than \<open>need\<close> bytes is full.
\<close>

definition name_of :: "nat \<Rightarrow> string" where
  "name_of d = (if d = 1 then DBI_TXO else if d = 2 then DBI_ADDR else DBI_BLK)"

definition number_of :: "string \<Rightarrow> nat" where
  "number_of nm = (if nm = DBI_TXO then 1 else if nm = DBI_ADDR then 2 else 3)"

type_synonym store = "(string \<times> bool) list \<times> row list"

definition database_of :: "store \<Rightarrow> database" where
  "database_of S = \<lparr>db_dup = map_of (fst S), db_rows = set (snd S)\<rparr>"

definition store_open :: "string \<Rightarrow> bool \<Rightarrow> store \<Rightarrow> store" where
  "store_open nm dup S = (if map_of (fst S) nm = None then ((nm, dup) # fst S, snd S) else S)"

definition store_put :: "row \<Rightarrow> store \<Rightarrow> store" where
  "store_put r S = (fst S, r # (if map_of (fst S) (fst r) = Some True then snd S else filter (\<lambda>r'. \<not> same_key r r') (snd S)))"

record memory =
  mem_size :: u64
  mem_bad :: bool
  mem_main :: store
  mem_txn :: store

definition memory_new :: "u64 \<Rightarrow> bool \<Rightarrow> memory" where
  "memory_new sz bad = \<lparr>mem_size = sz, mem_bad = bad, mem_main = ([], []), mem_txn = ([], [])\<rparr>"

definition memory_put :: "nat \<Rightarrow> nat \<Rightarrow> byte list \<Rightarrow> byte list \<Rightarrow> mdb_flag list \<Rightarrow> memory \<Rightarrow> int \<times> memory" where
  "memory_put need d k v fl e =
     (let r = (name_of d, k, v) in
      if unat (mem_size e) < need then (-30792, e)
      else if MDB_NODUPDATA \<in> set fl \<and> map_of (fst (mem_txn e)) (name_of d) = Some True \<and> r \<in> set (snd (mem_txn e))
      then (-30799, e)
      else (0, e\<lparr>mem_txn := store_put r (mem_txn e)\<rparr>))"

definition memory_begin :: "memory \<Rightarrow> (int \<times> nat) \<times> memory" where
  "memory_begin e = ((0, 1), e\<lparr>mem_txn := mem_main e\<rparr>)"

definition memory_lmdb :: "nat \<Rightarrow> memory lmdb" where
  "memory_lmdb need =
     \<lparr>MDB_NOTFOUND = -30798, MDB_MAP_FULL = -30792, MDB_KEYEXIST = -30799, EINVAL = 22,
      mdb_env_create = (\<lambda>e. (0, e)), mdb_env_set_maxdbs = (\<lambda>n e. (0, e)),
      mdb_env_open = (\<lambda>p fl md e. (0, e)),
      mdb_env_info = (\<lambda>e. ((0, mem_size e), e)), mdb_env_set_mapsize = (\<lambda>n e. (0, e\<lparr>mem_size := n\<rparr>)),
      mdb_txn_begin = (\<lambda>e. if mem_bad e then ((12, 0), e) else memory_begin e),
      mdb_txn_commit = (\<lambda>t e. (0, e\<lparr>mem_main := mem_txn e\<rparr>)), mdb_txn_abort = (\<lambda>t e. ((), e)),
      mdb_dbi_open = (\<lambda>t nm fl e. ((0, number_of nm), e\<lparr>mem_txn := store_open nm (MDB_DUPSORT \<in> set fl) (mem_txn e)\<rparr>)),
      mdb_set_dupsort = (\<lambda>t d c e. (0, e)), mdb_stat = (\<lambda>t d e. ((0, length (snd (mem_txn e))), e)),
      mdb_get = (\<lambda>t d k e. (case find (\<lambda>(nm, k', v). nm = name_of d \<and> k' = k) (snd (mem_txn e)) of
         Some (nm, k', v) \<Rightarrow> ((0, v), e) | None \<Rightarrow> ((-30798, []), e))),
      mdb_put = (\<lambda>t d k v fl. memory_put need d k v fl), mdb_cursor_open = (\<lambda>t d e. ((0, d), e)),
      mdb_cursor_put = (\<lambda>c k v fl. memory_put need c k v fl), mdb_cursor_close = (\<lambda>c e. ((), e)),
      mdb_env_set_flags = (\<lambda>fl on e. (0, e)), mdb_env_sync = (\<lambda>force e. (0, e))\<rparr>"

lemma grows_memory: "need + unat MAPSIZE_BASE_UNIT < 2 ^ 64 \<Longrightarrow> grows (memory_lmdb need) mem_size need"
  by (auto simp: grows_def map_limit_def keeps_def memory_lmdb_def memory_put_def memory_begin_def TXO_RESIZED_def Let_def)

text \<open>Where transactions can be begun no call fails.\<close>

definition healthy :: "nat \<Rightarrow> memory lmdb" where
  "healthy need = (memory_lmdb need)\<lparr>mdb_txn_begin := memory_begin\<rparr>"

definition memory_view :: "memory lmdb_view" where
  "memory_view =
     \<lparr>committed = (\<lambda>e. database_of (mem_main e)), pending = (\<lambda>e. database_of (mem_txn e)), handle = (\<lambda>e d. Some (name_of d)),
      cursor = (\<lambda>e c. Some (name_of c)), refused = (\<lambda>e. 0), lost = (\<lambda>e. 0)\<rparr>"

lemma database_of_open: "database_of (store_open nm dup S) = open_db nm dup (database_of S)"
  by (simp add: database_of_def store_open_def open_db_def)

lemma database_of_put: "database_of (store_put r S) = put_row r (database_of S)"
  by (auto simp: database_of_def store_put_def put_row_def dup_sorted_def)

lemma name_of_number: "nm \<in> {DBI_TXO, DBI_ADDR, DBI_BLK} \<Longrightarrow> name_of (number_of nm) = nm"
  by (auto simp: name_of_def number_of_def DBI_TXO_def DBI_ADDR_def DBI_BLK_def)

lemma in_database_of: "dup_sorted (database_of S) nm \<longleftrightarrow> map_of (fst S) nm = Some True" "db_rows (database_of S) = set (snd S)"
  by (simp_all add: database_of_def dup_sorted_def)

lemma laws_memory: "lmdb_laws (healthy need) memory_view"
  by (auto simp: lmdb_laws_def healthy_def memory_lmdb_def memory_view_def always_def begin_law_def open_law_def put_law_def
      cursor_open_law_def cursor_put_law_def close_law_def commit_law_def counts_def undisturbed_def same_txn_def
      put_done_def memory_begin_def memory_put_def Let_def database_of_open database_of_put in_database_of name_of_number)

lemma grows_healthy: "need + unat MAPSIZE_BASE_UNIT < 2 ^ 64 \<Longrightarrow> grows (healthy need) mem_size need"
  by (auto simp: grows_def map_limit_def keeps_def healthy_def memory_lmdb_def memory_put_def memory_begin_def TXO_RESIZED_def Let_def)

lemma healthy_cursor: "\<not> unset_cursor (healthy need) f" "\<not> unset_cursor (memory_lmdb need) f"
  by (simp_all add: unset_cursor_def healthy_def memory_lmdb_def)

lemma memory_view_simps [simp]:
  "committed memory_view (memory_new sz bad) = empty_database" "committed memory_view e = database_of (mem_main e)"
  "refused memory_view e = 0" "lost memory_view e = 0" "\<not> dup_sorted empty_database nm"
  "database_of (mem_main (memory_new sz bad)) = empty_database"
  by (simp_all add: memory_view_def memory_new_def database_of_def empty_database_def dup_sorted_def)

subsection \<open>Properties\<close>

text \<open>(C5) Storing a block implements its abstract specification, for every LMDB that keeps its documented promises
  and whichever of its calls fail. When the loop of attempts ends with the commit, the committed rows are the
  old ones with the block added: the header under its hash, and for every output, in order, its outpoint under
  the digest of its script and its number and value under its transaction, unless the script already has that
  outpoint. Only if \<^verbatim>\<open>mdb_txn_commit\<close> fails, whose result the code ignores, they are the old ones. When the loop
  returns an error nothing has changed, and a call has failed. It never throws, and the one fault is the use
  of a cursor that could not be opened. (The database \<^verbatim>\<open>blk\<close> is never opened with \<^verbatim>\<open>MDB_DUPSORT\<close> by the code.)\<close>

theorem store_block_rows:
  assumes "lmdb_laws L V" "\<not> dup_sorted (committed V e) ''blk''" "store_block L m mode blk e = Some r"
  shows "case r of
      Val Committed e' \<Rightarrow> (lost V e' = lost V e \<and> committed V e' = add_block m mode blk (committed V e))
        \<or> (lost V e < lost V e' \<and> committed V e' = committed V e)
    | Val (Returned err) e' \<Rightarrow> committed V e' = committed V e \<and> refused V e < refused V e'
    | Val Again e' \<Rightarrow> False
    | Exc e' \<Rightarrow> False
    | Fault f \<Rightarrow> unset_cursor L f"
  using store_block_adds [OF assms(3,1)] assms(2)
  by (auto simp: attempt_effect_def stopped_def undisturbed_def DBI_BLK_def split: outcome.splits attempt.splits if_splits)

theorem store_block_rows_witness:
  "\<exists>e'. store_block (healthy 0) buffering 0 sample_block (memory_new 0 False) = Some (Val Committed e')
      \<and> database_of (mem_main e') = add_block buffering 0 sample_block empty_database"
proof -
  have "grows (healthy 0) mem_size 0" by (rule grows_healthy) (simp add: unit_positive)
  from store_block_terminates [OF this, of buffering 0 sample_block "memory_new 0 False"] healthy_cursor
  obtain a e' where r: "store_block (healthy 0) buffering 0 sample_block (memory_new 0 False) = Some (Val a e')" by blast
  with store_block_rows [OF laws_memory _ r] show ?thesis by (cases a) auto
qed

text \<open>(C12) The retry loop of storing a block ends, whatever calls fail: if a map of \<open>limit\<close> bytes is never
  reported full then, after at most so many enlargements as fit below \<open>limit\<close>, the loop commits or
  returns an error, in either pass, or, where \<^verbatim>\<open>mdb_cursor_open\<close> can fail, runs into the use of the cursor
  that was not set.\<close>

theorem store_block_returns:
  assumes "map_limit L msize limit" "limit + unat MAPSIZE_BASE_UNIT < 2 ^ 64"
  shows "(\<exists>a e'. store_block L m mode blk e = Some (Val a e') \<and> a \<noteq> Again)
    \<or> store_block L m mode blk e = Some (Fault Indeterminate_value)
      \<and> (\<exists>t d e. fst (fst (mdb_cursor_open L t d e)) \<noteq> 0)"
  using store_block_terminates [of L msize limit m mode blk e] assms by (auto simp: grows_def unset_cursor_def)

theorem store_block_returns_witness:
  "\<exists>a e'. store_block (memory_lmdb 314572800) buffering 0 sample_block (memory_new 1000 False) = Some (Val a e')
    \<and> a \<noteq> Again"
  using store_block_returns [where L = "memory_lmdb 314572800" and msize = mem_size and limit = 314572800]
    grows_memory [of 314572800] by (simp add: grows_def unit_positive memory_lmdb_def)

text \<open>(C39) \<^verbatim>\<open>IncreaseMapSize\<close> sets the least multiple of the unit above the present size, which is larger than it
  by at most one unit, and reports the enlargement exactly when LMDB accepted the size; below the
  64-bit limit the arithmetic does not wrap.\<close>

theorem IncreaseMapSize_least:
  assumes "mdb_env_info L e = ((0, m), e')" "unat m + unat MAPSIZE_BASE_UNIT < 2 ^ 64"
  shows "\<exists>n. unat MAPSIZE_BASE_UNIT dvd unat n \<and> unat m < unat n \<and> unat n \<le> unat m + unat MAPSIZE_BASE_UNIT \<and>
    IncreaseMapSize L e = (case mdb_env_set_mapsize L n e' of
      (err, e'') \<Rightarrow> Val (if err \<noteq> 0 then err else TXO_RESIZED) e'')"
proof -
  obtain n where n: "unat n = unat m - unat m mod unat MAPSIZE_BASE_UNIT + unat MAPSIZE_BASE_UNIT"
    "IncreaseMapSize L e = (case mdb_env_set_mapsize L n e' of
      (err, e'') \<Rightarrow> Val (if err \<noteq> 0 then err else TXO_RESIZED) e'')"
    by (rule IncreaseMapSize_eq [OF assms])
  have "unat MAPSIZE_BASE_UNIT dvd unat n"
    unfolding n(1) by (intro dvd_add dvd_minus_mod dvd_refl)
  with n map_grows [OF n(1)] show ?thesis by (intro exI [of _ n]) simp
qed

theorem IncreaseMapSize_least_witness:
  "\<exists>n. 104857600 dvd unat n \<and> 104857601 < unat n \<and> unat n \<le> 209715201
    \<and> IncreaseMapSize (memory_lmdb 0) (memory_new 104857601 False) = Val TXO_RESIZED (memory_new n False)"
  using IncreaseMapSize_least [of "memory_lmdb 0" "memory_new 104857601 False" 104857601]
  by (simp add: memory_lmdb_def memory_new_def unit_positive)

text \<open>An error of starting a transaction is not noticed: \<^verbatim>\<open>GetTXOs\<close> and \<^verbatim>\<open>GetTXOStats\<close> take any nonzero
  result of \<^verbatim>\<open>StartTXOTxn\<close> for success and go on to use a transaction that was never set. And no call of
  \<^verbatim>\<open>GetTXOs\<close> adds an output to its result list, also when the script has outputs.\<close>

theorem GetTXOs_errors:
  assumes "mdb_txn_begin L e = ((err, t), e')" "err \<noteq> 0"
  shows "GetTXOs L h ntx e = Fault Indeterminate_value \<and> GetTXOStats L dbn e = Fault Indeterminate_value
    \<and> (case GetTXOs L h ntx e2 of Val (r, out) e3 \<Rightarrow> out = ntx | _ \<Rightarrow> True)"
proof (intro conjI)
  show "GetTXOs L h ntx e = Fault Indeterminate_value" "GetTXOStats L dbn e = Fault Indeterminate_value"
    using assms by (simp_all add: GetTXOs_def GetTXOStats_def StartTXOTxn_def bindA_def call_def ret_def or_fault_def)
  have "holds (\<lambda>(r, out) e3. out = ntx) (\<lambda>_. True) (\<lambda>_. True) (GetTXOs L h ntx) e2"
    unfolding GetTXOs_def
    by (auto intro!: holds_bind_any holds_ret holds_fault split: sum.splits prod.splits)
  then show "case GetTXOs L h ntx e2 of Val (r, out) e3 \<Rightarrow> out = ntx | _ \<Rightarrow> True"
    by (auto simp: holds_def split: outcome.splits prod.splits)
qed

theorem GetTXOs_errors_witness:
  "GetTXOs (memory_lmdb 0) (base_blob_new 32) [] (memory_new 0 True) = Fault Indeterminate_value"
  using GetTXOs_errors [of "memory_lmdb 0" "memory_new 0 True" 12 0 "memory_new 0 True"]
  by (simp add: memory_lmdb_def memory_new_def)

end
