(* ===== verification/Preload.thy ===== *)
theory Preload
  imports TXODB
begin

section \<open>Loading block files: TXODB::PreLoadBlocks\<close>

text \<open>
  Bitcoin Core's block files hold records: four bytes of magic, a length, a block. \<^verbatim>\<open>PreLoadBlocks\<close> reads
  them through the ring buffer of \<^verbatim>\<open>CBufferedFile\<close> and stores every block. What it does to a file is
  compared with a function on the file's bytes. Here there is one thread, as where \<^verbatim>\<open>hardware_concurrency\<close>
  is 1; \<^verbatim>\<open>PreloadThreads\<close> has any number of them. The counters and messages are left out. The function of a
  thread returns an \<^verbatim>\<open>int\<close>, the error that ends it, and flows off its end when no file is left: undefined
  behaviour, the fault \<open>Missing_return\<close>.
\<close>

subsection \<open>One record\<close>

definition NET_MAGIC :: "byte list" where
  "NET_MAGIC = [0xfa, 0xbf, 0xb5, 0xda]"

definition PRELOAD_BUFFER_SIZE :: u64 where
  "PRELOAD_BUFFER_SIZE = 0x8000000"

definition Unserialize_array :: "nat \<Rightarrow> byte list reader" where
  "Unserialize_array N = Read N Return"

definition CBlock_new :: CBlock where
  "CBlock_new =
     \<lparr>bh_nVersion = 0, hashPrevBlock = base_blob_new 32, hashMerkleRoot = base_blob_new 32, nTime = 0,
      nBits = 0, nNonce = 0, vtx = [], fChecked = False\<rparr>"

text \<open>What one turn of the loop finds, if it does not throw: the end of the records, nothing, a block.\<close>

datatype finding = End_of_records | Nothing | Found CBlock

text \<open>Statements in sequence; an exception skips the rest.\<close>

definition then_do ::
  "('s \<Rightarrow> (failure + 'a) \<times> 's) \<Rightarrow> ('a \<Rightarrow> 's \<Rightarrow> (failure + 'b) \<times> 's) \<Rightarrow> 's \<Rightarrow> (failure + 'b) \<times> 's" where
  "then_do act f s = (case act s of (Inl e, s') \<Rightarrow> (Inl e, s') | (Inr x, s') \<Rightarrow> f x s')"

definition seek_back :: "u64 \<Rightarrow> CBufferedFile \<Rightarrow> (failure + unit) \<times> CBufferedFile" where
  "seek_back n bf = (Inr (), snd (CBufferedFile_SetPos (bf_nReadPos bf - n) bf))"

definition next_record :: "('s, 'r) mbedtls \<Rightarrow> CBufferedFile \<Rightarrow> (failure + finding) \<times> CBufferedFile" where
  "next_record m =
     then_do (run CBufferedFile_read (Unserialize_array 4)) (\<lambda>net_magic.
     then_do (run CBufferedFile_read ser_readdata32) (\<lambda>len.
       if len = 0 then Pair (Inr End_of_records)
       else if net_magic \<noteq> NET_MAGIC then Pair (Inr Nothing)
       else
         then_do (run CBufferedFile_read (Unserialize_array 4)) (\<lambda>net_magic.
         then_do (seek_back 4) (\<lambda>_.
           if net_magic = NET_MAGIC then Pair (Inr Nothing)
           else
             then_do (run CBufferedFile_read (CBlock_Unserialize m PROTOCOL_VERSION (CBlock_SetNull CBlock_new)))
               (\<lambda>blk. Pair (Inr (Found blk)))))))"

subsection \<open>A file, the files\<close>

text \<open>
  The loop over a file. \<^verbatim>\<open>eof\<close> is called on the file that \<^verbatim>\<open>fopen\<close> returned, also on the null pointer.
  Every \<^verbatim>\<open>std::ios_base::failure\<close> is caught and the loop goes on; three of the outcomes are no exceptions,
  not to return, to leave an array and to read from a null stream. The result is the error the thread
  returns, if it returns one.
\<close>

partial_function (option) load_file ::
  "'e lmdb \<Rightarrow> ('s, 'r) mbedtls \<Rightarrow> int \<Rightarrow> CBufferedFile \<Rightarrow> 'e \<Rightarrow> (int option, 'e) outcome option" where
  "load_file L m mode bf e =
     (if bf_src bf = None then Some (Fault Null_dereference)
      else if CBufferedFile_eof bf then Some (Val None e)
      else
        (case next_record m bf of
           (Inl x, bf') \<Rightarrow>
             if x = Does_not_return then None
             else if x = Out_of_bounds_access then Some (Fault Out_of_bounds)
             else if x = Null_stream then Some (Fault Null_dereference)
             else load_file L m mode bf' e
         | (Inr End_of_records, bf') \<Rightarrow> Some (Val None e)
         | (Inr Nothing, bf') \<Rightarrow> load_file L m mode bf' e
         | (Inr (Found blk), bf') \<Rightarrow>
             (case store_block L m mode blk e of
                None \<Rightarrow> None
              | Some r \<Rightarrow>
                  (case r of
                     Val (Returned err) e' \<Rightarrow> Some (Val (Some err) e')
                   | Val _ e' \<Rightarrow> load_file L m mode bf' e'
                   | Exc e' \<Rightarrow> Some (Exc e')
                   | Fault f \<Rightarrow> Some (Fault f)))))"

text \<open>A thread takes the files in turn; an error ends it. Behind the last file no value is returned.\<close>

fun preload_func ::
  "'e lmdb \<Rightarrow> ('s, 'r) mbedtls \<Rightarrow> int \<Rightarrow> FILE option list \<Rightarrow> 'e \<Rightarrow> (int, 'e) outcome option" where
  "preload_func L m mode [] e = Some (Fault Missing_return)"
| "preload_func L m mode (bf_p # files) e =
     (case load_file L m mode (CBufferedFile_new bf_p PRELOAD_BUFFER_SIZE 4) e of
        None \<Rightarrow> None
      | Some r \<Rightarrow>
          (case r of
             Val None e' \<Rightarrow> preload_func L m mode files (snd (mdb_env_sync L True e'))
           | Val (Some err) e' \<Rightarrow> Some (Val err e')
           | Exc e' \<Rightarrow> Some (Exc e')
           | Fault f \<Rightarrow> Some (Fault f)))"

text \<open>The files of the directory whose names begin with \<^verbatim>\<open>blk\<close>, in two passes.\<close>

definition block_files :: "(string \<times> FILE option) list \<Rightarrow> FILE option list" where
  "block_files path = map snd (filter (\<lambda>(name, f). take 3 name = ''blk'') path)"

definition PreLoadBlocks ::
  "'e lmdb \<Rightarrow> ('s, 'r) mbedtls \<Rightarrow> (string \<times> FILE option) list \<Rightarrow> 'e \<Rightarrow> (unit, 'e) outcome option" where
  "PreLoadBlocks L m path e =
     (case preload_func L m 0 (block_files path) (snd (mdb_env_set_flags L MDB_NOSYNC True e)) of
        Some (Val _ e1) \<Rightarrow>
          (case preload_func L m 1 (block_files path) e1 of
             Some (Val _ e2) \<Rightarrow> Some (Val () e2)
           | Some (Exc e2) \<Rightarrow> Some (Exc e2)
           | Some (Fault f) \<Rightarrow> Some (Fault f)
           | None \<Rightarrow> None)
      | Some (Exc e1) \<Rightarrow> Some (Exc e1)
      | Some (Fault f) \<Rightarrow> Some (Fault f)
      | None \<Rightarrow> None)"


subsection \<open>What deserialisers throw\<close>

text \<open>\<open>file_safe l p\<close>: every read of \<open>p\<close> is of at most \<open>l\<close> bytes, and all it throws is a failure of the stream.\<close>

primrec file_safe :: "nat \<Rightarrow> 'a reader \<Rightarrow> bool" where
  "file_safe l (Return x) \<longleftrightarrow> True"
| "file_safe l (Throw x) \<longleftrightarrow> is_failure x"
| "file_safe l (Read n k) \<longleftrightarrow> n \<le> l \<and> (\<forall>bs. file_safe l (k bs))"

named_theorems safe_intros \<open>deserialisers that throw failures only\<close>

lemma safe_bind [safe_intros]: "file_safe l p \<Longrightarrow> (\<And>x. file_safe l (f x)) \<Longrightarrow> file_safe l (bindR p f)"
  by (induction p) auto

lemma safe_readdata [safe_intros]:
  "8 \<le> l \<Longrightarrow> file_safe l ser_readdata8" "8 \<le> l \<Longrightarrow> file_safe l ser_readdata16"
  "8 \<le> l \<Longrightarrow> file_safe l ser_readdata32" "8 \<le> l \<Longrightarrow> file_safe l ser_readdata64"
  by (simp_all add: ser_readdata8_def ser_readdata16_def ser_readdata32_def ser_readdata64_def)

lemma safe_Return [safe_intros]: "file_safe l (Return x)"
  by simp

lemma safe_ReadCompactSize [safe_intros]: "8 \<le> l \<Longrightarrow> file_safe l ReadCompactSize"
  unfolding ReadCompactSize_def by (auto simp: Let_def is_failure_def intro!: safe_intros)

lemma safe_base_blob [safe_intros]: "32 \<le> l \<Longrightarrow> file_safe l (base_blob_Unserialize 32)"
  by (simp add: base_blob_Unserialize_def)

lemma safe_blob_loop: "5000000 \<le> l \<Longrightarrow> file_safe l (Unserialize_blob_loop nSize i v)"
proof (induction nSize i v rule: Unserialize_blob_loop.induct)
  case (1 nSize i v)
  define blk where "blk = min (nSize - i) (1 + 4999999 div 1 :: nat)"
  have "blk \<le> l" using "1.prems" by (simp add: blk_def)
  with "1.IH" [OF _ blk_def "1.prems"] show ?case
    by (subst Unserialize_blob_loop.simps) (simp only: Let_def blk_def [symmetric] file_safe.simps simp_thms split: if_splits, blast)
qed

lemma safe_blob [safe_intros]: "5000000 \<le> l \<Longrightarrow> file_safe l Unserialize_blob"
  unfolding Unserialize_blob_def Let_def by (intro safe_intros safe_blob_loop) simp_all

lemma safe_elems: "file_safe l el \<Longrightarrow> file_safe l (Unserialize_elems el k v)"
  by (induction k arbitrary: v) (auto intro!: safe_intros)

lemma safe_vec [safe_intros]:
  "8 \<le> l \<Longrightarrow> 0 < 5000000 div sizeof_T \<Longrightarrow> file_safe l el \<Longrightarrow> file_safe l (Unserialize_vec sizeof_T el)"
  unfolding Unserialize_vec_def Let_def
  by (auto simp: Unserialize_mid_elems intro!: safe_intros safe_elems)

lemma safe_parts [safe_intros]:
  assumes "5000000 \<le> l"
  shows "file_safe l COutPoint_Unserialize" "file_safe l CTxIn_Unserialize" "file_safe l CTxOut_Unserialize"
    "file_safe l CBlockHeader_Unserialize" "file_safe l Unserialize_stack" "file_safe l (Unserialize_witnesses ins)"
proof -
  show out: "file_safe l COutPoint_Unserialize"
    unfolding COutPoint_Unserialize_def using assms by (intro safe_intros) simp_all
  show "file_safe l CTxIn_Unserialize"
    unfolding CTxIn_Unserialize_def using assms by (intro safe_intros out) simp_all
  show "file_safe l CTxOut_Unserialize" "file_safe l CBlockHeader_Unserialize"
    unfolding CTxOut_Unserialize_def CBlockHeader_Unserialize_def using assms by (intro safe_intros; simp)+
  show stack: "file_safe l Unserialize_stack"
    unfolding Unserialize_stack_def using assms by (intro safe_intros) simp_all
  show "file_safe l (Unserialize_witnesses ins)"
    by (induction ins) (auto intro!: safe_intros stack)
qed

lemma safe_transaction [safe_intros]: "5000000 \<le> l \<Longrightarrow> file_safe l (UnserializeTransaction v)"
  unfolding UnserializeTransaction_def Let_def Unserialize_vin_def Unserialize_vout_def
  by (auto simp: is_failure_def intro!: safe_intros)

lemma safe_block: "5000000 \<le> l \<Longrightarrow> file_safe l (CBlock_Unserialize m v b)"
  unfolding CBlock_Unserialize_def CTransactionRef_Unserialize_def CTransaction_deserialize_def
  by (auto intro!: safe_intros)

subsection \<open>Bytes that are read like a file\<close>

text \<open>Reading past the end of a file takes what is left.\<close>

definition file_read :: "nat \<Rightarrow> byte list \<Rightarrow> (failure + byte list) \<times> byte list" where
  "file_read n bs = (if n \<le> length bs then (Inr (take n bs), drop n bs) else (Inl End_of_file, []))"

lemma file_read_shorter: "run file_read p bs = (r, rest) \<Longrightarrow> length rest \<le> length bs"
  by (induction p arbitrary: bs) (force simp: file_read_def split: if_splits)+

lemma file_read_of_list: "run_list p bs = (Inr x, rest) \<Longrightarrow> run file_read p bs = (Inr x, rest)"
  by (induction p arbitrary: bs) (auto simp: file_read_def list_read_def split: if_splits)

lemma file_read_throws: "file_safe l p \<Longrightarrow> run file_read p bs = (Inl x, rest) \<Longrightarrow> is_failure x"
  by (induction p arbitrary: bs) (auto simp: file_read_def is_failure_def split: if_splits)

text \<open>
  A file of content \<open>c\<close> is read like its bytes. \<open>reading c p s\<close>: the buffered file is well-formed and what
  is behind its position may be gone back to, four bytes of it, once the position has reached \<open>p\<close>.
\<close>

definition reading :: "byte list \<Rightarrow> nat \<Rightarrow> CBufferedFile \<Rightarrow> bool" where
  "reading c p s \<longleftrightarrow> CBufferedFile_inv c 5000000 s \<and> CBufferedFile_fresh 4 p s"

lemma reading_unread:
  assumes "reading c p s"
  shows "CBufferedFile_unread s = drop (unat (bf_nReadPos s)) c" "unat (bf_nReadPos s) \<le> length c"
  using assms by (auto simp: reading_def CBufferedFile_inv_def CBufferedFile_unread_def FILE_ok_def)

lemma reading_pos: "reading c p s \<Longrightarrow> unat (bf_nReadPos s) = length c - length (CBufferedFile_unread s)"
  using reading_unread [of c p s] by simp

text \<open>Afterwards the file is in the place the bytes are, or it is at its end and they are used up.\<close>

definition at :: "byte list \<Rightarrow> nat \<Rightarrow> CBufferedFile \<Rightarrow> byte list \<Rightarrow> bool" where
  "at c p s bs \<longleftrightarrow> (reading c p s \<and> CBufferedFile_unread s = bs) \<or> (CBufferedFile_ended s \<and> bs = [])"

lemma read_at:
  assumes "reading c p s" "n \<le> 5000000"
  obtains s' where "CBufferedFile_read n s = (fst (file_read n (CBufferedFile_unread s)), s')"
    "n \<le> length (CBufferedFile_unread s) \<Longrightarrow> reading c p s' \<and> CBufferedFile_unread s' = drop n (CBufferedFile_unread s)"
    "\<not> n \<le> length (CBufferedFile_unread s) \<Longrightarrow> CBufferedFile_ended s'"
  using CBufferedFile_read_ok [of c 5000000 s n 4 p] assms
  by (auto simp: reading_def file_read_def split: if_splits)

lemma run_at:
  "reading c p s \<Longrightarrow> file_safe 5000000 q \<Longrightarrow> run file_read q (CBufferedFile_unread s) = (r, rest) \<Longrightarrow>
    \<exists>s'. run CBufferedFile_read q s = (r, s') \<and> at c p s' rest"
proof (induction q arbitrary: s)
  case (Read n k)
  let ?u = "CBufferedFile_unread s"
  obtain s' where s': "CBufferedFile_read n s = (fst (file_read n ?u), s')"
    "n \<le> length ?u \<Longrightarrow> reading c p s' \<and> CBufferedFile_unread s' = drop n ?u"
    "\<not> n \<le> length ?u \<Longrightarrow> CBufferedFile_ended s'"
    using read_at [OF Read.prems(1), of n] Read.prems(2) by auto
  show ?case
  proof (cases "n \<le> length ?u")
    case True
    then show ?thesis using s' Read by (auto simp: file_read_def)
  next
    case False
    then show ?thesis using s' Read.prems(3) by (auto simp: file_read_def at_def)
  qed
qed (auto simp: at_def)


text \<open>The blocks a file holds, as a function of its bytes.\<close>

function blocks_in :: "('s, 'r) mbedtls \<Rightarrow> byte list \<Rightarrow> CBlock list" where
  "blocks_in m bs =
     (if length bs < 8 then []
      else if le_word (take 4 (drop 4 bs)) = (0 :: u32) then []
      else if take 4 bs \<noteq> NET_MAGIC \<or> take 4 (drop 8 bs) = NET_MAGIC then blocks_in m (drop 8 bs)
      else
        (case run file_read (CBlock_Unserialize m PROTOCOL_VERSION CBlock_new) (drop 8 bs) of
           (r, rest) \<Rightarrow> (case r of Inr blk \<Rightarrow> [blk] | Inl x \<Rightarrow> []) @ blocks_in m rest))"
  by pat_completeness auto
termination
proof (relation "measure (\<lambda>(m, bs). length bs)", goal_cases)
  case (3 m bs r rest)
  then have "length rest \<le> length (drop 8 bs)" by (intro file_read_shorter [of _ "drop 8 bs" r]) simp
  with 3 show ?case by simp
qed auto

declare blocks_in.simps [simp del]

text \<open>The blocks stored one after the other, up to the first error.\<close>

fun store_all ::
  "'e lmdb \<Rightarrow> ('s, 'r) mbedtls \<Rightarrow> int \<Rightarrow> CBlock list \<Rightarrow> 'e \<Rightarrow> (int option, 'e) outcome option" where
  "store_all L m mode [] e = Some (Val None e)"
| "store_all L m mode (blk # blks) e =
     (case store_block L m mode blk e of
        None \<Rightarrow> None
      | Some r \<Rightarrow>
          (case r of
             Val (Returned err) e' \<Rightarrow> Some (Val (Some err) e')
           | Val _ e' \<Rightarrow> store_all L m mode blks e'
           | Exc e' \<Rightarrow> Some (Exc e')
           | Fault f \<Rightarrow> Some (Fault f)))"

lemma CBlock_SetNull_new: "CBlock_SetNull CBlock_new = CBlock_new"
  by (simp add: CBlock_SetNull_def CBlockHeader_SetNull_def CBlock_new_def base_blob_SetNull_def base_blob_new_def)

lemma reading_later: "reading c p s \<Longrightarrow> p \<le> max q (unat (bf_nReadPos s)) \<Longrightarrow> reading c q s"
  by (auto simp: reading_def CBufferedFile_fresh_def)

lemma reading_step:
  assumes "reading c p s" "n \<le> 5000000" "n \<le> length (CBufferedFile_unread s)"
  obtains s' where "CBufferedFile_read n s = (Inr (take n (CBufferedFile_unread s)), s')" "reading c p s'"
    "CBufferedFile_unread s' = drop n (CBufferedFile_unread s)" "unat (bf_nReadPos s') = unat (bf_nReadPos s) + n"
proof -
  obtain s' where s': "CBufferedFile_read n s = (Inr (take n (CBufferedFile_unread s)), s')" "reading c p s'"
    "CBufferedFile_unread s' = drop n (CBufferedFile_unread s)"
    by (rule read_at [OF assms(1,2)]) (use assms(3) in \<open>simp add: file_read_def\<close>)
  have "unat (bf_nReadPos s') = unat (bf_nReadPos s) + n"
  proof -
    have "length (CBufferedFile_unread s) + unat (bf_nReadPos s) = length c" if "reading c p s" for s
      using reading_unread [OF that] by simp
    from this [OF s'(2)] this [OF assms(1)] show ?thesis using assms(3) s'(3) by simp
  qed
  with s' show thesis by (rule that)
qed

lemma reading_end:
  assumes "reading c p s" "n \<le> 5000000" "\<not> n \<le> length (CBufferedFile_unread s)"
  obtains s' where "CBufferedFile_read n s = (Inl End_of_file, s')" "CBufferedFile_ended s'"
  by (rule read_at [OF assms(1,2)]) (use assms(3) in \<open>simp add: file_read_def\<close>)

lemma seek_back_reading:
  assumes "reading c p s" "p \<le> unat (bf_nReadPos s)" "4 \<le> unat (bf_nReadPos s)"
  obtains s' where "seek_back 4 s = (Inr (), s')" "reading c (unat (bf_nReadPos s)) s'"
    "CBufferedFile_unread s' = drop (unat (bf_nReadPos s) - 4) c"
proof -
  have pos: "unat (bf_nReadPos s - 4) = unat (bf_nReadPos s) - 4"
    using assms(3) by (simp add: unat_sub word_le_nat_alt)
  from assms(1) have inv: "CBufferedFile_inv c 5000000 s" "CBufferedFile_fresh 4 p s" by (simp_all add: reading_def)
  obtain s' where "CBufferedFile_SetPos (bf_nReadPos s - 4) s = (True, s')" "CBufferedFile_inv c 5000000 s'"
    "CBufferedFile_unread s' = drop (unat (bf_nReadPos s) - 4) c" "CBufferedFile_fresh 4 (unat (bf_nReadPos s)) s'"
    using CBufferedFile_SetPos_ok [OF inv assms(2), of "bf_nReadPos s - 4"] pos assms(3) by auto
  then show thesis by (intro that [of s']) (simp_all add: seek_back_def reading_def)
qed

text \<open>Between the turns of the loop at most four bytes were gone back.\<close>

abbreviation between :: "byte list \<Rightarrow> CBufferedFile \<Rightarrow> bool" where
  "between c s \<equiv> reading c (unat (bf_nReadPos s) + 4) s"

lemma run_array: "run rd (Unserialize_array n) s = rd n s"
  by (simp add: Unserialize_array_def split: prod.splits sum.splits)

lemma run_read32: "run rd ser_readdata32 s = (case rd 4 s of (Inl x, s') \<Rightarrow> (Inl x, s') | (Inr bs, s') \<Rightarrow>
    (Inr (le32toh target (word_of_mem target bs)), s'))"
  by (simp add: ser_readdata32_def split: prod.splits sum.splits)

lemma next_record_head:
  assumes "between c s" "8 \<le> length (CBufferedFile_unread s)"
  obtains s' where "reading c (unat (bf_nReadPos s) + 4) s'" "CBufferedFile_unread s' = drop 8 (CBufferedFile_unread s)"
    "unat (bf_nReadPos s') = unat (bf_nReadPos s) + 8"
    "next_record m s =
      (if le_word (take 4 (drop 4 (CBufferedFile_unread s))) = (0 :: u32) then (Inr End_of_records, s')
       else if take 4 (CBufferedFile_unread s) \<noteq> NET_MAGIC then (Inr Nothing, s')
       else
         then_do (run CBufferedFile_read (Unserialize_array 4)) (\<lambda>net_magic.
         then_do (seek_back 4) (\<lambda>_.
           if net_magic = NET_MAGIC then Pair (Inr Nothing)
           else
             then_do (run CBufferedFile_read (CBlock_Unserialize m PROTOCOL_VERSION CBlock_new))
               (\<lambda>blk. Pair (Inr (Found blk))))) s')"
proof -
  let ?u = "CBufferedFile_unread s"
  obtain s1 where s1: "CBufferedFile_read 4 s = (Inr (take 4 ?u), s1)" "reading c (unat (bf_nReadPos s) + 4) s1"
    "CBufferedFile_unread s1 = drop 4 ?u" "unat (bf_nReadPos s1) = unat (bf_nReadPos s) + 4"
    by (rule reading_step [OF assms(1), of 4]) (use assms(2) in auto)
  obtain s2 where s2: "CBufferedFile_read 4 s1 = (Inr (take 4 (drop 4 ?u)), s2)" "reading c (unat (bf_nReadPos s) + 4) s2"
    "CBufferedFile_unread s2 = drop 4 (drop 4 ?u)" "unat (bf_nReadPos s2) = unat (bf_nReadPos s1) + 4"
    by (rule reading_step [OF s1(2), of 4]) (use assms(2) s1(3) in auto)
  have "le32toh target (word_of_mem target (take 4 (drop 4 ?u))) = le_word (take 4 (drop 4 ?u))"
    using assms(2) by (intro little.le32_in) simp
  then show thesis
    using s1 s2
    by (intro that [of s2], unfold next_record_def CBlock_SetNull_new)
      (simp_all add: then_do_def [of "run CBufferedFile_read (Unserialize_array 4)" _ s]
        then_do_def [of "run CBufferedFile_read ser_readdata32" _ s1] run_array run_read32)
qed

lemma next_record_short:
  assumes "between c s" "length (CBufferedFile_unread s) < 8"
  obtains s' where "next_record m s = (Inl End_of_file, s')" "CBufferedFile_ended s'"
proof (cases "4 \<le> length (CBufferedFile_unread s)")
  case True
  obtain s1 where s1: "CBufferedFile_read 4 s = (Inr (take 4 (CBufferedFile_unread s)), s1)"
    "reading c (unat (bf_nReadPos s) + 4) s1" "CBufferedFile_unread s1 = drop 4 (CBufferedFile_unread s)"
    by (rule reading_step [OF assms(1) _ True]) auto
  obtain s2 where "CBufferedFile_read 4 s1 = (Inl End_of_file, s2)" "CBufferedFile_ended s2"
    by (rule reading_end [OF s1(2), of 4]) (use assms(2) s1(3) in auto)
  with s1 show thesis by (intro that [of s2]) (simp_all add: next_record_def then_do_def run_array run_read32)
next
  case False
  then obtain s1 where "CBufferedFile_read 4 s = (Inl End_of_file, s1)" "CBufferedFile_ended s1"
    by (rule reading_end [OF assms(1), of 4, rotated]) auto
  then show thesis by (intro that [of s1]) (simp_all add: next_record_def then_do_def run_array)
qed


text \<open>Behind magic and length: the look ahead, and the block.\<close>

lemma next_record_body:
  assumes "reading c p s" "p + 4 \<le> unat (bf_nReadPos s)"
    and "run file_read (CBlock_Unserialize m PROTOCOL_VERSION CBlock_new) (CBufferedFile_unread s) = (r, rest)"
  defines "body \<equiv> then_do (run CBufferedFile_read (Unserialize_array 4)) (\<lambda>net_magic.
         then_do (seek_back 4) (\<lambda>_.
           if net_magic = NET_MAGIC then Pair (Inr Nothing)
           else
             then_do (run CBufferedFile_read (CBlock_Unserialize m PROTOCOL_VERSION CBlock_new))
               (\<lambda>blk. Pair (Inr (Found blk)))))"
  shows "if take 4 (CBufferedFile_unread s) = NET_MAGIC
    then \<exists>s'. body s = (Inr Nothing, s') \<and> between c s' \<and> CBufferedFile_unread s' = CBufferedFile_unread s
    else \<exists>s'. body s = ((case r of Inl x \<Rightarrow> Inl x | Inr blk \<Rightarrow> Inr (Found blk)), s')
      \<and> (between c s' \<and> CBufferedFile_unread s' = rest \<or> CBufferedFile_ended s' \<and> rest = [])"
proof (cases "4 \<le> length (CBufferedFile_unread s)")
  case False
  obtain s1 where s1: "CBufferedFile_read 4 s = (Inl End_of_file, s1)" "CBufferedFile_ended s1"
    by (rule reading_end [OF assms(1) _ False]) simp
  have "r = Inl End_of_file" "rest = []"
    using assms(3) False
    by (simp_all add: CBlock_Unserialize_def CBlockHeader_Unserialize_def ser_readdata32_def file_read_def)
  moreover have "take 4 (CBufferedFile_unread s) \<noteq> NET_MAGIC" using False by (auto simp: NET_MAGIC_def dest: arg_cong [where f = length])
  ultimately show ?thesis using s1 by (simp add: body_def then_do_def run_array)
next
  case True
  let ?u = "CBufferedFile_unread s"
  obtain s1 where s1: "CBufferedFile_read 4 s = (Inr (take 4 ?u), s1)" "reading c p s1"
    "CBufferedFile_unread s1 = drop 4 ?u" "unat (bf_nReadPos s1) = unat (bf_nReadPos s) + 4"
    by (rule reading_step [OF assms(1) _ True]) simp_all
  obtain s2 where s2: "seek_back 4 s1 = (Inr (), s2)" "reading c (unat (bf_nReadPos s1)) s2"
    "CBufferedFile_unread s2 = drop (unat (bf_nReadPos s1) - 4) c"
    by (rule seek_back_reading [OF s1(2)]) (use assms(2) s1(4) in simp_all)
  have unread: "CBufferedFile_unread s2 = ?u" using s2(3) s1(4) reading_unread(1) [OF assms(1)] by simp
  then have pos: "unat (bf_nReadPos s2) = unat (bf_nReadPos s)"
    using reading_pos [OF s2(2)] reading_pos [OF assms(1)] by simp
  have body: "body s = (if take 4 ?u = NET_MAGIC then (Inr Nothing, s2)
      else then_do (run CBufferedFile_read (CBlock_Unserialize m PROTOCOL_VERSION CBlock_new)) (\<lambda>blk. Pair (Inr (Found blk))) s2)"
    using s1(1) s2(1) by (simp add: body_def then_do_def [of "run CBufferedFile_read (Unserialize_array 4)" _ s]
        then_do_def [of "seek_back 4"] run_array)
  obtain s3 where s3: "run CBufferedFile_read (CBlock_Unserialize m PROTOCOL_VERSION CBlock_new) s2 = (r, s3)"
    "at c (unat (bf_nReadPos s1)) s3 rest"
    using run_at [OF s2(2) safe_block, of m PROTOCOL_VERSION CBlock_new r rest] assms(3) unread by auto
  have "length rest \<le> length ?u" by (rule file_read_shorter [OF assms(3)])
  then have later: "between c s3" if "reading c (unat (bf_nReadPos s1)) s3" "CBufferedFile_unread s3 = rest"
    using that(1) reading_pos [OF that(1)] reading_pos [OF s2(2)] that(2) unread s1(4) pos
    by (intro reading_later [OF that(1)]) simp
  have "between c s2" using s2(2) s1(4) pos by simp
  moreover have "then_do (run CBufferedFile_read (CBlock_Unserialize m PROTOCOL_VERSION CBlock_new)) (\<lambda>blk. Pair (Inr (Found blk))) s2
      = ((case r of Inl x \<Rightarrow> Inl x | Inr blk \<Rightarrow> Inr (Found blk)), s3)"
    using s3(1) by (simp add: then_do_def split: sum.splits)
  ultimately show ?thesis using body unread s3(2) later by (auto simp: at_def)
qed

text \<open>The loop over a file stores the blocks that its bytes hold.\<close>

lemma load_file_ended: "CBufferedFile_ended s \<Longrightarrow> load_file L m mode s e = Some (Val None e)"
  by (simp add: load_file.simps [of L m mode s e] CBufferedFile_ended_def)

lemma load_file_turn:
  assumes "bf_src s \<noteq> None" "\<not> CBufferedFile_eof s"
  shows "next_record m s = (Inl x, s') \<Longrightarrow> is_failure x \<Longrightarrow> load_file L m mode s e = load_file L m mode s' e"
    "next_record m s = (Inr End_of_records, s') \<Longrightarrow> load_file L m mode s e = Some (Val None e)"
    "next_record m s = (Inr Nothing, s') \<Longrightarrow> load_file L m mode s e = load_file L m mode s' e"
    "next_record m s = (Inr (Found blk), s') \<Longrightarrow> (\<And>e. load_file L m mode s' e = store_all L m mode blks e)
      \<Longrightarrow> load_file L m mode s e = store_all L m mode (blk # blks) e"
  unfolding load_file.simps [of L m mode s e] if_not_P [OF assms(1)] if_not_P [OF assms(2)]
  by (simp_all add: is_failure_def split: option.splits outcome.splits attempt.splits)

lemma between_open:
  assumes "between c s" "CBufferedFile_unread s \<noteq> []"
  shows "bf_src s \<noteq> None" "\<not> CBufferedFile_eof s"
  using assms
  by (auto simp: CBufferedFile_eof_def reading_def CBufferedFile_inv_def FILE_ok_def CBufferedFile_unread_def)

lemma between_at_end:
  assumes "between c s" "CBufferedFile_unread s = []"
  shows "load_file L m mode s e = Some (Val None e)"
proof (cases "CBufferedFile_eof s")
  case True
  then have "CBufferedFile_ended s" using assms(1)
    by (auto simp: CBufferedFile_ended_def reading_def CBufferedFile_inv_def)
  then show ?thesis by (rule load_file_ended)
next
  case False
  obtain s' where s': "next_record m s = (Inl End_of_file, s')" "CBufferedFile_ended s'"
    by (rule next_record_short [OF assms(1)]) (use assms(2) in auto)
  have "bf_src s \<noteq> None" using assms(1) by (auto simp: reading_def CBufferedFile_inv_def)
  from load_file_turn(1) [OF this False s'(1)] show ?thesis by (simp add: is_failure_def load_file_ended [OF s'(2)])
qed

lemma next_record_spec:
  assumes "between c s" "CBufferedFile_unread s = bs" "8 \<le> length bs"
    and block: "run file_read (CBlock_Unserialize m PROTOCOL_VERSION CBlock_new) (drop 8 bs) = (r, rest)"
  shows "if le_word (take 4 (drop 4 bs)) = (0 :: u32) then \<exists>s'. next_record m s = (Inr End_of_records, s')
    else if take 4 bs \<noteq> NET_MAGIC \<or> take 4 (drop 8 bs) = NET_MAGIC
    then \<exists>s'. next_record m s = (Inr Nothing, s') \<and> between c s' \<and> CBufferedFile_unread s' = drop 8 bs
    else \<exists>s'. next_record m s = ((case r of Inl x \<Rightarrow> Inl x | Inr blk \<Rightarrow> Inr (Found blk)), s')
      \<and> (between c s' \<and> CBufferedFile_unread s' = rest \<or> CBufferedFile_ended s' \<and> rest = [])"
proof -
  obtain s' where s': "reading c (unat (bf_nReadPos s) + 4) s'" "CBufferedFile_unread s' = drop 8 bs"
    "unat (bf_nReadPos s') = unat (bf_nReadPos s) + 8" and head: "next_record m s =
      (if le_word (take 4 (drop 4 bs)) = (0 :: u32) then (Inr End_of_records, s')
       else if take 4 bs \<noteq> NET_MAGIC then (Inr Nothing, s')
       else
         then_do (run CBufferedFile_read (Unserialize_array 4)) (\<lambda>net_magic.
         then_do (seek_back 4) (\<lambda>_.
           if net_magic = NET_MAGIC then Pair (Inr Nothing)
           else
             then_do (run CBufferedFile_read (CBlock_Unserialize m PROTOCOL_VERSION CBlock_new))
               (\<lambda>blk. Pair (Inr (Found blk))))) s')"
    by (rule next_record_head [OF assms(1), of m]) (use assms(2,3) in auto)
  have "between c s'" by (rule reading_later [OF s'(1)]) (simp add: s'(3))
  then show ?thesis
    using head s'(2) next_record_body [OF s'(1) _ block [folded s'(2)], unfolded s'(2,3)] by auto
qed

lemma load_file_at:
  "(between c s \<and> CBufferedFile_unread s = bs) \<or> (CBufferedFile_ended s \<and> bs = []) \<Longrightarrow>
    load_file L m mode s e = store_all L m mode (blocks_in m bs) e"
proof (induction "length bs" arbitrary: s bs e rule: less_induct)
  case less
  note spec = blocks_in.simps [of m bs]
  obtain r rest where block: "run file_read (CBlock_Unserialize m PROTOCOL_VERSION CBlock_new) (drop 8 bs) = (r, rest)"
    by (cases "run file_read (CBlock_Unserialize m PROTOCOL_VERSION CBlock_new) (drop 8 bs)")
  consider "bs = []" | "between c s" "CBufferedFile_unread s = bs" "bs \<noteq> []" "length bs < 8"
    | "between c s" "CBufferedFile_unread s = bs" "bs \<noteq> []" "8 \<le> length bs" using less.prems by fastforce
  then show ?case
  proof cases
    case 1
    have "load_file L m mode s e = Some (Val None e)"
      using less.prems 1 by (auto intro: load_file_ended between_at_end)
    then show ?thesis using 1 by (simp add: blocks_in.simps)
  next
    case 2
    note turn = load_file_turn [OF between_open [OF 2(1)], unfolded 2(2), OF 2(3) 2(3)]
    obtain s' where s': "next_record m s = (Inl End_of_file, s')" "CBufferedFile_ended s'"
      by (rule next_record_short [OF 2(1)]) (use 2 in auto)
    show ?thesis
      using 2 by (simp add: turn(1) [OF s'(1)] load_file_ended [OF s'(2)] spec is_failure_def)
  next
    case 3
    note turn = load_file_turn [OF between_open [OF 3(1)], unfolded 3(2), OF 3(3) 3(3)]
    note next_is = next_record_spec [OF 3(1,2,4) block]
    have shorter: "length (drop 8 bs) < length bs" "length rest < length bs"
      using file_read_shorter [OF block] 3(4) by simp_all
    consider "le_word (take 4 (drop 4 bs)) = (0 :: u32)"
      | "le_word (take 4 (drop 4 bs)) \<noteq> (0 :: u32)" "take 4 bs \<noteq> NET_MAGIC \<or> take 4 (drop 8 bs) = NET_MAGIC"
      | "le_word (take 4 (drop 4 bs)) \<noteq> (0 :: u32)" "\<not> (take 4 bs \<noteq> NET_MAGIC \<or> take 4 (drop 8 bs) = NET_MAGIC)"
      by blast
    then show ?thesis
    proof cases
      case 1
      with next_is turn(2) 3(4) show ?thesis by (auto simp: spec)
    next
      case 2
      with next_is obtain s' where s': "next_record m s = (Inr Nothing, s')" "between c s'"
        "CBufferedFile_unread s' = drop 8 bs" by auto
      have "load_file L m mode s e = store_all L m mode (blocks_in m (drop 8 bs)) e"
        unfolding turn(3) [OF s'(1)] by (rule less.hyps [OF shorter(1) disjI1 [OF conjI [OF s'(2,3)]]])
      then show ?thesis using 2 3(4) by (simp add: spec)
    next
      case next_block: 3
      with next_is obtain s' where
        found: "next_record m s = ((case r of Inl x \<Rightarrow> Inl x | Inr blk \<Rightarrow> Inr (Found blk)), s')" and
        at: "between c s' \<and> CBufferedFile_unread s' = rest \<or> CBufferedFile_ended s' \<and> rest = []" by auto
      note IH = less.hyps [OF shorter(2) at]
      have "blocks_in m bs = (case r of Inr blk \<Rightarrow> [blk] | Inl x \<Rightarrow> []) @ blocks_in m rest"
        using next_block 3(4) by (simp add: spec block)
      moreover have "is_failure x" if "r = Inl x" for x
        using file_read_throws [OF safe_block] block that by blast
      ultimately show ?thesis using found IH by (cases r) (simp_all add: turn(1,4))
    qed
  qed
qed

lemma new_file_between:
  assumes "FILE_ok f" "f_offset f = 0" "length (f_content f) < 2 ^ 63"
  shows "between (f_content f) (CBufferedFile_new (Some f) PRELOAD_BUFFER_SIZE 4)"
    "CBufferedFile_unread (CBufferedFile_new (Some f) PRELOAD_BUFFER_SIZE 4) = f_content f"
proof -
  have sizes: "0 < unat PRELOAD_BUFFER_SIZE" "unat PRELOAD_BUFFER_SIZE < 2 ^ 32"
    "length (f_content f) + unat PRELOAD_BUFFER_SIZE < 2 ^ 64 - 1"
    "5000000 + unat (4 :: u64) \<le> unat PRELOAD_BUFFER_SIZE"
    using assms(3) by (simp_all add: PRELOAD_BUFFER_SIZE_def)
  note new = CBufferedFile_new_inv [OF assms(1,2) sizes]
  have "reading (f_content f) 0 (CBufferedFile_new (Some f) PRELOAD_BUFFER_SIZE 4)"
    using new(1,2) by (simp add: reading_def)
  then show "between (f_content f) (CBufferedFile_new (Some f) PRELOAD_BUFFER_SIZE 4)"
    by (rule reading_later) simp
  show "CBufferedFile_unread (CBufferedFile_new (Some f) PRELOAD_BUFFER_SIZE 4) = f_content f" by (rule new(3))
qed

lemma new_file_at:
  assumes "FILE_ok f" "f_offset f = 0" "length (f_content f) < 2 ^ 63"
  shows "load_file L m mode (CBufferedFile_new (Some f) PRELOAD_BUFFER_SIZE 4) e
    = store_all L m mode (blocks_in m (f_content f)) e"
  using new_file_between [OF assms] by (intro load_file_at disjI1 conjI)


subsection \<open>All files\<close>

definition readable :: "FILE option \<Rightarrow> bool" where
  "readable bf_p \<longleftrightarrow> (\<exists>f. bf_p = Some f \<and> FILE_ok f \<and> f_offset f = 0 \<and> length (f_content f) < 2 ^ 63)"

text \<open>What storing some blocks, or loading some files, may come to when every call of LMDB comes back.\<close>

definition comes_back :: "'e lmdb \<Rightarrow> ('x, 'e) outcome option \<Rightarrow> bool" where
  "comes_back L r \<longleftrightarrow>
     (case r of
        None \<Rightarrow> False
      | Some (Val x e') \<Rightarrow> True
      | Some (Exc e') \<Rightarrow> False
      | Some (Fault f) \<Rightarrow> unset_cursor L f)"

lemma store_all_comes_back:
  assumes "grows L msize limit"
  shows "comes_back L (store_all L m mode blks e)"
proof (induction blks arbitrary: e)
  case (Cons blk blks)
  consider (ended) a e' where "store_block L m mode blk e = Some (Val a e')" "a \<noteq> Again"
    | (unset) "store_block L m mode blk e = Some (Fault Indeterminate_value)" "unset_cursor L Indeterminate_value"
    using store_block_terminates [OF assms, of m mode blk e] by blast
  then show ?case
  proof cases
    case (ended a e')
    then show ?thesis using Cons by (cases a) (simp_all add: comes_back_def)
  qed (simp add: comes_back_def)
qed (simp add: comes_back_def)

lemma store_all_keeps:
  assumes L: "lmdb_laws L V"
  shows "\<not> dup_sorted (committed V e) DBI_BLK \<Longrightarrow> store_all L m mode blks e = Some (Val err e') \<Longrightarrow>
    \<not> dup_sorted (committed V e') DBI_BLK \<and> lost V e \<le> lost V e' \<and> refused V e \<le> refused V e'
    \<and> (err \<noteq> None \<longrightarrow> refused V e < refused V e')
    \<and> (lost V e' = lost V e \<longrightarrow>
        (\<exists>k. (err = None \<longrightarrow> k = length blks) \<and> (err \<noteq> None \<longrightarrow> k < length blks)
           \<and> committed V e' = fold (add_block m mode) (take k blks) (committed V e)))"
proof (induction blks arbitrary: e)
  case (Cons blk blks)
  obtain a e1 where first: "store_block L m mode blk e = Some (Val a e1)"
    using Cons.prems(2) by (auto split: option.splits outcome.splits)
  from store_block_adds [OF first L Cons.prems(1)] have effect: "a \<noteq> Again" "attempt_effect V m mode blk e a e1" by simp_all
  show ?case
  proof (cases a)
    case Committed
    have here: "\<not> dup_sorted (committed V e1) DBI_BLK" "refused V e \<le> refused V e1" "lost V e \<le> lost V e1"
      "lost V e1 = lost V e \<longrightarrow> committed V e1 = add_block m mode blk (committed V e)"
      using effect Committed Cons.prems(1) block_keeps_blk [of "committed V e" m mode blk]
      by (auto simp: attempt_effect_def DBI_BLK_def)
    have rest: "store_all L m mode blks e1 = Some (Val err e')" using Cons.prems(2) first Committed by simp
    note IH = Cons.IH [OF here(1) rest]
    have "\<exists>k. (err = None \<longrightarrow> k = length (blk # blks)) \<and> (err \<noteq> None \<longrightarrow> k < length (blk # blks))
        \<and> committed V e' = fold (add_block m mode) (take k (blk # blks)) (committed V e)"
      if same: "lost V e' = lost V e"
    proof -
      have "lost V e' = lost V e1" "lost V e1 = lost V e" using same IH here(3) by simp_all
      with IH here(4) obtain k where "(err = None \<longrightarrow> k = length blks) \<and> (err \<noteq> None \<longrightarrow> k < length blks)
        \<and> committed V e' = fold (add_block m mode) (take k blks) (add_block m mode blk (committed V e))" by auto
      then show ?thesis by (intro exI [of _ "Suc k"]) simp
    qed
    then show ?thesis using IH here by auto
  next
    case (Returned x)
    then have "err = Some x" "e' = e1" "undisturbed V e e1" "refused V e < refused V e1"
      using Cons.prems(2) first effect by (auto simp: attempt_effect_def stopped_def)
    then show ?thesis using Cons.prems(1) by (auto simp: undisturbed_def intro!: exI [of _ 0])
  qed (use effect in simp)
qed simp

lemma preload_func_comes_back:
  assumes "grows L msize limit" "\<forall>f \<in> set files. readable f"
  shows "preload_func L m mode files e = Some (Fault Missing_return) \<or> comes_back L (preload_func L m mode files e)"
  using assms(2)
proof (induction files arbitrary: e)
  case (Cons bf_p files)
  then obtain f where f: "bf_p = Some f" "FILE_ok f" "f_offset f = 0" "length (f_content f) < 2 ^ 63"
    by (auto simp: readable_def)
  let ?r = "load_file L m mode (CBufferedFile_new bf_p PRELOAD_BUFFER_SIZE 4) e"
  have "?r = store_all L m mode (blocks_in m (f_content f)) e"
    unfolding f(1) by (rule new_file_at [OF f(2-4)])
  then have ends: "comes_back L ?r" using store_all_comes_back [OF assms(1)] by metis
  have rest: "preload_func L m mode files e' = Some (Fault Missing_return) \<or> comes_back L (preload_func L m mode files e')" for e'
    using Cons.IH [of e'] Cons.prems by simp
  show ?case
  proof (cases ?r)
    case (Some r)
    then show ?thesis
    proof (cases r)
      case (Val err e')
      then show ?thesis using Some rest by (cases err) (simp_all add: comes_back_def)
    qed (use ends Some in \<open>simp_all add: comes_back_def\<close>)
  qed (use ends in \<open>simp add: comes_back_def\<close>)
qed simp

lemma preload_func_returns:
  assumes "lmdb_laws L V" "\<forall>f \<in> set files. readable f"
  shows "\<not> dup_sorted (committed V e) DBI_BLK \<Longrightarrow> preload_func L m mode files e = Some (Val err e') \<Longrightarrow>
    \<not> dup_sorted (committed V e') DBI_BLK \<and> refused V e < refused V e'"
  using assms(2)
proof (induction files arbitrary: e)
  case (Cons bf_p files)
  then obtain f where f: "bf_p = Some f" "FILE_ok f" "f_offset f = 0" "length (f_content f) < 2 ^ 63"
    by (auto simp: readable_def)
  have "load_file L m mode (CBufferedFile_new bf_p PRELOAD_BUFFER_SIZE 4) e = store_all L m mode (blocks_in m (f_content f)) e"
    unfolding f(1) by (rule new_file_at [OF f(2-4)])
  with Cons.prems(2) obtain r e1 where first: "store_all L m mode (blocks_in m (f_content f)) e = Some (Val r e1)"
    and rest: "load_file L m mode (CBufferedFile_new bf_p PRELOAD_BUFFER_SIZE 4) e = Some (Val r e1)"
    by (auto split: option.splits outcome.splits)
  note kept = store_all_keeps [OF assms(1) Cons.prems(1) first]
  show ?case
  proof (cases r)
    case None
    have synced: "undisturbed V e1 (snd (mdb_env_sync L True e1))" by (rule always_snd [OF lmdb_calls(12) [OF assms(1)]])
    have "preload_func L m mode files (snd (mdb_env_sync L True e1)) = Some (Val err e')"
      using Cons.prems(2) rest None by simp
    with Cons.IH [of "snd (mdb_env_sync L True e1)"] synced kept Cons.prems(3) show ?thesis
      by (auto simp: undisturbed_def)
  qed (use Cons.prems(2) rest kept in simp)
qed simp

subsection \<open>A file of blocks\<close>

definition block_record :: "CBlock \<Rightarrow> byte list" where
  "block_record blk =
     (let bs = bytes_written (CBlock_Serialize PROTOCOL_VERSION blk)
      in NET_MAGIC @ le_bytes 4 (of_nat (length bs) :: u32) @ bs)"

text \<open>A block that a stream can carry, that does not look like the magic and whose length is not zero.\<close>

definition storable :: "('s, 'r) mbedtls \<Rightarrow> CBlock \<Rightarrow> bool" where
  "storable m blk \<longleftrightarrow>
     header_ok blk \<and> vec_ok (tx_carried m PROTOCOL_VERSION) (vtx blk) \<and> \<not> fChecked blk
     \<and> le_bytes 4 (bh_nVersion blk) \<noteq> NET_MAGIC
     \<and> length (bytes_written (CBlock_Serialize PROTOCOL_VERSION blk)) < 2 ^ 32"

lemma blocks_in_padding: "blocks_in m (replicate k 0) = []"
proof -
  have "le_word (take 4 (drop 4 (replicate k (0 :: byte)))) = (0 :: u32)" if "8 \<le> k"
  proof -
    have "take 4 (drop 4 (replicate k (0 :: byte))) = replicate 4 0" using that by simp
    then show ?thesis by (simp add: numeral_eq_Suc)
  qed
  then show ?thesis by (simp add: blocks_in.simps)
qed

lemma block_starts:
  "take 4 (bytes_written (CBlock_Serialize v blk) @ rest) = le_bytes 4 (bh_nVersion blk)"
  by (simp add: CBlock_Serialize_def CBlockHeader_Serialize_def write_simps)

lemma blocks_in_record:
  assumes "storable m blk"
  shows "blocks_in m (block_record blk @ rest) = blk # blocks_in m rest"
proof -
  define bs where "bs = bytes_written (CBlock_Serialize PROTOCOL_VERSION blk)"
  have rec: "block_record blk @ rest = NET_MAGIC @ le_bytes 4 (of_nat (length bs) :: u32) @ bs @ rest"
    by (simp add: block_record_def bs_def Let_def)
  have "length (take 4 bs) = 4" using block_starts [of PROTOCOL_VERSION blk "[]"] by (simp add: bs_def)
  then have "0 < length bs" "length bs < 2 ^ 32" using assms by (auto simp: storable_def bs_def)
  moreover from this have "unat (of_nat (length bs) :: u32) = length bs"
    by (simp add: unsigned_of_nat take_bit_nat_eq_self_iff)
  ultimately have "of_nat (length bs) \<noteq> (0 :: u32)" by auto
  moreover have "take 4 (bs @ rest) \<noteq> NET_MAGIC"
    using assms unfolding bs_def block_starts by (simp add: storable_def)
  moreover have "run file_read (CBlock_Unserialize m PROTOCOL_VERSION CBlock_new) (bs @ rest) = (Inr blk, rest)"
    unfolding bs_def using assms
    by (intro file_read_of_list block_read) (simp_all add: storable_def CBlock_new_def)
  moreover have "take 4 (block_record blk @ rest) = NET_MAGIC" "take 4 (drop 4 (block_record blk @ rest)) = le_bytes 4 (of_nat (length bs) :: u32)"
    "drop 8 (block_record blk @ rest) = bs @ rest" "\<not> length (block_record blk @ rest) < 8"
    unfolding rec by (simp_all add: NET_MAGIC_def)
  ultimately show ?thesis
    by (simp add: blocks_in.simps [of m "block_record blk @ rest"] le_word_le_bytes_id)
qed

lemma blocks_in_records:
  "\<forall>blk \<in> set blks. storable m blk \<Longrightarrow> blocks_in m (concat (map block_record blks) @ replicate k 0) = blks"
  by (induction blks) (simp_all add: blocks_in_padding blocks_in_record)


lemma storable_sample: "storable buffering sample_block"
proof -
  have "allow_witness PROTOCOL_VERSION"
    by (simp add: allow_witness_def PROTOCOL_VERSION_def SERIALIZE_TRANSACTION_NO_WITNESS_def)
  note tx = tx_carried_sample [OF this]
  have "length (bytes_written (CBlock_Serialize PROTOCOL_VERSION sample_block)) < 2 ^ 32"
    by (simp add: CBlock_Serialize_def CBlockHeader_Serialize_def sample_block_def Serialize_vec_def
        CTransactionRef_Serialize_def SerializeTransaction_def sample_tx_def CTransaction_of_def Let_def write_simps
        HasWitness_def CScriptWitness_IsNull_def CTxIn_Serialize_def CTxOut_Serialize_def COutPoint_Serialize_def
        Serialize_blob_def Serialize_stack_def base_blob_Serialize_def base_blob_new_def WriteCompactSize_def)
  moreover have "le_bytes 4 (2 :: u32) \<noteq> NET_MAGIC" unfolding NET_MAGIC_def by code_simp
  ultimately show ?thesis
    using tx by (simp add: storable_def sample_block_def header_ok_def blob_ok_def base_blob_new_def max_size_eq)
qed

lemma block_record_length: "storable m blk \<Longrightarrow> length (block_record blk) < 2 ^ 33"
  by (simp add: storable_def block_record_def Let_def NET_MAGIC_def)

definition sample_file :: "byte list \<Rightarrow> FILE" where
  "sample_file c = \<lparr>f_content = c, f_offset = 0, f_readable = length c, f_capacity = length c, f_eof = False\<rparr>"

lemma sample_file_ok: "FILE_ok (sample_file c)" "f_offset (sample_file c) = 0" "f_content (sample_file c) = c"
  by (simp_all add: sample_file_def FILE_ok_def)

text \<open>A record of another network, the beginning of a record, a block, a truncated block.\<close>

definition damaged_file :: "byte list" where
  "damaged_file = [1, 2, 3, 4, 5, 6, 7, 8] @ NET_MAGIC @ [9, 9, 9, 9] @ block_record sample_block @ NET_MAGIC @ [1, 0, 0, 0, 5]"

lemma blocks_in_skip:
  assumes "length g = 4" "length l = 4" "le_word l \<noteq> (0 :: u32)" "g \<noteq> NET_MAGIC \<or> take 4 bs = NET_MAGIC"
  shows "blocks_in m (g @ l @ bs) = blocks_in m bs"
  using assms by (simp add: blocks_in.simps [of m "g @ l @ bs"])

lemma blocks_in_damaged: "blocks_in buffering damaged_file = [sample_block]"
proof -
  have tail: "blocks_in buffering (NET_MAGIC @ [1, 0, 0, 0, 5]) = []"
    by (simp add: blocks_in.simps NET_MAGIC_def CBlock_Unserialize_def CBlockHeader_Unserialize_def ser_readdata32_def
        file_read_def)
  have "blocks_in buffering (NET_MAGIC @ [9, 9, 9, 9] @ block_record sample_block @ NET_MAGIC @ [1, 0, 0, 0, 5])
      = [sample_block]"
    by (subst blocks_in_skip)
      (simp_all add: blocks_in_record [OF storable_sample] tail, simp_all add: NET_MAGIC_def block_record_def Let_def)
  moreover have "blocks_in buffering damaged_file
      = blocks_in buffering (NET_MAGIC @ [9, 9, 9, 9] @ block_record sample_block @ NET_MAGIC @ [1, 0, 0, 0, 5])"
    using blocks_in_skip [of "[1, 2, 3, 4]" "[5, 6, 7, 8]"] by (simp add: damaged_file_def NET_MAGIC_def)
  ultimately show ?thesis by simp
qed

subsection \<open>Properties\<close>

text \<open>(C6) Whatever a readable block file contains, the loop over it stores exactly the blocks that its bytes hold,
  in order, up to the first error of the database: the ring buffer, the look-ahead of four bytes with
  \<^verbatim>\<open>SetPos\<close>, records of another network, damaged blocks and a truncated end change nothing. And the loop ends,
  provided a map of some size is never reported full; it does not throw, and faults only where a cursor could
  not be opened.\<close>

theorem load_file_blocks:
  assumes "FILE_ok f" "f_offset f = 0" "length (f_content f) < 2 ^ 63"
    and "map_limit L msize limit" "limit + unat MAPSIZE_BASE_UNIT < 2 ^ 64"
  shows "load_file L m mode (CBufferedFile_new (Some f) PRELOAD_BUFFER_SIZE 4) e
      = store_all L m mode (blocks_in m (f_content f)) e
    \<and> (case load_file L m mode (CBufferedFile_new (Some f) PRELOAD_BUFFER_SIZE 4) e of
         None \<Rightarrow> False
       | Some (Val err e') \<Rightarrow> True
       | Some (Exc e') \<Rightarrow> False
       | Some (Fault x) \<Rightarrow> unset_cursor L x)"
  using new_file_at [OF assms(1-3), of L m mode e]
    store_all_comes_back [of L msize limit m mode "blocks_in m (f_content f)" e] assms(4,5)
  by (simp add: comes_back_def grows_def)

theorem load_file_blocks_witness:
  "load_file (memory_lmdb 0) buffering 0 (CBufferedFile_new (Some (sample_file damaged_file)) PRELOAD_BUFFER_SIZE 4) (memory_new 0 False)
    = store_all (memory_lmdb 0) buffering 0 [sample_block] (memory_new 0 False)"
proof -
  have "length (f_content (sample_file damaged_file)) < 2 ^ 63"
    using block_record_length [OF storable_sample] by (simp add: sample_file_ok damaged_file_def NET_MAGIC_def)
  from load_file_blocks [OF sample_file_ok(1,2) this, of "memory_lmdb 0" mem_size 0 buffering 0 "memory_new 0 False"]
    grows_memory [of 0]
  show ?thesis unfolding sample_file_ok(3) blocks_in_damaged by (simp add: grows_def unit_positive)
qed





end
