(* ===== verification/PreloadThreads.thy ===== *)
theory PreloadThreads
  imports Preload "HOL-Library.Multiset"
begin

section \<open>The threads of PreLoadBlocks\<close>

text \<open>
  \<^verbatim>\<open>PreLoadBlocks\<close> with all of its threads, as a step relation: any thread may take the next step. The
  threads share the iterator over the files and the database. Taking a file is one step under
  \<^verbatim>\<open>blks_pop_lock\<close>. LMDB lets one thread write at a time, from \<^verbatim>\<open>mdb_txn_begin\<close> to the commit or the abort,
  and wants the size of the map changed only while no transaction is active, so an attempt to store a
  block, with the growth of the map that may end it, is one step; between two attempts other threads may
  store theirs. What a turn of the loop does besides touches only the thread's own file.

  The function of a thread returns an \<^verbatim>\<open>int\<close>: the error that ends it. A thread that finds no file left flows
  off its end, and that is undefined, as is the use of a cursor that could not be opened. A thread whose
  behaviour is undefined takes no more steps, and is never joined: the second pass begins when every thread of
  the first has returned an error. C++ says nothing more of the other threads either; here they may go on, so
  that what is proved of all reachable states holds up to the first undefined step and for as long after it as
  the others go on undisturbed. A read that never ends has no step.
\<close>

datatype preload_thread = Idle | Reading CBufferedFile | Storing CBufferedFile CBlock | Ended int | Undefined fault

record 'e preload =
  pre_mode :: int
  pre_blks :: "FILE option list"
  pre_files :: "FILE option list"
  pre_threads :: "preload_thread list"
  pre_env :: 'e

definition thread_at :: "'e preload \<Rightarrow> nat \<Rightarrow> preload_thread \<Rightarrow> bool" where
  "thread_at P i t \<longleftrightarrow> i < length (pre_threads P) \<and> pre_threads P ! i = t"

definition move_thread :: "nat \<Rightarrow> preload_thread \<Rightarrow> 'e preload \<Rightarrow> 'e preload" where
  "move_thread i t P = P\<lparr>pre_threads := (pre_threads P)[i := t]\<rparr>"

definition synced :: "'e lmdb \<Rightarrow> 'e preload \<Rightarrow> 'e preload" where
  "synced L P = P\<lparr>pre_env := snd (mdb_env_sync L True (pre_env P))\<rparr>"

fun after_attempt :: "attempt \<Rightarrow> CBufferedFile \<Rightarrow> CBlock \<Rightarrow> preload_thread" where
  "after_attempt Again bf blk = Storing bf blk"
| "after_attempt Committed bf blk = Reading bf"
| "after_attempt (Returned err) bf blk = Ended err"

definition all_joined :: "'e preload \<Rightarrow> bool" where
  "all_joined P \<longleftrightarrow> (\<forall>t \<in> set (pre_threads P). \<exists>err. t = Ended err)"

inductive preload_step :: "'e lmdb \<Rightarrow> ('s, 'r) mbedtls \<Rightarrow> 'e preload \<Rightarrow> 'e preload \<Rightarrow> bool" for L m where
  take: "thread_at P i Idle \<Longrightarrow> pre_files P = bf_p # fs \<Longrightarrow>
    preload_step L m P (move_thread i (Reading (CBufferedFile_new bf_p PRELOAD_BUFFER_SIZE 4)) (P\<lparr>pre_files := fs\<rparr>))"
| none_left: "thread_at P i Idle \<Longrightarrow> pre_files P = [] \<Longrightarrow> preload_step L m P (move_thread i (Undefined Missing_return) P)"
| null_file: "thread_at P i (Reading bf) \<Longrightarrow> bf_src bf = None \<Longrightarrow>
    preload_step L m P (move_thread i (Undefined Null_dereference) P)"
| eof: "thread_at P i (Reading bf) \<Longrightarrow> bf_src bf \<noteq> None \<Longrightarrow> CBufferedFile_eof bf \<Longrightarrow>
    preload_step L m P (move_thread i Idle (synced L P))"
| caught: "thread_at P i (Reading bf) \<Longrightarrow> bf_src bf \<noteq> None \<Longrightarrow> \<not> CBufferedFile_eof bf \<Longrightarrow>
    next_record m bf = (Inl x, bf') \<Longrightarrow> is_failure x \<Longrightarrow> preload_step L m P (move_thread i (Reading bf') P)"
| wild_read: "thread_at P i (Reading bf) \<Longrightarrow> bf_src bf \<noteq> None \<Longrightarrow> \<not> CBufferedFile_eof bf \<Longrightarrow>
    next_record m bf = (Inl x, bf') \<Longrightarrow> x = Out_of_bounds_access \<or> x = Null_stream \<Longrightarrow>
    preload_step L m P (move_thread i (Undefined (if x = Null_stream then Null_dereference else Out_of_bounds)) P)"
| end_of_records: "thread_at P i (Reading bf) \<Longrightarrow> bf_src bf \<noteq> None \<Longrightarrow> \<not> CBufferedFile_eof bf \<Longrightarrow>
    next_record m bf = (Inr End_of_records, bf') \<Longrightarrow> preload_step L m P (move_thread i Idle (synced L P))"
| skipped: "thread_at P i (Reading bf) \<Longrightarrow> bf_src bf \<noteq> None \<Longrightarrow> \<not> CBufferedFile_eof bf \<Longrightarrow>
    next_record m bf = (Inr Nothing, bf') \<Longrightarrow> preload_step L m P (move_thread i (Reading bf') P)"
| found: "thread_at P i (Reading bf) \<Longrightarrow> bf_src bf \<noteq> None \<Longrightarrow> \<not> CBufferedFile_eof bf \<Longrightarrow>
    next_record m bf = (Inr (Found blk), bf') \<Longrightarrow> preload_step L m P (move_thread i (Storing bf' blk) P)"
| attempted: "thread_at P i (Storing bf blk) \<Longrightarrow> try_block L m (pre_mode P) blk (pre_env P) = Val a e' \<Longrightarrow>
    preload_step L m P (move_thread i (after_attempt a bf blk) (P\<lparr>pre_env := e'\<rparr>))"
| attempt_undefined: "thread_at P i (Storing bf blk) \<Longrightarrow> try_block L m (pre_mode P) blk (pre_env P) = Fault f \<Longrightarrow>
    preload_step L m P (move_thread i (Undefined f) P)"
| joined: "pre_mode P = 0 \<Longrightarrow> all_joined P \<Longrightarrow>
    preload_step L m P (P\<lparr>pre_mode := 1, pre_files := pre_blks P, pre_threads := replicate (length (pre_threads P)) Idle\<rparr>)"

definition preload_start :: "'e lmdb \<Rightarrow> nat \<Rightarrow> (string \<times> FILE option) list \<Rightarrow> 'e \<Rightarrow> 'e preload" where
  "preload_start L n path e =
     \<lparr>pre_mode = 0, pre_blks = block_files path, pre_files = block_files path, pre_threads = replicate n Idle,
      pre_env = snd (mdb_env_set_flags L MDB_NOSYNC True e)\<rparr>"

definition returned :: "'e preload \<Rightarrow> bool" where
  "returned P \<longleftrightarrow> pre_mode P = 1 \<and> all_joined P"

subsection \<open>What is left to store\<close>

definition reading_left :: "('s, 'r) mbedtls \<Rightarrow> CBufferedFile \<Rightarrow> CBlock list" where
  "reading_left m bf = (if CBufferedFile_ended bf then [] else blocks_in m (CBufferedFile_unread bf))"

fun blocks_left :: "('s, 'r) mbedtls \<Rightarrow> preload_thread \<Rightarrow> CBlock list" where
  "blocks_left m (Reading bf) = reading_left m bf"
| "blocks_left m (Storing bf blk) = blk # reading_left m bf"
| "blocks_left m _ = []"

definition reading_ok :: "CBufferedFile \<Rightarrow> bool" where
  "reading_ok bf \<longleftrightarrow> CBufferedFile_ended bf \<or> (\<exists>c. between c bf)"

fun thread_ok :: "preload_thread \<Rightarrow> bool" where
  "thread_ok (Reading bf) = reading_ok bf"
| "thread_ok (Storing bf blk) = reading_ok bf"
| "thread_ok _ = True"

definition file_blocks :: "('s, 'r) mbedtls \<Rightarrow> FILE option \<Rightarrow> CBlock list" where
  "file_blocks m bf_p = (case bf_p of Some f \<Rightarrow> blocks_in m (f_content f) | None \<Rightarrow> [])"

text \<open>The blocks of the files nobody has taken and those behind the threads' positions.\<close>

definition left :: "('s, 'r) mbedtls \<Rightarrow> 'e preload \<Rightarrow> CBlock multiset" where
  "left m P = sum_list (map (mset \<circ> file_blocks m) (pre_files P)) + sum_list (map (mset \<circ> blocks_left m) (pre_threads P))"

lemma sum_list_swap:
  fixes f :: "'a \<Rightarrow> 'b :: ab_semigroup_add" and g :: "'a \<Rightarrow> 'c :: comm_monoid_add"
  assumes "i < length xs"
  shows "sum_list (map g (xs[i := y])) + g (xs ! i) = sum_list (map g xs) + g y"
  using assms
proof (induction xs arbitrary: i)
  case (Cons x xs)
  then show ?case by (cases i) (simp_all add: add.commute add.left_commute add.assoc)
qed simp

lemma sum_list_empty: "\<forall>t \<in> set ts. g t = {#} \<Longrightarrow> sum_list (map g ts) = {#}"
  by (induction ts) auto

subsection \<open>A turn of a thread\<close>

text \<open>
  The work that is left, a bound on the steps that remain but for repeated attempts: two steps for what is
  unread, the next pass.
\<close>

definition reading_work :: "CBufferedFile \<Rightarrow> nat" where
  "reading_work bf = (if CBufferedFile_ended bf then 2 else 3 + length (CBufferedFile_unread bf))"

fun thread_work :: "preload_thread \<Rightarrow> nat" where
  "thread_work Idle = 1"
| "thread_work (Ended err) = 0"
| "thread_work (Undefined f) = 0"
| "thread_work (Reading bf) = 2 * reading_work bf"
| "thread_work (Storing bf blk) = 1 + 2 * reading_work bf"

definition file_work :: "FILE option \<Rightarrow> nat" where
  "file_work bf_p = (case bf_p of Some f \<Rightarrow> 8 + 2 * length (f_content f) | None \<Rightarrow> 8)"

definition work :: "'e preload \<Rightarrow> nat" where
  "work P = sum_list (map file_work (pre_files P)) + sum_list (map thread_work (pre_threads P))
     + (if pre_mode P = 0 then 1 + length (pre_threads P) + sum_list (map file_work (pre_blks P)) else 0)"

lemma blocks_in_Nil [simp]: "blocks_in m [] = []"
  by (simp add: blocks_in.simps)

lemma reading_left_between:
  assumes "between c s"
  shows "reading_left m s = blocks_in m (CBufferedFile_unread s)"
proof (cases "CBufferedFile_ended s")
  case True
  then have "CBufferedFile_unread s = []"
    using between_open [OF assms] by (auto simp: CBufferedFile_ended_def)
  then show ?thesis by (simp add: reading_left_def)
qed (simp add: reading_left_def)

lemma reading_at:
  assumes "between c s \<and> CBufferedFile_unread s = bs \<or> CBufferedFile_ended s \<and> bs = []"
  shows "reading_ok s" "reading_left m s = blocks_in m bs" "reading_work s \<le> 3 + length bs"
  using assms reading_left_between [of c s m]
  by (auto simp: reading_ok_def reading_work_def reading_left_def)

lemma reading_turn:
  assumes "reading_ok bf" "bf_src bf \<noteq> None" "\<not> CBufferedFile_eof bf"
  obtains (caught) x bf' where "next_record m bf = (Inl x, bf')" "is_failure x" "reading_ok bf'"
      "reading_left m bf' = reading_left m bf" "reading_work bf' < reading_work bf"
  | (ended) bf' where "next_record m bf = (Inr End_of_records, bf')" "reading_left m bf = []"
  | (skipped) bf' where "next_record m bf = (Inr Nothing, bf')" "reading_ok bf'"
      "reading_left m bf' = reading_left m bf" "reading_work bf' < reading_work bf"
  | (stored) blk bf' where "next_record m bf = (Inr (Found blk), bf')" "reading_ok bf'"
      "reading_left m bf = blk # reading_left m bf'" "reading_work bf' < reading_work bf"
proof -
  have open_file: "\<not> CBufferedFile_ended bf" using assms(3) by (simp add: CBufferedFile_ended_def)
  then obtain c where c: "between c bf" using assms(1) by (auto simp: reading_ok_def)
  define bs where "bs = CBufferedFile_unread bf"
  have left: "reading_left m bf = blocks_in m bs" using reading_left_between [OF c] by (simp add: bs_def)
  have work: "reading_work bf = 3 + length bs" using open_file by (simp add: reading_work_def bs_def)
  note spec = blocks_in.simps [of m bs]
  show thesis
  proof (cases "length bs < 8")
    case True
    obtain s' where s': "next_record m bf = (Inl End_of_file, s')" "CBufferedFile_ended s'"
      by (rule next_record_short [OF c]) (use True in \<open>simp add: bs_def\<close>)
    show thesis
      by (rule caught [OF s'(1)], unfold left work)
        (use s'(2) True in \<open>simp_all add: is_failure_def reading_ok_def reading_left_def reading_work_def spec\<close>)
  next
    case False
    obtain r rest where block: "run file_read (CBlock_Unserialize m PROTOCOL_VERSION CBlock_new) (drop 8 bs) = (r, rest)"
      by (cases "run file_read (CBlock_Unserialize m PROTOCOL_VERSION CBlock_new) (drop 8 bs)")
    have shorter: "length rest < length bs" using file_read_shorter [OF block] False by simp
    have "8 \<le> length bs" using False by simp
    note next_is = next_record_spec [OF c bs_def [symmetric] this block]
    consider "le_word (take 4 (drop 4 bs)) = (0 :: u32)"
      | "le_word (take 4 (drop 4 bs)) \<noteq> (0 :: u32)" "take 4 bs \<noteq> NET_MAGIC \<or> take 4 (drop 8 bs) = NET_MAGIC"
      | "le_word (take 4 (drop 4 bs)) \<noteq> (0 :: u32)" "\<not> (take 4 bs \<noteq> NET_MAGIC \<or> take 4 (drop 8 bs) = NET_MAGIC)"
      by blast
    then show thesis
    proof cases
      case 1
      with next_is show thesis using ended False by (auto simp: left spec)
    next
      case 2
      with next_is obtain s' where s': "next_record m bf = (Inr Nothing, s')"
        "between c s' \<and> CBufferedFile_unread s' = drop 8 bs" by auto
      note at = reading_at [OF disjI1 [OF s'(2)]]
      show thesis
        by (rule skipped [OF s'(1) at(1)]) (use at(2,3) 2 False in \<open>simp_all add: left work spec\<close>)
    next
      case 3
      with next_is obtain s' where
        found: "next_record m bf = ((case r of Inl x \<Rightarrow> Inl x | Inr blk \<Rightarrow> Inr (Found blk)), s')" and
        rest: "between c s' \<and> CBufferedFile_unread s' = rest \<or> CBufferedFile_ended s' \<and> rest = []" by auto
      note at = reading_at [OF rest]
      have fewer: "reading_work s' < reading_work bf" using at(3) shorter by (simp add: work)
      have eq: "blocks_in m bs = (case r of Inr blk \<Rightarrow> [blk] | Inl x \<Rightarrow> []) @ blocks_in m rest"
        using 3 False by (simp add: spec block)
      show thesis
      proof (cases r)
        case (Inl x)
        then have "is_failure x" using file_read_throws [OF safe_block] block by blast
        then show thesis
          by (intro caught [of x s']) (use Inl found at(1) at(2) [of m] fewer eq in \<open>simp_all add: left\<close>)
      next
        case (Inr blk)
        show thesis
          by (rule stored [of blk s']) (use Inr found at(1) at(2) [of m] fewer eq in \<open>simp_all add: left\<close>)
      qed
    qed
  qed
qed

subsection \<open>Steps of the system\<close>

definition pre_ok :: "'e preload \<Rightarrow> bool" where
  "pre_ok P \<longleftrightarrow> (\<forall>bf_p \<in> set (pre_files P) \<union> set (pre_blks P). readable bf_p)
     \<and> (\<forall>t \<in> set (pre_threads P). thread_ok t) \<and> pre_mode P \<in> {0, 1}"

named_theorems preload_simps \<open>what a change of one part of the state leaves alone\<close>

lemma env_simps [preload_simps]:
  "thread_at (P\<lparr>pre_env := e\<rparr>) i t = thread_at P i t" "work (P\<lparr>pre_env := e\<rparr>) = work P"
  "pre_ok (P\<lparr>pre_env := e\<rparr>) = pre_ok P"
  "thread_at (synced L P) i t = thread_at P i t" "work (synced L P) = work P" "pre_ok (synced L P) = pre_ok P"
  by (simp_all add: thread_at_def work_def pre_ok_def synced_def)

lemma reading_work_positive [simp]: "Suc 0 < 2 * reading_work bf" "0 < reading_work bf"
  by (simp_all add: reading_work_def)

lemma thread_at_ok: "thread_at P i t \<Longrightarrow> pre_ok P \<Longrightarrow> thread_ok t"
  by (auto simp: thread_at_def pre_ok_def)

lemma move_ok: "pre_ok P \<Longrightarrow> thread_ok t \<Longrightarrow> pre_ok (move_thread i t P)"
  by (auto simp: pre_ok_def move_thread_def dest!: set_update_subset_insert [THEN subsetD])

lemma move_work: "thread_at P i t0 \<Longrightarrow> thread_work t < thread_work t0 \<Longrightarrow> work (move_thread i t P) < work P"
  using sum_list_swap [of i "pre_threads P" thread_work t] by (auto simp: work_def move_thread_def thread_at_def)

lemma move_left:
  assumes "thread_at P i t0"
  shows "left m (move_thread i t P) + mset (blocks_left m t0) = left m P + mset (blocks_left m t)"
  using sum_list_swap [of i "pre_threads P" "mset \<circ> blocks_left m" t] assms
  by (simp add: left_def move_thread_def thread_at_def add.assoc)

lemma left_simps [preload_simps]: "left m (P\<lparr>pre_env := e\<rparr>) = left m P" "left m (synced L P) = left m P"
  by (simp_all add: left_def synced_def)

text \<open>A file is taken.\<close>

lemma new_thread:
  assumes "readable bf_p"
  defines "t \<equiv> Reading (CBufferedFile_new bf_p PRELOAD_BUFFER_SIZE 4)"
  shows "thread_ok t" "blocks_left m t = file_blocks m bf_p" "thread_work t < file_work bf_p"
proof -
  obtain f where f: "bf_p = Some f" "FILE_ok f" "f_offset f = 0" "length (f_content f) < 2 ^ 63"
    using assms(1) by (auto simp: readable_def)
  note at = reading_at [OF disjI1 [OF conjI [OF new_file_between [OF f(2-4)]]]]
  show "thread_ok t" "blocks_left m t = file_blocks m bf_p" "thread_work t < file_work bf_p"
    using at(1,3) at(2) [of m] by (simp_all add: t_def f(1) file_blocks_def file_work_def)
qed

lemma take_file:
  assumes "thread_at P i Idle" "pre_files P = bf_p # fs" "pre_ok P"
  defines "P' \<equiv> move_thread i (Reading (CBufferedFile_new bf_p PRELOAD_BUFFER_SIZE 4)) (P\<lparr>pre_files := fs\<rparr>)"
  shows "pre_ok P'" "work P' < work P" "left m P' = left m P"
proof -
  let ?t = "Reading (CBufferedFile_new bf_p PRELOAD_BUFFER_SIZE 4)"
  have "readable bf_p" using assms(2,3) by (simp add: pre_ok_def)
  note new = new_thread [OF this]
  have i: "i < length (pre_threads P)" "pre_threads P ! i = Idle" using assms(1) by (simp_all add: thread_at_def)
  have "pre_ok (P\<lparr>pre_files := fs\<rparr>)" using assms(2,3) by (simp add: pre_ok_def)
  then show "pre_ok P'" unfolding P'_def by (rule move_ok [OF _ new(1)])
  show "work P' < work P"
    using sum_list_swap [OF i(1), of thread_work ?t] new(3) i(2) assms(2) by (simp add: work_def P'_def move_thread_def)
  show "left m P' = left m P"
    using sum_list_swap [OF i(1), of "mset \<circ> blocks_left m" ?t] new(2) [of m] i(2) assms(2)
    by (simp add: left_def P'_def move_thread_def add.commute add.left_commute)
qed

lemma turn_kept:
  assumes "thread_at P i (Reading bf)" "pre_ok P" "bf_src bf \<noteq> None" "\<not> CBufferedFile_eof bf"
  shows "next_record m bf = (Inl x, bf') \<Longrightarrow> is_failure x \<and> reading_ok bf' \<and> reading_left m bf' = reading_left m bf \<and> reading_work bf' < reading_work bf"
    "next_record m bf = (Inr Nothing, bf') \<Longrightarrow> reading_ok bf' \<and> reading_left m bf' = reading_left m bf \<and> reading_work bf' < reading_work bf"
    "next_record m bf = (Inr End_of_records, bf') \<Longrightarrow> reading_left m bf = []"
    "next_record m bf = (Inr (Found blk), bf') \<Longrightarrow>
       reading_ok bf' \<and> reading_left m bf = blk # reading_left m bf' \<and> reading_work bf' < reading_work bf"
  using thread_at_ok [OF assms(1,2)] by (auto elim!: reading_turn [OF _ assms(3,4), of m])

lemma ended_nothing_left: "bf_src bf \<noteq> None \<Longrightarrow> CBufferedFile_eof bf \<Longrightarrow> reading_left m bf = []"
  by (simp add: reading_left_def CBufferedFile_ended_def)

lemma after_attempt_ok: "reading_ok bf \<Longrightarrow> thread_ok (after_attempt a bf blk)"
  by (cases a) simp_all

lemma preload_step_ok:
  assumes "preload_step L m P P'" "pre_ok P"
  shows "pre_ok P'"
  using assms(1)
proof cases
  case (take i bf_p fs)
  then show ?thesis using take_file(1) assms(2) by blast
next
  case (caught i bf x bf')
  then show ?thesis using turn_kept(1) [OF caught(2) assms(2) caught(3-5)] by (auto intro!: move_ok assms(2))
next
  case (skipped i bf bf')
  then show ?thesis using turn_kept(2) [OF skipped(2) assms(2) skipped(3-5)] by (auto intro!: move_ok assms(2))
next
  case (found i bf blk bf')
  then show ?thesis using turn_kept(4) [OF found(2) assms(2) found(3-5)] by (auto intro!: move_ok assms(2))
next
  case (attempted i bf blk a e')
  then have "reading_ok bf" using thread_at_ok assms(2) by fastforce
  then show ?thesis unfolding attempted(1) by (intro move_ok after_attempt_ok) (simp_all add: preload_simps assms(2))
next
  case joined
  then show ?thesis using assms(2) by (auto simp: pre_ok_def)
qed (auto intro!: move_ok simp: preload_simps assms(2))

lemma try_again:
  assumes "grows L msize limit" "try_block L m mode blk e = Val Again e'"
  shows "unat (msize e) < limit" "unat (msize e) < unat (msize e')"
  using try_block_progress [OF assms(1) refl, of e m mode blk] assms(2) by (simp_all add: holds_def)

lemma joined_work:
  assumes "pre_mode P = 0"
  shows "work (P\<lparr>pre_mode := 1, pre_files := pre_blks P, pre_threads := replicate (length (pre_threads P)) Idle\<rparr>) < work P"
  using assms by (simp add: work_def sum_list_replicate)

lemma less_work: "work P' < work P \<Longrightarrow> (P', P) \<in> measures [work, \<lambda>P. limit - unat (msize (pre_env P))]"
  by simp

lemma preload_step_work:
  assumes "preload_step L m P P'" "pre_ok P" "grows L msize limit"
  shows "(P', P) \<in> measures [work, \<lambda>P. limit - unat (msize (pre_env P))]"
  using assms(1)
proof cases
  case (take i bf_p fs)
  show ?thesis unfolding take(1) by (rule less_work, rule take_file(2) [OF take(2,3) assms(2)])
next
  case (none_left i)
  show ?thesis unfolding none_left(1) by (rule less_work, rule move_work [OF none_left(2)]) simp
next
  case (null_file i bf)
  show ?thesis unfolding null_file(1) by (rule less_work, rule move_work [OF null_file(2)]) simp
next
  case (wild_read i bf x bf')
  show ?thesis unfolding wild_read(1) by (rule less_work, rule move_work [OF wild_read(2)]) simp
next
  case (attempt_undefined i bf blk f)
  show ?thesis unfolding attempt_undefined(1) by (rule less_work, rule move_work [OF attempt_undefined(2)]) simp
next
  case (eof i bf)
  have "thread_at (synced L P) i (Reading bf)" using eof(2) by (simp add: preload_simps)
  from move_work [OF this, of Idle] show ?thesis unfolding eof(1) by (intro less_work) (simp add: preload_simps)
next
  case (caught i bf x bf')
  then show ?thesis
    using turn_kept(1) [OF caught(2) assms(2) caught(3-5)] by (intro less_work) (simp add: move_work [OF caught(2)])
next
  case (end_of_records i bf bf')
  have "thread_at (synced L P) i (Reading bf)" using end_of_records(2) by (simp add: preload_simps)
  from move_work [OF this, of Idle] show ?thesis
    unfolding end_of_records(1) by (intro less_work) (simp add: preload_simps)
next
  case (skipped i bf bf')
  then show ?thesis
    using turn_kept(2) [OF skipped(2) assms(2) skipped(3-5)] by (intro less_work) (simp add: move_work [OF skipped(2)])
next
  case (found i bf blk bf')
  then show ?thesis
    using turn_kept(4) [OF found(2) assms(2) found(3-5)] by (intro less_work) (simp add: move_work [OF found(2)])
next
  case (attempted i bf blk a e')
  have at: "thread_at (P\<lparr>pre_env := e'\<rparr>) i (Storing bf blk)" using attempted(2) by (simp add: preload_simps)
  show ?thesis
  proof (cases "a = Again")
    case True
    have "(pre_threads P)[i := Storing bf blk] = pre_threads P"
      using attempted(2) by (simp add: thread_at_def list_update_same_conv)
    then have "move_thread i (Storing bf blk) (P\<lparr>pre_env := e'\<rparr>) = P\<lparr>pre_env := e'\<rparr>"
      by (cases P) (simp add: move_thread_def)
    then show ?thesis
      using try_again [OF assms(3) attempted(3) [unfolded True]] attempted(1) True by (simp add: preload_simps)
  next
    case False
    then have "thread_work (after_attempt a bf blk) < thread_work (Storing bf blk)" by (cases a) simp_all
    from move_work [OF at this] show ?thesis unfolding attempted(1) by (intro less_work) (simp add: preload_simps)
  qed
next
  case joined
  show ?thesis unfolding joined(1) by (rule less_work, rule joined_work [OF joined(2)])
qed

subsection \<open>What is stored\<close>

text \<open>A thread that has not returned an error nor lost a block in undefined behaviour.\<close>

fun calm :: "preload_thread \<Rightarrow> bool" where
  "calm (Ended err) = False"
| "calm (Undefined f) = (f = Missing_return)"
| "calm _ = True"

definition quiet :: "'e preload \<Rightarrow> bool" where
  "quiet P \<longleftrightarrow> (\<forall>t \<in> set (pre_threads P). calm t)"

lemma quiet_move:
  assumes "thread_at P i t0" "calm t0" "quiet (move_thread i t P)"
  shows "quiet P" "calm t"
proof -
  have i: "i < length (pre_threads P)" "pre_threads P ! i = t0" using assms(1) by (simp_all add: thread_at_def)
  show "calm t" using assms(3) i(1) set_update_memI [OF i(1), of t] by (simp add: quiet_def move_thread_def)
  show "quiet P"
    unfolding quiet_def
  proof
    fix t' assume "t' \<in> set (pre_threads P)"
    then obtain j where j: "j < length (pre_threads P)" "t' = pre_threads P ! j" by (auto simp: in_set_conv_nth)
    show "calm t'"
    proof (cases "j = i")
      case False
      then have "t' \<in> set ((pre_threads P)[i := t])"
        using j by (metis length_list_update nth_list_update_neq nth_mem)
      then show ?thesis using assms(3) by (simp add: quiet_def move_thread_def)
    qed (use i(2) j(2) assms(2) in simp)
  qed
qed

text \<open>
  In the first pass the committed rows are what adding some blocks of the files has made of the old ones, one
  block after the other, and with the blocks that are left there are not more than the files hold. As long as
  nothing failed no block is missing.
\<close>

definition accounted ::
  "'e lmdb_view \<Rightarrow> ('s, 'r) mbedtls \<Rightarrow> CBlock multiset \<Rightarrow> 'e \<Rightarrow> 'e preload \<Rightarrow> CBlock list \<Rightarrow> bool" where
  "accounted V m blocks e P bs \<longleftrightarrow>
     committed V (pre_env P) = fold (add_block m 0) bs (committed V e)
     \<and> \<not> dup_sorted (fold (add_block m 0) bs (committed V e)) DBI_BLK \<and> lost V e \<le> lost V (pre_env P)
     \<and> mset bs + left m P \<subseteq># blocks
     \<and> (quiet P \<longrightarrow> lost V (pre_env P) = lost V e \<longrightarrow> mset bs + left m P = blocks)
     \<and> (Undefined Missing_return \<in> set (pre_threads P) \<longrightarrow> pre_files P = [])"

lemma accountedI:
  assumes "committed V (pre_env P) = fold (add_block m 0) bs (committed V e)" "lost V e \<le> lost V (pre_env P)"
    and "\<not> dup_sorted (committed V (pre_env P)) DBI_BLK" "mset bs + left m P = S" "S \<subseteq># blocks"
    and "quiet P \<Longrightarrow> lost V (pre_env P) = lost V e \<Longrightarrow> S = blocks"
    and "Undefined Missing_return \<in> set (pre_threads P) \<Longrightarrow> pre_files P = []"
  shows "accounted V m blocks e P bs"
  using assms by (simp add: accounted_def)

lemma accounted_blk: "accounted V m blocks e P bs \<Longrightarrow> \<not> dup_sorted (committed V (pre_env P)) DBI_BLK"
  by (simp add: accounted_def)

lemma in_moved: "t' \<in> set (pre_threads (move_thread i t P)) \<Longrightarrow> t' = t \<or> t' \<in> set (pre_threads P)"
  by (auto simp: move_thread_def dest!: set_update_subset_insert [THEN subsetD])

text \<open>A thread moves on and keeps what is left to it.\<close>

lemma accounted_move:
  assumes "accounted V m blocks e P bs" "thread_at P i t0" "calm t0"
    and "mset (blocks_left m t) = mset (blocks_left m t0)" "undisturbed V (pre_env P) e'"
    and "t = Undefined Missing_return \<Longrightarrow> pre_files P = []"
  shows "accounted V m blocks e (move_thread i t (P\<lparr>pre_env := e'\<rparr>)) bs"
proof -
  let ?P = "P\<lparr>pre_env := e'\<rparr>"
  have at: "thread_at ?P i t0" using assms(2) by (simp add: preload_simps)
  have "left m (move_thread i t ?P) = left m P"
    using move_left [OF at, of m t] assms(4) by (simp add: preload_simps)
  moreover have "quiet P" if "quiet (move_thread i t ?P)"
    using quiet_move(1) [OF at assms(3) that] by (simp add: quiet_def)
  moreover have "pre_env (move_thread i t ?P) = e'" "pre_files (move_thread i t ?P) = pre_files P"
    by (simp_all add: move_thread_def)
  moreover have "Undefined Missing_return \<in> set (pre_threads (move_thread i t ?P)) \<Longrightarrow> pre_files P = []"
    using in_moved [of _ i t ?P] assms(1,6) by (auto simp: accounted_def)
  ultimately show ?thesis using assms(1,5) by (simp add: accounted_def undisturbed_def)
qed

lemmas accounted_move_same = accounted_move [where e' = "pre_env P" and P = P for P, simplified]

text \<open>A thread stores its block, or loses it.\<close>

lemma accounted_stored:
  assumes "accounted V m blocks e P bs" "thread_at P i (Storing bf blk)"
    and "committed V e' = add_block m 0 blk (committed V (pre_env P))" "lost V e' = lost V (pre_env P)"
  shows "accounted V m blocks e (move_thread i (Reading bf) (P\<lparr>pre_env := e'\<rparr>)) (bs @ [blk])"
proof -
  let ?P = "P\<lparr>pre_env := e'\<rparr>"
  have at: "thread_at ?P i (Storing bf blk)" using assms(2) by (simp add: preload_simps)
  have parts: "pre_env (move_thread i (Reading bf) ?P) = e'" "pre_files (move_thread i (Reading bf) ?P) = pre_files P"
    by (simp_all add: move_thread_def)
  show ?thesis
  proof (rule accountedI [where S = "mset bs + left m P"], unfold parts)
    have "left m (move_thread i (Reading bf) ?P) + {#blk#} = left m P"
      using move_left [OF at, of m "Reading bf"] by (simp add: preload_simps)
    then show "mset (bs @ [blk]) + left m (move_thread i (Reading bf) ?P) = mset bs + left m P"
      by (simp add: add.commute add.left_commute)
    show "\<not> dup_sorted (committed V e') DBI_BLK"
      using accounted_blk [OF assms(1)] assms(3) block_keeps_blk by (simp add: DBI_BLK_def)
    show "mset bs + left m P = blocks" if "quiet (move_thread i (Reading bf) ?P)" "lost V e' = lost V e"
      using quiet_move(1) [OF at _ that(1)] that(2) assms(1,4) by (simp add: accounted_def quiet_def)
    show "pre_files P = []" if "Undefined Missing_return \<in> set (pre_threads (move_thread i (Reading bf) ?P))"
      using in_moved [OF that] assms(1) by (simp add: accounted_def)
  qed (use assms(1,3,4) in \<open>simp_all add: accounted_def\<close>)
qed

lemma fewer_left: "a + s = b + t \<Longrightarrow> t \<subseteq># s \<Longrightarrow> a \<subseteq># (b :: 'b multiset)"
  by (metis subset_mset.add_le_cancel_right subset_mset.add_left_mono)

lemma accounted_lost:
  assumes "accounted V m blocks e P bs" "thread_at P i (Storing bf blk)"
    and "mset (blocks_left m t) \<subseteq># mset (blocks_left m (Storing bf blk))"
    and "committed V e' = committed V (pre_env P)" "lost V (pre_env P) \<le> lost V e'"
    and "calm t \<Longrightarrow> lost V (pre_env P) < lost V e'" "t \<noteq> Undefined Missing_return"
  shows "accounted V m blocks e (move_thread i t (P\<lparr>pre_env := e'\<rparr>)) bs"
proof -
  let ?P = "P\<lparr>pre_env := e'\<rparr>"
  have at: "thread_at ?P i (Storing bf blk)" using assms(2) by (simp add: preload_simps)
  have "left m (move_thread i t ?P) \<subseteq># left m P"
    by (rule fewer_left [OF move_left [OF at, of m t, unfolded left_simps(1)] assms(3)])
  then have "mset bs + left m (move_thread i t ?P) \<subseteq># blocks"
    using assms(1) by (meson accounted_def subset_mset.add_left_mono subset_mset.dual_order.trans)
  moreover have "lost V e < lost V e'" if "quiet (move_thread i t ?P)"
    using quiet_move(2) [OF at _ that] assms(1,6) by (simp add: accounted_def)
  moreover have "Undefined Missing_return \<in> set (pre_threads (move_thread i t ?P)) \<Longrightarrow> pre_files P = []"
    using in_moved [of _ i t ?P] assms(1,7) by (auto simp: accounted_def)
  moreover have "pre_env (move_thread i t ?P) = e'" "pre_files (move_thread i t ?P) = pre_files P"
    by (simp_all add: move_thread_def)
  ultimately show ?thesis using assms(1,4,5) by (auto simp: accounted_def)
qed

lemma attempt_accounted:
  assumes L: "lmdb_laws L V" and P: "accounted V m blocks e P bs" "thread_at P i (Storing bf blk)" "pre_mode P = 0"
    and once: "try_block L m (pre_mode P) blk (pre_env P) = Val a e'"
  shows "\<exists>bs. accounted V m blocks e (move_thread i (after_attempt a bf blk) (P\<lparr>pre_env := e'\<rparr>)) bs"
proof -
  from try_block_adds [OF L accounted_blk [OF P(1)], of m "pre_mode P" blk] once
  have effect: "attempt_effect V m 0 blk (pre_env P) a e'" by (simp add: holds_def P(3))
  show ?thesis
  proof (cases a)
    case Committed
    consider (kept) "committed V e' = add_block m 0 blk (committed V (pre_env P))" "lost V e' = lost V (pre_env P)"
      | (gone) "committed V e' = committed V (pre_env P)" "lost V (pre_env P) < lost V e'"
      using effect Committed by (auto simp: attempt_effect_def)
    then show ?thesis
    proof cases
      case kept
      from accounted_stored [OF P(1,2) kept] Committed show ?thesis by (intro exI) simp
    next
      case gone
      have "accounted V m blocks e (move_thread i (Reading bf) (P\<lparr>pre_env := e'\<rparr>)) bs"
        by (rule accounted_lost [OF P(1,2)]) (use gone in simp_all)
      then show ?thesis using Committed by auto
    qed
  next
    case (Returned err)
    have "accounted V m blocks e (move_thread i (Ended err) (P\<lparr>pre_env := e'\<rparr>)) bs"
      by (rule accounted_lost [OF P(1,2)])
        (use effect Returned in \<open>simp_all add: attempt_effect_def stopped_def undisturbed_def\<close>)
    then show ?thesis using Returned by auto
  next
    case Again
    have "accounted V m blocks e (move_thread i (Storing bf blk) (P\<lparr>pre_env := e'\<rparr>)) bs"
      by (rule accounted_move [OF P(1,2)]) (use effect Again in \<open>simp_all add: attempt_effect_def stopped_def\<close>)
    then show ?thesis using Again by auto
  qed
qed

lemma preload_step_accounted:
  assumes "preload_step L m P P'" "pre_ok P" "accounted V m blocks e P bs" "pre_mode P' = 0" "lmdb_laws L V"
  shows "\<exists>bs. accounted V m blocks e P' bs"
proof -
  note kept = turn_kept [OF _ assms(2)]
  note move = accounted_move_same [OF assms(3)]
  have synced: "accounted V m blocks e (move_thread i Idle (synced L P)) bs"
    if "thread_at P i (Reading bf)" "reading_left m bf = []" for i bf
    unfolding synced_def
    by (rule accounted_move [OF assms(3) that(1)]) (use that(2) always_snd [OF lmdb_calls(12) [OF assms(5)]] in simp_all)
  show ?thesis
    using assms(1)
  proof cases
    case (take i bf_p fs)
    have "left m P' = left m P" unfolding take(1) by (rule take_file(3) [OF take(2,3) assms(2)])
    moreover have "quiet P" if "quiet P'"
      using quiet_move(1) [of "P\<lparr>pre_files := fs\<rparr>" i Idle] that take(2) unfolding take(1)
      by (simp add: thread_at_def quiet_def)
    moreover have "Undefined Missing_return \<notin> set (pre_threads P')"
      using in_moved [of "Undefined Missing_return" i "Reading (CBufferedFile_new bf_p PRELOAD_BUFFER_SIZE 4)" "P\<lparr>pre_files := fs\<rparr>"]
        take(1,3) assms(3) by (auto simp: accounted_def)
    moreover have "pre_env P' = pre_env P" unfolding take(1) by (simp add: move_thread_def)
    ultimately show ?thesis using assms(3) by (auto simp: accounted_def)
  next
    case (none_left i)
    then show ?thesis using move [OF none_left(2), of "Undefined Missing_return"] by auto
  next
    case (null_file i bf)
    then have "reading_ok bf" using thread_at_ok assms(2) by fastforce
    with null_file(3) show ?thesis
      by (auto simp: reading_ok_def CBufferedFile_ended_def reading_def CBufferedFile_inv_def)
  next
    case (eof i bf)
    show ?thesis unfolding eof(1) using synced [OF eof(2) ended_nothing_left [OF eof(3,4)]] by blast
  next
    case (caught i bf x bf')
    then show ?thesis using move [OF caught(2), of "Reading bf'"] kept(1) [OF caught(2-5)] by auto
  next
    case (wild_read i bf x bf')
    then show ?thesis using kept(1) [OF wild_read(2-5)] by (auto simp: is_failure_def)
  next
    case (end_of_records i bf bf')
    show ?thesis unfolding end_of_records(1) using synced [OF end_of_records(2) kept(3) [OF end_of_records(2-5)]] by blast
  next
    case (skipped i bf bf')
    then show ?thesis using move [OF skipped(2), of "Reading bf'"] kept(2) [OF skipped(2-5)] by auto
  next
    case (found i bf blk bf')
    then show ?thesis using move [OF found(2), of "Storing bf' blk"] kept(4) [OF found(2-5)] by auto
  next
    case (attempted i bf blk a e')
    have "pre_mode P = 0" using assms(4) attempted(1) by (simp add: move_thread_def)
    from attempt_accounted [OF assms(5,3) attempted(2) this attempted(3)] show ?thesis unfolding attempted(1) .
  next
    case (attempt_undefined i bf blk f)
    have "f \<noteq> Missing_return"
      by (cases rule: try_block_outcome [of L m "pre_mode P" blk "pre_env P"]) (use attempt_undefined(3) in auto)
    then have "accounted V m blocks e (move_thread i (Undefined f) (P\<lparr>pre_env := pre_env P\<rparr>)) bs"
      by (intro accounted_lost [OF assms(3) attempt_undefined(2)]) simp_all
    then show ?thesis using attempt_undefined(1) by auto
  next
    case joined
    then show ?thesis using assms(4) by simp
  qed
qed

lemma preload_run_accounted:
  assumes "(preload_step L m)\<^sup>*\<^sup>* P P'" "pre_ok P" "accounted V m blocks e P bs" "lmdb_laws L V"
  shows "pre_ok P' \<and> (pre_mode P' = 0 \<longrightarrow> (\<exists>bs. accounted V m blocks e P' bs))"
  using assms(1)
proof (induction rule: rtranclp_induct)
  case (step P' P'')
  have "pre_ok P''" using step preload_step_ok by blast
  moreover have "\<exists>bs. accounted V m blocks e P'' bs" if "pre_mode P'' = 0"
  proof -
    have "pre_mode P' = 0" using step(2) that by cases (simp_all add: move_thread_def synced_def)
    then obtain bs where "accounted V m blocks e P' bs" using step.IH by blast
    from preload_step_accounted [OF step(2) _ this that assms(4)] step.IH show ?thesis by blast
  qed
  ultimately show ?case by blast
qed (use assms(2,3) in auto)

lemma threads_stay:
  assumes "(preload_step L m)\<^sup>*\<^sup>* P P'"
  shows "length (pre_threads P') = length (pre_threads P)"
  using assms
proof (induction rule: rtranclp_induct)
  case (step P' P'')
  from step(2) have "length (pre_threads P'') = length (pre_threads P')" by cases (simp_all add: move_thread_def synced_def)
  with step.IH show ?case by simp
qed simp

lemma start_ok:
  assumes "\<forall>(name, bf_p) \<in> set path. readable bf_p"
  shows "pre_ok (preload_start L n path e)"
  using assms by (auto simp: pre_ok_def preload_start_def block_files_def)

lemma start_accounted:
  assumes "lmdb_laws L V" "\<not> dup_sorted (committed V e) DBI_BLK"
  shows "accounted V m (\<Sum>bf_p \<leftarrow> block_files path. mset (file_blocks m bf_p)) e (preload_start L n path e) []"
proof -
  have "undisturbed V e (snd (mdb_env_set_flags L MDB_NOSYNC True e))" by (rule always_snd [OF lmdb_calls(13) [OF assms(1)]])
  moreover have "sum_list (map (mset \<circ> blocks_left m) (replicate n Idle)) = {#}" by (induction n) simp_all
  ultimately show ?thesis
    using assms(2) by (auto simp: accounted_def preload_start_def left_def undisturbed_def comp_def)
qed

subsection \<open>Running to the end\<close>

fun stopped_thread :: "preload_thread \<Rightarrow> bool" where
  "stopped_thread (Ended err) = True"
| "stopped_thread (Undefined f) = True"
| "stopped_thread _ = False"

lemma stopped_cases: "stopped_thread t \<Longrightarrow> (\<exists>err. t = Ended err) \<or> (\<exists>f. t = Undefined f)"
  by (cases t) simp_all

lemma thread_can_step:
  assumes "pre_ok P" "thread_at P i t" "\<not> stopped_thread t"
  shows "\<exists>P'. preload_step L m P P'"
proof (cases t)
  case Idle
  then show ?thesis using preload_step.take [of P i] preload_step.none_left [of P i] assms(2) by (cases "pre_files P") blast+
next
  case (Reading bf)
  note at = assms(2) [unfolded Reading]
  have ok: "reading_ok bf" using thread_at_ok [OF at assms(1)] by simp
  then have src: "bf_src bf \<noteq> None"
    by (auto simp: reading_ok_def CBufferedFile_ended_def reading_def CBufferedFile_inv_def)
  show ?thesis
  proof (cases "CBufferedFile_eof bf")
    case False
    note ready = at src False
    show ?thesis
      by (rule reading_turn [OF ok src False, of m])
        (use preload_step.caught [OF ready] preload_step.end_of_records [OF ready] preload_step.skipped [OF ready]
          preload_step.found [OF ready] in blast)+
  qed (use preload_step.eof [OF at src] in blast)
next
  case (Storing bf blk)
  note at = assms(2) [unfolded Storing]
  show ?thesis
    by (cases rule: try_block_outcome [of L m "pre_mode P" blk "pre_env P"])
      (use preload_step.attempted [OF at, of L m] preload_step.attempt_undefined [OF at, of L m] in blast)+
qed (use assms(3) in simp_all)

lemma preload_can_step:
  assumes "pre_ok P" "\<not> returned P" "\<forall>f. Undefined f \<notin> set (pre_threads P)"
  shows "\<exists>P'. preload_step L m P P'"
proof (cases "all_joined P")
  case True
  then have "pre_mode P = 0" using assms by (auto simp: pre_ok_def returned_def)
  from preload_step.joined [OF this True] show ?thesis by blast
next
  case False
  then obtain t where t: "t \<in> set (pre_threads P)" "\<forall>err. t \<noteq> Ended err" by (auto simp: all_joined_def)
  then obtain i where at: "thread_at P i t" by (auto simp: thread_at_def in_set_conv_nth)
  have "\<not> stopped_thread t" using t assms(3) stopped_cases [of t] by blast
  from thread_can_step [OF assms(1) at this] show ?thesis .
qed

text \<open>The undefined behaviours that can be reached.\<close>

definition known_faults :: "'e lmdb \<Rightarrow> 'e preload \<Rightarrow> bool" where
  "known_faults L P \<longleftrightarrow> (\<forall>f. Undefined f \<in> set (pre_threads P) \<longrightarrow> f = Missing_return \<or> unset_cursor L f)"

lemma known_move:
  "known_faults L P \<Longrightarrow> (\<And>f. t = Undefined f \<Longrightarrow> f = Missing_return \<or> unset_cursor L f) \<Longrightarrow> known_faults L (move_thread i t P)"
  using in_moved [of _ i t P] by (auto simp: known_faults_def)

lemma known_simps [preload_simps]:
  "known_faults L (P\<lparr>pre_env := e\<rparr>) = known_faults L P" "known_faults L (P\<lparr>pre_files := fs\<rparr>) = known_faults L P"
  "known_faults L (synced L P) = known_faults L P"
  by (simp_all add: known_faults_def synced_def)

lemma preload_step_known:
  assumes "preload_step L m P P'" "pre_ok P" "known_faults L P"
  shows "known_faults L P'"
  using assms(1)
proof cases
  case (null_file i bf)
  then have "reading_ok bf" using thread_at_ok assms(2) by fastforce
  with null_file(3) show ?thesis
    by (auto simp: reading_ok_def CBufferedFile_ended_def reading_def CBufferedFile_inv_def)
next
  case (wild_read i bf x bf')
  then show ?thesis using turn_kept(1) [OF wild_read(2) assms(2) wild_read(3-5)] by (auto simp: is_failure_def)
next
  case (attempted i bf blk a e')
  then show ?thesis using assms(3) by (cases a) (auto intro!: known_move simp: preload_simps)
next
  case (attempt_undefined i bf blk f)
  have "unset_cursor L f"
    by (cases rule: try_block_outcome [of L m "pre_mode P" blk "pre_env P"]) (use attempt_undefined(3) in auto)
  then show ?thesis unfolding attempt_undefined(1) by (intro known_move assms(3)) simp
next
  case joined
  then show ?thesis by (simp add: known_faults_def)
qed (use assms(3) in \<open>auto intro!: known_move simp: preload_simps\<close>)

lemma reachable_ok:
  assumes "(preload_step L m)\<^sup>*\<^sup>* P P'" "pre_ok P" "known_faults L P"
  shows "pre_ok P' \<and> known_faults L P'"
  using assms(1)
proof (induction rule: rtranclp_induct)
  case (step P' P'')
  then show ?case using preload_step_ok [of L m P' P''] preload_step_known [of L m P' P''] by blast
qed (use assms(2,3) in simp)

lemma no_endless_run:
  assumes "\<forall>k. preload_step L m (h k) (h (Suc k))" "pre_ok (h 0)" "grows L msize limit"
  shows False
proof -
  have "pre_ok (h k)" for k by (induction k) (use assms(1,2) preload_step_ok in blast)+
  then have "(h (Suc k), h k) \<in> measures [work, \<lambda>P. limit - unat (msize (pre_env P))]" for k
    using preload_step_work [OF _ _ assms(3)] assms(1) by blast
  then show False using wf_measures wf_iff_no_infinite_down_chain by blast
qed

lemma run_stops:
  assumes "grows L msize limit" "pre_ok P"
  shows "\<exists>P'. (preload_step L m)\<^sup>*\<^sup>* P P' \<and> (\<nexists>P''. preload_step L m P' P'')"
  using wf_measures [of "[work, \<lambda>P. limit - unat (msize (pre_env P))]"] assms(2)
proof (induction P rule: wf_induct_rule)
  case (less P)
  show ?case
  proof (cases "\<exists>P1. preload_step L m P P1")
    case True
    then obtain P1 where P1: "preload_step L m P P1" by blast
    obtain P' where "(preload_step L m)\<^sup>*\<^sup>* P1 P'" "\<nexists>P''. preload_step L m P' P''"
      using less.IH [OF preload_step_work [OF P1 less.prems assms(1)] preload_step_ok [OF P1 less.prems]] by blast
    then show ?thesis using P1 by (meson converse_rtranclp_into_rtranclp)
  qed blast
qed

subsection \<open>Properties\<close>

text \<open>The rows at every moment of the first pass.\<close>

lemma first_pass:
  assumes "lmdb_laws L V" "\<not> dup_sorted (committed V e) ''blk''"
    and "\<forall>(name, bf_p) \<in> set path. readable bf_p" "0 < n"
    and "(preload_step L m)\<^sup>*\<^sup>* (preload_start L n path e) P" "pre_mode P = 0"
    and "blocks = (\<Sum>bf_p \<leftarrow> block_files path. mset (file_blocks m bf_p))"
  shows "\<exists>bs. committed V (pre_env P) = fold (add_block m 0) bs (committed V e) \<and> mset bs \<subseteq># blocks
    \<and> (quiet P \<longrightarrow> lost V (pre_env P) = lost V e \<longrightarrow> mset bs + left m P = blocks)
    \<and> ((\<forall>t \<in> set (pre_threads P). t = Undefined Missing_return) \<longrightarrow> lost V (pre_env P) = lost V e \<longrightarrow> mset bs = blocks)"
proof -
  have "accounted V m blocks e (preload_start L n path e) []"
    unfolding assms(7) by (rule start_accounted [OF assms(1)]) (use assms(2) in \<open>simp add: DBI_BLK_def\<close>)
  from preload_run_accounted [OF assms(5) start_ok [OF assms(3)] this assms(1)] assms(6)
  obtain bs where bs: "accounted V m blocks e P bs" by blast
  have "mset bs = blocks" if all: "\<forall>t \<in> set (pre_threads P). t = Undefined Missing_return" and "lost V (pre_env P) = lost V e"
  proof -
    have "pre_threads P \<noteq> []" using threads_stay [OF assms(5)] assms(4) by (auto simp: preload_start_def)
    then have "Undefined Missing_return \<in> set (pre_threads P)" using all by (cases "pre_threads P") auto
    then have "pre_files P = []" using bs by (simp add: accounted_def)
    moreover have "sum_list (map (mset \<circ> blocks_left m) (pre_threads P)) = {#}"
      using all by (intro sum_list_empty) auto
    ultimately have "left m P = {#}" by (simp add: left_def)
    moreover have "quiet P" using all by (auto simp: quiet_def)
    ultimately show ?thesis using bs that(2) by (simp add: accounted_def)
  qed
  moreover have "mset bs \<subseteq># blocks"
    using bs by (auto simp: accounted_def intro: subset_mset.order_trans [OF mset_subset_eq_add_left])
  ultimately show ?thesis using bs by (intro exI [of _ bs]) (auto simp: accounted_def)
qed

text \<open>(C7) However the threads of \<^verbatim>\<open>PreLoadBlocks\<close> interleave, whatever calls of LMDB fail and whatever readable files
  hold, at every moment of the first pass the committed rows are what adding certain blocks of the files, one
  after the other, has made of the old ones. Each block is added at most as often as it occurs in the files. As
  long as no thread has returned an error or used a cursor that could not be opened, and no commit has failed,
  these are exactly the blocks that are not left in a file or with a thread, so that no block is lost between
  two threads; and when every thread has found no file left, they are all the blocks of all the files.\<close>

theorem preload_rows:
  assumes "lmdb_laws L V" "\<not> dup_sorted (committed V e) ''blk''"
    and "\<forall>(name, bf_p) \<in> set path. readable bf_p" "0 < n"
    and "(preload_step L m)\<^sup>*\<^sup>* (preload_start L n path e) P" "pre_mode P = 0"
    and "blocks = (\<Sum>bf_p \<leftarrow> block_files path. mset (file_blocks m bf_p))"
  shows "\<exists>bs. committed V (pre_env P) = fold (add_block m 0) bs (committed V e) \<and> mset bs \<subseteq># blocks
    \<and> (quiet P \<longrightarrow> lost V (pre_env P) = lost V e \<longrightarrow> mset bs + left m P = blocks)
    \<and> ((\<forall>t \<in> set (pre_threads P). t = Undefined Missing_return) \<longrightarrow> lost V (pre_env P) = lost V e \<longrightarrow> mset bs = blocks)"
  by (rule first_pass [OF assms])

text \<open>A file with a block in it twice and a file with nothing useful, for three threads: there is a run that
  goes on until every thread has found no file left, and by the theorem it has added the block twice.\<close>

definition sample_path :: "(string \<times> FILE option) list" where
  "sample_path =
     [(''blk00000.dat'', Some (sample_file (concat (map block_record [sample_block, sample_block]) @ replicate 9 0))),
      (''rev00000.dat'', Some (sample_file [2])), (''blk00001.dat'', Some (sample_file [1]))]"

lemma sample_path_readable: "\<forall>(name, bf_p) \<in> set sample_path. readable bf_p"
  using block_record_length [OF storable_sample] by (simp add: sample_path_def readable_def sample_file_ok)

lemma sample_path_blocks: "map (file_blocks buffering) (block_files sample_path) = [[sample_block, sample_block], []]"
  using blocks_in_records [of "[sample_block, sample_block]" buffering 9] storable_sample
  by (simp add: sample_path_def block_files_def file_blocks_def sample_file_ok blocks_in.simps [of buffering "[1]"])

text \<open>On a healthy environment no thread returns an error.\<close>

lemma healthy_step:
  assumes "preload_step (healthy need) m P P'" "accounted memory_view m blocks e P bs"
    and "pre_threads P \<noteq> []" "\<forall>t \<in> set (pre_threads P). \<forall>err. t \<noteq> Ended err" "pre_mode P = 0"
  shows "(\<forall>t \<in> set (pre_threads P'). \<forall>err. t \<noteq> Ended err) \<and> pre_mode P' = 0"
  using assms(1)
proof cases
  case (attempted i bf blk a e')
  from try_block_adds [OF laws_memory [of need] accounted_blk [OF assms(2)], of m "pre_mode P" blk] attempted(3)
  have "attempt_effect memory_view m (pre_mode P) blk (pre_env P) a e'" by (simp add: holds_def)
  then have "after_attempt a bf blk \<noteq> Ended err" for err by (cases a) (simp_all add: attempt_effect_def stopped_def)
  moreover have "t = after_attempt a bf blk \<or> t \<in> set (pre_threads P)" if "t \<in> set (pre_threads P')" for t
    using in_moved [of t i _ "P\<lparr>pre_env := e'\<rparr>"] that unfolding attempted(1) by simp
  moreover have "pre_mode P' = 0" using assms(5) unfolding attempted(1) by (simp add: move_thread_def)
  ultimately show ?thesis using assms(4) by metis
next
  case joined
  then show ?thesis using assms(3,4) by (cases "pre_threads P") (auto simp: all_joined_def)
qed (use assms(4,5) in \<open>auto simp: move_thread_def synced_def dest!: set_update_subset_insert [THEN subsetD]\<close>)

lemma healthy_run:
  assumes "(preload_step (healthy need) m)\<^sup>*\<^sup>* (preload_start (healthy need) n path e) P"
    and "\<forall>(name, bf_p) \<in> set path. readable bf_p" "0 < n" "\<not> dup_sorted (committed memory_view e) DBI_BLK"
  shows "(\<forall>t \<in> set (pre_threads P). \<forall>err. t \<noteq> Ended err) \<and> pre_mode P = 0"
  using assms(1)
proof (induction rule: rtranclp_induct)
  case (step P P')
  have "pre_threads P \<noteq> []" using threads_stay [OF step(1)] assms(3) by (auto simp: preload_start_def)
  moreover obtain bs where "accounted memory_view m (\<Sum>bf_p \<leftarrow> block_files path. mset (file_blocks m bf_p)) e P bs"
    using preload_run_accounted [OF step(1) start_ok [OF assms(2)] start_accounted [OF laws_memory assms(4)] laws_memory]
      step.IH by blast
  ultimately show ?case using healthy_step [OF step(2)] step.IH by blast
qed (auto simp: preload_start_def)

text \<open>On a healthy environment a run of the first pass ends with every thread having found no file left.\<close>

lemma healthy_first_pass:
  assumes "\<forall>(name, bf_p) \<in> set path. readable bf_p" "0 < n" "\<not> dup_sorted (committed memory_view e) DBI_BLK"
  obtains P where "(preload_step (healthy 0) m)\<^sup>*\<^sup>* (preload_start (healthy 0) n path e) P" "pre_mode P = 0"
    "\<forall>t \<in> set (pre_threads P). t = Undefined Missing_return"
proof -
  let ?L = "healthy 0"
  have "grows ?L mem_size 0" by (rule grows_healthy) (simp add: unit_positive)
  from run_stops [OF this start_ok [OF assms(1)], of m ?L n e]
  obtain P where P: "(preload_step ?L m)\<^sup>*\<^sup>* (preload_start ?L n path e) P" "\<nexists>P'. preload_step ?L m P P'" by blast
  have run: "(\<forall>t \<in> set (pre_threads P). \<forall>err. t \<noteq> Ended err) \<and> pre_mode P = 0"
    by (rule healthy_run [OF P(1) assms])
  have ok: "pre_ok P \<and> known_faults ?L P"
    by (rule reachable_ok [OF P(1) start_ok [OF assms(1)]]) (simp add: known_faults_def preload_start_def)
  have "t = Undefined Missing_return" if t: "t \<in> set (pre_threads P)" for t
  proof -
    obtain i where at: "thread_at P i t" using t by (auto simp: thread_at_def in_set_conv_nth)
    then have "stopped_thread t" using thread_can_step [OF _ at, of ?L m] ok P(2) by blast
    then show ?thesis using t run ok healthy_cursor stopped_cases [of t] unfolding known_faults_def by blast
  qed
  with P(1) run show thesis by (intro that) auto
qed

text \<open>The block of the sample files, twice and by nobody else.\<close>

lemma sample_path_multiset:
  "mset [sample_block, sample_block] = (\<Sum>bf_p \<leftarrow> block_files sample_path. mset (file_blocks buffering bf_p))"
  using arg_cong [OF sample_path_blocks, of "\<lambda>bss. sum_list (map mset bss)"] by (simp add: comp_def)

lemma mset_same_twice: "mset bs = mset [x, x] \<Longrightarrow> bs = [x, x]"
proof -
  assume bs: "mset bs = mset [x, x]"
  have "set bs = {x}" "length bs = 2"
    using arg_cong [OF bs, of set_mset] arg_cong [OF bs, of size] by simp_all
  then have "bs = replicate 2 x" by (metis replicate_length_same singletonD)
  then show "bs = [x, x]" by (simp add: numeral_2_eq_2)
qed

theorem preload_rows_witness:
  "\<exists>P. (preload_step (healthy 0) buffering)\<^sup>*\<^sup>* (preload_start (healthy 0) 3 sample_path (memory_new 0 False)) P
    \<and> database_of (mem_main (pre_env P)) =
      add_block buffering 0 sample_block (add_block buffering 0 sample_block empty_database)"
proof -
  obtain P where P: "(preload_step (healthy 0) buffering)\<^sup>*\<^sup>* (preload_start (healthy 0) 3 sample_path (memory_new 0 False)) P"
    "pre_mode P = 0" "\<forall>t \<in> set (pre_threads P). t = Undefined Missing_return"
    by (rule healthy_first_pass [OF sample_path_readable, of 3 "memory_new 0 False" buffering]) simp_all
  obtain bs where "database_of (mem_main (pre_env P)) = fold (add_block buffering 0) bs empty_database"
      "mset bs = mset [sample_block, sample_block]"
    using preload_rows [OF laws_memory _ sample_path_readable _ P(1,2) sample_path_multiset] P(3) by auto
  with mset_same_twice [of bs sample_block] P(1) show ?thesis by (intro exI [of _ P]) simp
qed



end
