(* ===== verification/Commands.thy ===== *)
theory Commands
  imports Runtime Hash
begin

section \<open>The commands of the protocol: Commands.h, Commands.cxx\<close>

text \<open>
  The JSON library is not part of the repository: its values are a type \<open>'j\<close> and the operations the code
  calls are the fields of \<open>nlohmann\<close>. An operation that can throw returns an option. \<open>nj_init\<close> is the
  construction from an initialiser list, which decides by itself between array and object;
  \<^verbatim>\<open>nlohmann::json{}\<close>, with empty braces, is the null value. A \<^verbatim>\<open>float\<close> is its 32 bits, an \<^verbatim>\<open>int\<close> and a
  \<^verbatim>\<open>long\<close>, which are only passed on, an integer.
\<close>

record 'j nlohmann =
  nj_null :: 'j
  nj_string :: "string \<Rightarrow> 'j"
  nj_int :: "int \<Rightarrow> 'j"
  nj_bool :: "bool \<Rightarrow> 'j"
  nj_float :: "u32 \<Rightarrow> 'j"
  nj_array :: "'j list \<Rightarrow> 'j"
  nj_init :: "'j list \<Rightarrow> 'j"
  nj_clear :: "'j \<Rightarrow> 'j"
  nj_push_back :: "'j \<Rightarrow> 'j \<Rightarrow> 'j option"
  nj_set :: "'j \<Rightarrow> string \<Rightarrow> 'j \<Rightarrow> 'j option"
  nj_member :: "'j \<Rightarrow> string \<Rightarrow> 'j option"
  nj_at :: "'j \<Rightarrow> string \<Rightarrow> 'j option"
  nj_index :: "'j \<Rightarrow> nat \<Rightarrow> 'j option"
  nj_is_null :: "'j \<Rightarrow> bool"
  nj_is_array :: "'j \<Rightarrow> bool"
  nj_is_number :: "'j \<Rightarrow> bool"
  nj_is_string :: "'j \<Rightarrow> bool"
  nj_get_string :: "'j \<Rightarrow> string option"
  nj_get_int :: "'j \<Rightarrow> int option"
  nj_get_uint64 :: "'j \<Rightarrow> u64 option"
  nj_get_ushort :: "'j \<Rightarrow> u16 option"
  nj_parse :: "byte list \<Rightarrow> 'j option"
  nj_dump :: "'j \<Rightarrow> byte list option"

datatype ElectrumCommands = Unknown
  | BCBlockHeader | BCBlockHeaders | BCEstimatefee | BCHeadersSubscribe | BCRelayfee
  | SHGetBalance | SHGetHistory | SHGetMempool | SHHistory | SHListUnspent | SHSubscribe | SHUTXOS
  | TXBroadcast | TXGet | TXGetMerkle | TXIdFromPos
  | MPChanges | MPGetFeeHistogram
  | SVAddPeer | SVBanner | SVDonationAddress | SVFeatures | SVPeersSubscribe | SVPing | SVVersion

definition CommandMap_list :: "(string \<times> ElectrumCommands) list" where
  "CommandMap_list =
     [(''blockchain.block.header'', BCBlockHeader),
      (''blockchain.block.headers'', BCBlockHeaders),
      (''blockchain.estimatefee'', BCEstimatefee),
      (''blockchain.headers.subscribe'', BCHeadersSubscribe),
      (''blockchain.relayfee'', BCRelayfee),
      (''blockchain.scripthash.get_balance'', SHGetBalance),
      (''blockchain.scripthash.get_history'', SHGetHistory),
      (''blockchain.scripthash.get_mempool'', SHGetMempool),
      (''blockchain.scripthash.history'', SHHistory),
      (''blockchain.scripthash.listunspent'', SHListUnspent),
      (''blockchain.scripthash.subscribe'', SHSubscribe),
      (''blockchain.scripthash.utxos'', SHUTXOS),
      (''blockchain.transaction.broadcast'', TXBroadcast),
      (''blockchain.transaction.get'', TXGet),
      (''blockchain.transaction.get_merkle'', TXGetMerkle),
      (''blockchain.transaction.id_from_pos'', TXIdFromPos),
      (''mempool.changes'', MPChanges),
      (''mempool.get_fee_histogram'', MPGetFeeHistogram),
      (''server.add_peer'', SVAddPeer),
      (''server.banner'', SVBanner),
      (''server.donation_address'', SVDonationAddress),
      (''server.features'', SVFeatures),
      (''server.peers.subscribe'', SVPeersSubscribe),
      (''server.ping'', SVPing),
      (''server.version'', SVVersion)]"

definition CommandMap :: "string \<Rightarrow> ElectrumCommands option" where
  "CommandMap = map_of CommandMap_list"

subsection \<open>Replies\<close>

record TxInfo =
  ti_fee :: int
  ti_height :: int
  ti_hash :: string

record TxOut =
  to_pos :: int
  to_value :: int
  to_hash :: string
  to_height :: int

record PeerInfo =
  pi_ip :: string
  pi_hostname :: string
  pi_protocol_max :: u32
  pi_pruning_limit :: "int option"
  pi_tcp_port :: "int option"
  pi_ssl_port :: "int option"

record ScriptStatus =
  ss_txn :: "TxInfo list"

definition GetStatusHash :: "('s, 'r) mbedtls \<Rightarrow> ScriptStatus \<Rightarrow> uint256" where
  "GetStatusHash m r =
     Hash_range m (to_bytes (concat (map (\<lambda>tx. ti_hash tx @ '':'' @ decimal (ti_height tx)) (ss_txn r))))"

record BCBlockHeaderResponse =
  bh_branch :: "string list"
  bh_header :: string
  bh_root :: string

record BCBlockHeadersResponse =
  bhs_count :: int
  bhs_hex :: "byte list"
  bhs_max :: int

record BCEstimatefeeResponse =
  ef_value :: u32

record BCHeadersSubscribeResponse =
  hs_height :: int
  hs_hex :: "byte list"

record BCRelayfeeResponse =
  rf_value :: u32

record SHGetBalanceResponse =
  gb_confirmed :: string
  gb_unconfirmed :: string

record SHGetHistoryResponse =
  gh_history :: "TxInfo list"

record SHGetMempoolResponse =
  gm_result :: "TxInfo list"

record SHHistoryResponse =
  hi_more :: bool
  hi_history :: "(int \<times> string) list"

record SHListUnspentResponse =
  lu_utxos :: "TxOut list"

record SHSubscribeResponse =
  su_last_tx :: string
  su_status :: ScriptStatus

record SHUTXOSResponse =
  ut_more :: bool
  ut_utxos :: "TxOut list"

record TXBroadcastResponse =
  tb_result :: string

record TXGetResponse =
  tg_hex_or_rpc_response :: "byte list"

record TXGetMerkleResponse =
  tm_merkle :: "string list"
  tm_block_height :: int
  tm_pos :: int

record TXIdFromPosResponse =
  tp_tx_hash :: string
  tp_merkle :: "string list"

datatype MPChangesResponse = MPChangesResponse

record MPGetFeeHistogramResponse =
  fh_history :: "(int \<times> int) list"

record SVAddPeerResponse =
  ap_response :: bool

record SVBannerResponse =
  ba_banner :: string

record SVDonationAddressResponse =
  da_address :: string

record SVFeaturesResponse =
  fe_genesis_hash :: string
  fe_server_version :: string
  fe_hash_function :: string
  fe_protocol_max :: u32
  fe_protocol_min :: u32
  fe_hosts :: "(string \<times> int \<times> int) list"

record SVPeersSubscribeResponse =
  ps_peers :: "PeerInfo list"

datatype SVPingResponse = SVPingResponse

record SVVersionResponse =
  ve_software_version :: string
  ve_protocol_version :: string

subsection \<open>Replies as JSON\<close>

text \<open>
  \<^verbatim>\<open>to_json(j, r)\<close> assigns to \<open>j\<close>; the result is the new \<open>j\<close>, \<open>None\<close> an exception. \<open>pair\<close> is an entry
  \<^verbatim>\<open>{ "key", value }\<close> of an initialiser list. The format \<^verbatim>\<open>{:n}\<close> of the \<^verbatim>\<open>fmt\<close> library depends on the locale
  and is the parameter \<open>fmt_n\<close>.
\<close>

definition pair :: "('j, 'm) nlohmann_scheme \<Rightarrow> string \<Rightarrow> 'j \<Rightarrow> 'j" where
  "pair n key value = nj_init n [nj_string n key, value]"

definition string_to_json :: "('j, 'm) nlohmann_scheme \<Rightarrow> string \<Rightarrow> 'j" where
  "string_to_json n r = nj_string n r"

fun vector_to_json_loop ::
  "('j, 'm) nlohmann_scheme \<Rightarrow> ('t \<Rightarrow> 'j option) \<Rightarrow> 'j \<Rightarrow> 't list \<Rightarrow> 'j option" where
  "vector_to_json_loop n f j [] = Some j"
| "vector_to_json_loop n f j (x # r) =
     Option.bind (f x) (\<lambda>nv. Option.bind (nj_push_back n j nv) (\<lambda>j'. vector_to_json_loop n f j' r))"

definition vector_to_json :: "('j, 'm) nlohmann_scheme \<Rightarrow> ('t \<Rightarrow> 'j option) \<Rightarrow> 't list \<Rightarrow> 'j option" where
  "vector_to_json n f r = vector_to_json_loop n f (nj_null n) r"

fun push_ports :: "('j, 'm) nlohmann_scheme \<Rightarrow> (int \<Rightarrow> string) \<Rightarrow> 'j \<Rightarrow> (string \<times> int option) list \<Rightarrow> 'j option" where
  "push_ports n fmt_n inner [] = Some inner"
| "push_ports n fmt_n inner ((prefix, None) # ps) = push_ports n fmt_n inner ps"
| "push_ports n fmt_n inner ((prefix, Some v) # ps) =
     Option.bind (nj_push_back n inner (nj_string n (prefix @ fmt_n v))) (\<lambda>inner'. push_ports n fmt_n inner' ps)"

definition PeerInfo_to_json :: "('j, 'm) nlohmann_scheme \<Rightarrow> (int \<Rightarrow> string) \<Rightarrow> PeerInfo \<Rightarrow> 'j option" where
  "PeerInfo_to_json n fmt_n r =
     Option.bind
       (push_ports n fmt_n (nj_init n [nj_float n (pi_protocol_max r)])
          [(''p'', pi_pruning_limit r), (''t'', pi_tcp_port r), (''s'', pi_ssl_port r)])
       (\<lambda>inner. Some (nj_init n [nj_string n (pi_ip r), nj_string n (pi_hostname r), inner]))"

definition TxOut_to_json :: "('j, 'm) nlohmann_scheme \<Rightarrow> TxOut \<Rightarrow> 'j" where
  "TxOut_to_json n r =
     nj_init n [pair n ''tx_pos'' (nj_int n (to_pos r)), pair n ''value'' (nj_int n (to_value r)),
       pair n ''tx_hash'' (nj_string n (to_hash r)), pair n ''height'' (nj_int n (to_height r))]"

definition ScriptStatus_to_json :: "('j, 'm) nlohmann_scheme \<Rightarrow> ('s, 'r) mbedtls \<Rightarrow> ScriptStatus \<Rightarrow> 'j" where
  "ScriptStatus_to_json n m r = (let h = GetStatusHash m r in nj_string n (HexStr (blob_data h)))"

definition BCBlockHeaderResponse_to_json :: "('j, 'm) nlohmann_scheme \<Rightarrow> BCBlockHeaderResponse \<Rightarrow> 'j" where
  "BCBlockHeaderResponse_to_json n r = nj_null n"

definition BCBlockHeadersResponse_to_json :: "('j, 'm) nlohmann_scheme \<Rightarrow> BCBlockHeadersResponse \<Rightarrow> 'j" where
  "BCBlockHeadersResponse_to_json n r = nj_null n"

definition BCEstimatefeeResponse_to_json :: "('j, 'm) nlohmann_scheme \<Rightarrow> BCEstimatefeeResponse \<Rightarrow> 'j" where
  "BCEstimatefeeResponse_to_json n r = nj_float n (ef_value r)"

definition BCHeadersSubscribeResponse_to_json :: "('j, 'm) nlohmann_scheme \<Rightarrow> BCHeadersSubscribeResponse \<Rightarrow> 'j" where
  "BCHeadersSubscribeResponse_to_json n r =
     nj_init n [pair n ''height'' (nj_int n (hs_height r)), pair n ''hex'' (nj_string n (HexStr (hs_hex r)))]"

definition BCRelayfeeResponse_to_json :: "('j, 'm) nlohmann_scheme \<Rightarrow> BCRelayfeeResponse \<Rightarrow> 'j" where
  "BCRelayfeeResponse_to_json n r = nj_float n (rf_value r)"

definition SHGetBalanceResponse_to_json :: "('j, 'm) nlohmann_scheme \<Rightarrow> SHGetBalanceResponse \<Rightarrow> 'j" where
  "SHGetBalanceResponse_to_json n r =
     nj_init n [pair n ''confirmed'' (nj_string n (gb_confirmed r)),
       pair n ''unconfiemd'' (nj_string n (gb_unconfirmed r))]"

definition SHGetHistoryResponse_to_json :: "('j, 'm) nlohmann_scheme \<Rightarrow> SHGetHistoryResponse \<Rightarrow> 'j option" where
  "SHGetHistoryResponse_to_json n r =
     vector_to_json_loop n
       (\<lambda>h. Some (nj_init n [pair n ''height'' (nj_int n (ti_height h)), pair n ''tx_hash'' (nj_string n (ti_hash h))]))
       (nj_null n) (gh_history r)"

definition SHGetMempoolResponse_to_json :: "('j, 'm) nlohmann_scheme \<Rightarrow> SHGetMempoolResponse \<Rightarrow> 'j option" where
  "SHGetMempoolResponse_to_json n r =
     vector_to_json_loop n
       (\<lambda>h. Some (nj_init n [pair n ''height'' (nj_int n (ti_height h)), pair n ''tx_hash'' (nj_string n (ti_hash h)),
          pair n ''fee'' (nj_int n (ti_fee h))]))
       (nj_null n) (gm_result r)"

definition SHHistoryResponse_to_json :: "'j \<Rightarrow> SHHistoryResponse \<Rightarrow> 'j" where
  "SHHistoryResponse_to_json j r = j"

definition SHListUnspentResponse_to_json :: "('j, 'm) nlohmann_scheme \<Rightarrow> SHListUnspentResponse \<Rightarrow> 'j option" where
  "SHListUnspentResponse_to_json n r = vector_to_json n (\<lambda>x. Some (TxOut_to_json n x)) (lu_utxos r)"

definition SHSubscribeResponse_to_json ::
  "('j, 'm) nlohmann_scheme \<Rightarrow> ('s, 'r) mbedtls \<Rightarrow> SHSubscribeResponse \<Rightarrow> 'j" where
  "SHSubscribeResponse_to_json n m r = ScriptStatus_to_json n m (su_status r)"

definition SHUTXOSResponse_to_json :: "'j \<Rightarrow> SHUTXOSResponse \<Rightarrow> 'j" where
  "SHUTXOSResponse_to_json j r = j"

definition TXBroadcastResponse_to_json :: "('j, 'm) nlohmann_scheme \<Rightarrow> TXBroadcastResponse \<Rightarrow> 'j" where
  "TXBroadcastResponse_to_json n r = nj_string n (tb_result r)"

definition TXGetResponse_to_json :: "('j, 'm) nlohmann_scheme \<Rightarrow> TXGetResponse \<Rightarrow> 'j option" where
  "TXGetResponse_to_json n r = nj_parse n (tg_hex_or_rpc_response r)"

definition TXGetMerkleResponse_to_json :: "('j, 'm) nlohmann_scheme \<Rightarrow> TXGetMerkleResponse \<Rightarrow> 'j" where
  "TXGetMerkleResponse_to_json n r =
     nj_init n [pair n ''pos'' (nj_int n (tm_pos r)), pair n ''block_height'' (nj_int n (tm_block_height r)),
       nj_array n (map (nj_string n) (tm_merkle r))]"

definition TXIdFromPosResponse_to_json :: "('j, 'm) nlohmann_scheme \<Rightarrow> TXIdFromPosResponse \<Rightarrow> 'j" where
  "TXIdFromPosResponse_to_json n r = nj_init n [pair n ''tx_hash'' (nj_string n (tp_tx_hash r))]"

definition MPChangesResponse_to_json :: "('j, 'm) nlohmann_scheme \<Rightarrow> MPChangesResponse \<Rightarrow> 'j" where
  "MPChangesResponse_to_json n r = nj_null n"

definition MPGetFeeHistogramResponse_to_json :: "('j, 'm) nlohmann_scheme \<Rightarrow> MPGetFeeHistogramResponse \<Rightarrow> 'j option" where
  "MPGetFeeHistogramResponse_to_json n r =
     vector_to_json_loop n (\<lambda>(a, b). Some (nj_array n [nj_int n a, nj_int n b])) (nj_null n) (fh_history r)"

definition SVAddPeerResponse_to_json :: "('j, 'm) nlohmann_scheme \<Rightarrow> SVAddPeerResponse \<Rightarrow> 'j" where
  "SVAddPeerResponse_to_json n r = nj_bool n (ap_response r)"

definition SVBannerResponse_to_json :: "('j, 'm) nlohmann_scheme \<Rightarrow> SVBannerResponse \<Rightarrow> 'j" where
  "SVBannerResponse_to_json n r = nj_string n (ba_banner r)"

definition SVDonationAddressResponse_to_json :: "('j, 'm) nlohmann_scheme \<Rightarrow> SVDonationAddressResponse \<Rightarrow> 'j" where
  "SVDonationAddressResponse_to_json n r = nj_string n (da_address r)"

definition SVFeaturesResponse_to_json :: "('j, 'm) nlohmann_scheme \<Rightarrow> SVFeaturesResponse \<Rightarrow> 'j" where
  "SVFeaturesResponse_to_json n r =
     nj_init n [pair n ''genesis_hash'' (nj_string n (fe_genesis_hash r)),
       pair n ''server_version'' (nj_string n (fe_server_version r)),
       pair n ''hash_function'' (nj_string n (fe_hash_function r)),
       pair n ''protocol_max'' (nj_float n (fe_protocol_max r)),
       pair n ''protocol_min'' (nj_float n (fe_protocol_min r)),
       pair n ''hosts''
         (nj_array n (map (\<lambda>(h, a, b). nj_array n [nj_string n h, nj_int n a, nj_int n b]) (fe_hosts r)))]"

definition SVPeersSubscribeResponse_to_json ::
  "('j, 'm) nlohmann_scheme \<Rightarrow> (int \<Rightarrow> string) \<Rightarrow> SVPeersSubscribeResponse \<Rightarrow> 'j option" where
  "SVPeersSubscribeResponse_to_json n fmt_n r =
     vector_to_json_loop n (PeerInfo_to_json n fmt_n) (nj_null n) (ps_peers r)"

definition SVPingResponse_to_json :: "('j, 'm) nlohmann_scheme \<Rightarrow> SVPingResponse \<Rightarrow> 'j" where
  "SVPingResponse_to_json n r = nj_null n"

definition SVVersionResponse_to_json :: "('j, 'm) nlohmann_scheme \<Rightarrow> SVVersionResponse \<Rightarrow> 'j" where
  "SVVersionResponse_to_json n r =
     nj_init n [pair n ''software_version'' (nj_string n (ve_software_version r)),
       pair n ''protocol_version'' (nj_string n (ve_protocol_version r))]"

subsection \<open>What the JSON library promises\<close>

text \<open>
  The documented behaviour the statements about replies rest on: \<^verbatim>\<open>clear\<close> keeps a null value, a member
  can be set on a null value and on what setting a member gives, \<^verbatim>\<open>at\<close> finds the member set last and
  the others as before, \<^verbatim>\<open>push_back\<close> makes an array of a null value and extends an array.
\<close>

definition json_laws :: "('j, 'm) nlohmann_scheme \<Rightarrow> bool" where
  "json_laws n \<longleftrightarrow>
     nj_clear n (nj_null n) = nj_null n \<and>
     (\<forall>k v. nj_set n (nj_null n) k v \<noteq> None) \<and>
     (\<forall>k. nj_at n (nj_null n) k = None) \<and>
     (\<forall>j k v j'. nj_set n j k v = Some j' \<longrightarrow>
        nj_at n j' k = Some v \<and> (\<forall>k'. k' \<noteq> k \<longrightarrow> nj_at n j' k' = nj_at n j k')
        \<and> (\<forall>k' v'. nj_set n j' k' v' \<noteq> None)) \<and>
     (\<forall>x. nj_push_back n (nj_null n) x = Some (nj_array n [x])) \<and>
     (\<forall>xs x. nj_push_back n (nj_array n xs) x = Some (nj_array n (xs @ [x])))"

lemma set_on_null:
  assumes "json_laws n"
  obtains j where "nj_set n (nj_null n) k v = Some j" "nj_at n j k = Some v"
    "\<And>k'. k' \<noteq> k \<Longrightarrow> nj_at n j k' = None" "\<And>k' v'. nj_set n j k' v' \<noteq> None"
proof -
  have "nj_set n (nj_null n) k v \<noteq> None" using assms by (simp add: json_laws_def)
  then obtain j where "nj_set n (nj_null n) k v = Some j" by auto
  with assms show thesis by (intro that [of j]) (auto simp: json_laws_def)
qed

lemma set_again:
  assumes "json_laws n" "\<And>k v. nj_set n j k v \<noteq> None"
  obtains j' where "nj_set n j k v = Some j'" "nj_at n j' k = Some v"
    "\<And>k'. k' \<noteq> k \<Longrightarrow> nj_at n j' k' = nj_at n j k'" "\<And>k' v'. nj_set n j' k' v' \<noteq> None"
proof -
  obtain j' where "nj_set n j k v = Some j'" using assms(2) [of k v] by auto
  with assms(1) show thesis by (intro that [of j']) (auto simp: json_laws_def)
qed

lemma vector_to_json_loop_array:
  assumes "json_laws n" "\<And>x. x \<in> set r \<Longrightarrow> f x = Some (g x)"
  shows "vector_to_json_loop n f (nj_array n acc) r = Some (nj_array n (acc @ map g r))"
  using assms by (induction r arbitrary: acc) (auto simp: json_laws_def)

text \<open>A list of replies is an array in its order; the empty list is the null value, not an empty array.\<close>

lemma vector_to_json_eq:
  assumes "json_laws n" "\<And>x. x \<in> set r \<Longrightarrow> f x = Some (g x)"
  shows "vector_to_json_loop n f (nj_null n) r = Some (if r = [] then nj_null n else nj_array n (map g r))"
proof (cases r)
  case (Cons x xs)
  then show ?thesis
    using assms vector_to_json_loop_array [OF assms(1), of xs f g "[g x]"] by (auto simp: json_laws_def)
qed simp

lemma CommandMap_dispatch: "CommandMap name \<noteq> Some Unknown"
  by (auto simp: CommandMap_def CommandMap_list_def split: if_splits)

subsection \<open>An instance of the JSON library\<close>

text \<open>
  A small library that keeps the laws, for running the model on concrete requests: its texts are the
  names of methods, which stand for requests with identifier 7 and one parameter, an empty string.
\<close>

datatype jsv = JNull | JBool bool | JNum int | JFloat u32 | JStr string | JArr "jsv list"
  | JObj "(string \<times> jsv) list"

fun jsv_entry :: "jsv \<Rightarrow> (string \<times> jsv) option" where
  "jsv_entry (JArr [JStr k, v]) = Some (k, v)"
| "jsv_entry _ = None"

fun jsv_push :: "jsv \<Rightarrow> jsv \<Rightarrow> jsv option" where
  "jsv_push JNull x = Some (JArr [x])"
| "jsv_push (JArr xs) x = Some (JArr (xs @ [x]))"
| "jsv_push _ x = None"

fun jsv_set :: "jsv \<Rightarrow> string \<Rightarrow> jsv \<Rightarrow> jsv option" where
  "jsv_set JNull k v = Some (JObj [(k, v)])"
| "jsv_set (JObj m) k v = Some (JObj ((k, v) # filter (\<lambda>(k', _). k' \<noteq> k) m))"
| "jsv_set _ k v = None"

fun jsv_at :: "jsv \<Rightarrow> string \<Rightarrow> jsv option" where
  "jsv_at (JObj m) k = map_of m k"
| "jsv_at _ k = None"

fun jsv_member :: "jsv \<Rightarrow> string \<Rightarrow> jsv option" where
  "jsv_member (JObj m) k = Some (case map_of m k of Some v \<Rightarrow> v | None \<Rightarrow> JNull)"
| "jsv_member JNull k = Some JNull"
| "jsv_member _ k = None"

fun jsv_index :: "jsv \<Rightarrow> nat \<Rightarrow> jsv option" where
  "jsv_index (JArr xs) i = Some (if i < length xs then xs ! i else JNull)"
| "jsv_index JNull i = Some JNull"
| "jsv_index _ i = None"

fun jsv_clear :: "jsv \<Rightarrow> jsv" where
  "jsv_clear (JArr xs) = JArr []"
| "jsv_clear (JObj m) = JObj []"
| "jsv_clear (JStr s) = JStr []"
| "jsv_clear (JNum i) = JNum 0"
| "jsv_clear (JFloat f) = JFloat 0"
| "jsv_clear (JBool b) = JBool False"
| "jsv_clear JNull = JNull"

fun jsv_dump :: "jsv \<Rightarrow> byte list" where
  "jsv_dump (JStr s) = to_bytes s"
| "jsv_dump (JNum i) = to_bytes (decimal i)"
| "jsv_dump (JArr xs) = concat (map jsv_dump xs)"
| "jsv_dump (JObj m) = concat (map (\<lambda>(k, v). jsv_dump v) m)"
| "jsv_dump _ = []"

definition sample_json :: "jsv nlohmann" where
  "sample_json =
     \<lparr>nj_null = JNull, nj_string = JStr, nj_int = JNum, nj_bool = JBool, nj_float = JFloat, nj_array = JArr,
      nj_init = (\<lambda>xs. if \<forall>x \<in> set xs. jsv_entry x \<noteq> None then JObj (map (\<lambda>x. the (jsv_entry x)) xs) else JArr xs),
      nj_clear = jsv_clear, nj_push_back = jsv_push, nj_set = jsv_set, nj_member = jsv_member, nj_at = jsv_at,
      nj_index = jsv_index, nj_is_null = (\<lambda>j. j = JNull), nj_is_array = (\<lambda>j. case j of JArr _ \<Rightarrow> True | _ \<Rightarrow> False),
      nj_is_number = (\<lambda>j. case j of JNum _ \<Rightarrow> True | JFloat _ \<Rightarrow> True | _ \<Rightarrow> False),
      nj_is_string = (\<lambda>j. case j of JStr _ \<Rightarrow> True | _ \<Rightarrow> False),
      nj_get_string = (\<lambda>j. case j of JStr s \<Rightarrow> Some s | _ \<Rightarrow> None),
      nj_get_int = (\<lambda>j. case j of JNum i \<Rightarrow> Some i | _ \<Rightarrow> None),
      nj_get_uint64 = (\<lambda>j. case j of JNum i \<Rightarrow> Some (word_of_int i) | _ \<Rightarrow> None),
      nj_get_ushort = (\<lambda>j. case j of JNum i \<Rightarrow> Some (word_of_int i) | _ \<Rightarrow> None),
      nj_parse = (\<lambda>bs. if bs = [] then None else Some (JObj [(''method'', JStr (to_text bs)), (''id'', JNum 7),
         (''params'', JArr [JStr []])])),
      nj_dump = (\<lambda>j. Some (jsv_dump j))\<rparr>"

lemma map_of_filter_other: "k' \<noteq> k \<Longrightarrow> map_of (filter (\<lambda>(k', _). k' \<noteq> k) m) k' = map_of m k'"
  by (induction m) auto

lemma json_laws_sample: "json_laws sample_json"
  unfolding json_laws_def
proof (intro conjI allI impI)
  fix j k v j' assume set: "nj_set sample_json j k v = Some j'"
  then show "nj_at sample_json j' k = Some v" by (cases j) (auto simp: sample_json_def)
  show "nj_at sample_json j' k' = nj_at sample_json j k'" if "k' \<noteq> k" for k'
    using set that by (cases j) (auto simp: sample_json_def map_of_filter_other)
  show "nj_set sample_json j' k' v' \<noteq> None" for k' v'
    using set by (cases j) (auto simp: sample_json_def)
qed (simp_all add: sample_json_def)

end
