(* ===== verification/RPCClient.thy ===== *)
theory RPCClient
  imports Commands
begin

section \<open>The client of the Bitcoin node: RPCClient.h, RPCClient.cxx\<close>

text \<open>
  The client sends JSON-RPC requests over one HTTP connection and hands every caller a future. The
  promises behind the futures are the list \<open>rc_promises\<close>, the newest last: a future is an index into it
  and \<open>None\<close> a promise without a value. \<^verbatim>\<open>std::map<int, RPCQuery>\<close> is a map from 32-bit identifiers. What is
  handed to \<^verbatim>\<open>uv_write\<close> is collected in \<open>rc_written\<close>. The results of the libuv calls are arguments, and
  the HTTP parser is a function from its state and the bytes received to the bodies it reports. \<^verbatim>\<open>malloc\<close>
  gives the readable memory from the pointer it returns, with what it happens to contain, or a null
  pointer.
  The mutexes and the atomic counter make each operation here one step.
\<close>

type_synonym i32 = "32 word"

record RPCQuery =
  q_id :: i32
  q_result :: nat

datatype RPCClientState = Init | Connecting | Connected | Disconnecting | Disconnected

record ('j, 'h) RPCClient =
  rc_state :: RPCClientState
  rc_socket :: "nat option"
  rc_address :: string
  rc_port :: u16
  rc_username :: string
  rc_password :: string
  rc_queryMap :: "i32 \<rightharpoonup> RPCQuery"
  rc_cmdId :: i32
  rc_http_parser :: 'h
  rc_promises :: "'j option list"
  rc_written :: "byte list list"

record ('j, 'h) rpc_env = "'j nlohmann" +
  http_parser_execute :: "'h \<Rightarrow> byte list \<Rightarrow> 'h \<times> byte list list"
  http_parser_init :: 'h
  rpc_uv_write :: "byte list \<Rightarrow> int"
  env_malloc :: "nat \<Rightarrow> byte list option"

definition RPCClient_new :: "('j, 'h, 'm) rpc_env_scheme \<Rightarrow> string \<Rightarrow> u32 \<Rightarrow> string \<Rightarrow> string \<Rightarrow> ('j, 'h) RPCClient" where
  "RPCClient_new env addr port username password =
     \<lparr>rc_state = Init, rc_socket = None, rc_address = addr, rc_port = ucast port, rc_username = username,
      rc_password = password, rc_queryMap = Map.empty, rc_cmdId = 0, rc_http_parser = http_parser_init env,
      rc_promises = [], rc_written = []\<rparr>"

subsection \<open>Queries\<close>

definition AddQuery :: "RPCQuery \<Rightarrow> ('j, 'h) RPCClient \<Rightarrow> ('j, 'h) RPCClient" where
  "AddQuery q c =
     (case rc_queryMap c (q_id q) of
        Some old \<Rightarrow> c
      | None \<Rightarrow> c\<lparr>rc_queryMap := (rc_queryMap c)(q_id q \<mapsto> q)\<rparr>)"

text \<open>Setting the value of a promise a second time throws, and nothing here catches it.\<close>

definition CompleteQuery :: "i32 \<Rightarrow> 'j \<Rightarrow> (unit, ('j, 'h) RPCClient) action" where
  "CompleteQuery ident data c =
     (case rc_queryMap c ident of
        Some q \<Rightarrow>
          if q_result q < length (rc_promises c) \<and> rc_promises c ! q_result q = None then
            Val () (c\<lparr>rc_promises := (rc_promises c)[q_result q := Some data],
                     rc_queryMap := (rc_queryMap c)(ident := None)\<rparr>)
          else Fault Uncaught_exception
      | None \<Rightarrow> Val () c)"

definition crlf :: string where
  "crlf = [CHR 0x0D, CHR 0x0A]"

definition RPC_request :: "('j, 'h) RPCClient \<Rightarrow> byte list \<Rightarrow> byte list" where
  "RPC_request c data =
     to_bytes (''POST / HTTP/1.1'' @ crlf @ ''Content-Type: application/json'' @ crlf @ ''Content-Length: ''
       @ decimal (int (length data)) @ crlf @ ''Connection: keep-alive'' @ crlf @ ''Authorization: Basic ''
       @ EncodeBase64 (to_bytes (rc_username c @ '':'' @ rc_password c)) @ crlf @ crlf) @ data"

definition RPC_WriteInternal_bytes ::
  "('j, 'h, 'm) rpc_env_scheme \<Rightarrow> byte list \<Rightarrow> (int, ('j, 'h) RPCClient) action" where
  "RPC_WriteInternal_bytes env data c =
     (let buf = RPC_request c data in
      case env_malloc env (length buf) of
        None \<Rightarrow> Val 0 c
      | Some nbuf \<Rightarrow>
          (case rc_socket c of
             None \<Rightarrow> Fault Null_dereference
           | Some s \<Rightarrow>
               let err = rpc_uv_write env buf in
               Val err (if err \<noteq> 0 then c else c\<lparr>rc_written := rc_written c @ [buf]\<rparr>)))"

definition RPC_WriteInternal :: "('j, 'h, 'm) rpc_env_scheme \<Rightarrow> 'j \<Rightarrow> (int, ('j, 'h) RPCClient) action" where
  "RPC_WriteInternal env j = bindA (or_throw (nj_dump env j)) (RPC_WriteInternal_bytes env)"

definition SendQuery :: "('j, 'h, 'm) rpc_env_scheme \<Rightarrow> 'j \<Rightarrow> (nat, ('j, 'h) RPCClient) action" where
  "SendQuery env j =
     bindA (read_state (\<lambda>c. (rc_cmdId c, length (rc_promises c)))) (\<lambda>(ident, ft).
     bindA (modify (\<lambda>c. c\<lparr>rc_cmdId := rc_cmdId c + 1, rc_promises := rc_promises c @ [None]\<rparr>)) (\<lambda>_.
     bindA (modify (AddQuery \<lparr>q_id = ident, q_result = ft\<rparr>)) (\<lambda>_.
     bindA (or_throw (nj_set env j ''id'' (nj_int env (sint ident)))) (\<lambda>j.
     bindA (or_throw (nj_set env j ''jsonrpc'' (nj_string env ''2.0''))) (\<lambda>j.
     bindA (RPC_WriteInternal env j) (\<lambda>_. ret ft))))))"

definition Query_args :: "('j, 'h, 'm) rpc_env_scheme \<Rightarrow> string \<Rightarrow> 'j list \<Rightarrow> (nat, ('j, 'h) RPCClient) action" where
  "Query_args env method args =
     SendQuery env (nj_init env [pair env ''method'' (nj_string env method), pair env ''params'' (nj_init env args)])"

definition Query_arg :: "('j, 'h, 'm) rpc_env_scheme \<Rightarrow> string \<Rightarrow> 'j \<Rightarrow> (nat, ('j, 'h) RPCClient) action" where
  "Query_arg env method args =
     SendQuery env (nj_init env [pair env ''method'' (nj_string env method), pair env ''params'' args])"

definition Query_method :: "('j, 'h, 'm) rpc_env_scheme \<Rightarrow> string \<Rightarrow> (nat, ('j, 'h) RPCClient) action" where
  "Query_method env method = SendQuery env (nj_init env [pair env ''method'' (nj_string env method)])"

subsection \<open>Responses\<close>

definition HandleResponse :: "('j, 'h, 'm) rpc_env_scheme \<Rightarrow> 'j \<Rightarrow> (int, ('j, 'h) RPCClient) action" where
  "HandleResponse env j =
     bindA (or_throw (nj_at env j ''error'')) (\<lambda>e.
       if \<not> nj_is_null env e then ret 0
       else
         bindA (or_throw (Option.bind (nj_member env j ''id'') (nj_get_int env))) (\<lambda>ident.
         bindA (or_throw (nj_member env j ''result'')) (\<lambda>r.
         bindA (CompleteQuery (word_of_int ident) r) (\<lambda>_. ret 1))))"

text \<open>The body callback is called by the parser, a C library: an exception out of it has no handler.\<close>

definition on_body :: "('j, 'h, 'm) rpc_env_scheme \<Rightarrow> byte list \<Rightarrow> (unit, ('j, 'h) RPCClient) action" where
  "on_body env body =
     uncaught (bindA (or_throw (nj_parse env body)) (\<lambda>j. bindA (HandleResponse env j) (\<lambda>_. ret ())))"

fun on_bodies :: "('j, 'h, 'm) rpc_env_scheme \<Rightarrow> byte list list \<Rightarrow> (unit, ('j, 'h) RPCClient) action" where
  "on_bodies env [] = ret ()"
| "on_bodies env (b # bs) = bindA (on_body env b) (\<lambda>_. on_bodies env bs)"

definition RPC_HandleRead :: "('j, 'h, 'm) rpc_env_scheme \<Rightarrow> byte list \<Rightarrow> (int, ('j, 'h) RPCClient) action" where
  "RPC_HandleRead env buf =
     bindA (read_state (\<lambda>c. http_parser_execute env (rc_http_parser c) buf)) (\<lambda>(h, bodies).
     bindA (modify (rc_http_parser_update (\<lambda>_. h))) (\<lambda>_.
     bindA (on_bodies env bodies) (\<lambda>_. ret 1)))"

subsection \<open>The connection\<close>

definition RPC_Connect :: "int \<Rightarrow> int \<Rightarrow> int \<Rightarrow> ('j, 'h) RPCClient \<Rightarrow> ('j, 'h) RPCClient" where
  "RPC_Connect uv_tcp_init uv_ip4_addr uv_tcp_connect c =
     (if rc_state c \<noteq> Init \<and> rc_state c \<noteq> Disconnected then c
      else
        let c = c\<lparr>rc_state := Connecting\<rparr> in
        if uv_tcp_init \<noteq> 0 then c\<lparr>rc_state := Disconnected\<rparr>
        else if uv_ip4_addr \<noteq> 0 then c\<lparr>rc_state := Disconnected\<rparr>
        else if uv_tcp_connect \<noteq> 0 then c\<lparr>rc_state := Disconnected\<rparr>
        else c)"

definition on_connect ::
  "('j, 'h, 'm) rpc_env_scheme \<Rightarrow> nat \<Rightarrow> int \<Rightarrow> int \<Rightarrow> (unit, ('j, 'h) RPCClient) action" where
  "on_connect env handle status uv_read_start =
     (if status \<noteq> 0 then modify (rc_state_update (\<lambda>_. Disconnected))
      else
        bindA (modify (\<lambda>c. c\<lparr>rc_socket := Some handle\<rparr>)) (\<lambda>_.
        bindA (modify (rc_state_update (\<lambda>_. Connected))) (\<lambda>_.
        if uv_read_start \<noteq> 0 then modify (rc_state_update (\<lambda>_. Disconnected))
        else bindA (Query_method env ''getblockchaininfo'') (\<lambda>_. ret ()))))"

definition on_read :: "('j, 'h, 'm) rpc_env_scheme \<Rightarrow> int \<Rightarrow> byte list \<Rightarrow> (unit, ('j, 'h) RPCClient) action" where
  "on_read env nread buf =
     (if nread \<le> 0 then ret ()
      else bindA (RPC_HandleRead env (take (nat nread) buf)) (\<lambda>_. ret ()))"

subsection \<open>Runs of the client\<close>

text \<open>
  The client's state changes when it connects, when the connection is established, when a part of the
  server sends a query (which may throw after the query was registered) and when bytes arrive.
\<close>

inductive rpc_step ::
  "('j, 'h, 'm) rpc_env_scheme \<Rightarrow> ('j, 'h) RPCClient \<Rightarrow> ('j, 'h) RPCClient \<Rightarrow> bool" for env where
  connect: "rpc_step env c (RPC_Connect e1 e2 e3 c)"
| connected: "rc_state c = Connecting \<Longrightarrow> on_connect env h status e c = Val () c' \<Longrightarrow> rpc_step env c c'"
| query: "SendQuery env j c = Val f c' \<Longrightarrow> rpc_step env c c'"
| query_throws: "SendQuery env j c = Exc c' \<Longrightarrow> rpc_step env c c'"
| receive: "on_read env nread buf c = Val () c' \<Longrightarrow> rpc_step env c c'"

inductive rpc_reachable :: "('j, 'h, 'm) rpc_env_scheme \<Rightarrow> ('j, 'h) RPCClient \<Rightarrow> bool" for env where
  start: "rpc_reachable env (RPCClient_new env addr port username password)"
| step: "rpc_reachable env c \<Longrightarrow> rpc_step env c c' \<Longrightarrow> rpc_reachable env c'"

definition unanswered :: "('j, 'h) RPCClient \<Rightarrow> nat \<Rightarrow> bool" where
  "unanswered c f \<longleftrightarrow> f < length (rc_promises c) \<and> rc_promises c ! f = None"

abbreviation query_of :: "nat \<Rightarrow> RPCQuery" where
  "query_of f \<equiv> \<lparr>q_id = of_nat f, q_result = f\<rparr>"

definition rpc_inv :: "('j, 'h) RPCClient \<Rightarrow> bool" where
  "rpc_inv c \<longleftrightarrow>
     rc_cmdId c = of_nat (length (rc_promises c)) \<and>
     (\<forall>i q. rc_queryMap c i = Some q \<longrightarrow> i = of_nat (q_result q) \<and> q = query_of (q_result q) \<and> unanswered c (q_result q)) \<and>
     (length (rc_promises c) \<le> 2 ^ 32 \<longrightarrow>
        (\<forall>f. unanswered c f \<longrightarrow> rc_queryMap c (of_nat f) = Some (query_of f))) \<and>
     rc_state c \<noteq> Disconnecting \<and> (rc_state c = Connected \<longrightarrow> rc_socket c \<noteq> None)"

text \<open>The invariant only looks at the fields the registration and the responses change.\<close>

lemma rpc_inv_cong:
  "rc_cmdId c' = rc_cmdId c \<Longrightarrow> rc_promises c' = rc_promises c \<Longrightarrow> rc_queryMap c' = rc_queryMap c
    \<Longrightarrow> rc_state c' \<noteq> Disconnecting \<Longrightarrow> (rc_state c' = Connected \<Longrightarrow> rc_socket c' \<noteq> None)
    \<Longrightarrow> rpc_inv c \<Longrightarrow> rpc_inv c'"
  by (auto simp: rpc_inv_def unanswered_def)

lemma rpc_inv_pending:
  assumes "rpc_inv c" "rc_queryMap c i = Some q"
  shows "i = of_nat (q_result q)" "q = query_of (q_result q)" "unanswered c (q_result q)"
  using assms unfolding rpc_inv_def by blast+

lemma rpc_inv_register:
  assumes "rpc_inv c"
  shows "rpc_inv (AddQuery (query_of (length (rc_promises c)))
    (c\<lparr>rc_cmdId := rc_cmdId c + 1, rc_promises := rc_promises c @ [None]\<rparr>))" (is "rpc_inv ?d")
proof -
  define n where "n = length (rc_promises c)"
  define d where "d = ?d"
  have fields: "rc_cmdId d = rc_cmdId c + 1" "rc_promises d = rc_promises c @ [None]" "rc_state d = rc_state c"
    "rc_socket d = rc_socket c"
    by (simp_all add: d_def AddQuery_def split: option.splits)
  have un: "unanswered d f \<longleftrightarrow> unanswered c f \<or> f = n" for f
    by (auto simp: unanswered_def fields n_def nth_append less_Suc_eq)
  have fresh: "rc_queryMap c (of_nat n) = None" if "Suc n \<le> 2 ^ 32"
  proof (cases "rc_queryMap c (of_nat n)")
    case (Some q)
    note q = rpc_inv_pending [OF assms Some]
    have "q_result q < n" using q(3) by (simp add: unanswered_def n_def)
    then show ?thesis
      using that q(1) unat_of_nat_id [where 'a = 32, of n] unat_of_nat_id [where 'a = 32, of "q_result q"] by simp
  qed
  have query_map: "rc_queryMap d = (case rc_queryMap c (of_nat n) of
      Some q \<Rightarrow> rc_queryMap c | None \<Rightarrow> (rc_queryMap c)(of_nat n \<mapsto> query_of n))"
    by (simp add: d_def AddQuery_def n_def split: option.splits)
  have "i = of_nat (q_result q) \<and> q = query_of (q_result q) \<and> unanswered d (q_result q)"
    if "rc_queryMap d i = Some q" for i q
    using that rpc_inv_pending [OF assms] unfolding query_map un
    by (cases "rc_queryMap c (of_nat n)") (auto split: if_splits)
  moreover have "rc_queryMap d (of_nat f) = Some (query_of f)" if "Suc n \<le> 2 ^ 32" "unanswered d f" for f
  proof (cases "f = n")
    case True
    then show ?thesis by (simp add: query_map fresh [OF that(1)])
  next
    case False
    then have f: "rc_queryMap c (of_nat f) = Some (query_of f)"
      using that assms un by (simp add: rpc_inv_def n_def)
    with fresh [OF that(1)] show ?thesis by (auto simp: query_map)
  qed
  ultimately have "rpc_inv d"
    using assms by (auto simp: rpc_inv_def fields n_def)
  then show ?thesis by (simp add: d_def)
qed

lemma rpc_inv_complete:
  assumes "rpc_inv c" "rc_queryMap c i = Some q"
  shows "rpc_inv (c\<lparr>rc_promises := (rc_promises c)[q_result q := Some r], rc_queryMap := (rc_queryMap c)(i := None)\<rparr>)"
    (is "rpc_inv ?d")
proof -
  define d where "d = ?d"
  have fields: "rc_cmdId d = rc_cmdId c" "length (rc_promises d) = length (rc_promises c)" "rc_state d = rc_state c"
    "rc_socket d = rc_socket c" "rc_queryMap d = (rc_queryMap c)(i := None)"
    by (simp_all add: d_def)
  note q = rpc_inv_pending [OF assms]
  have un: "unanswered d f \<longleftrightarrow> unanswered c f \<and> f \<noteq> q_result q" for f
    using q(3) by (auto simp: unanswered_def d_def nth_list_update)
  have "j = of_nat (q_result p) \<and> p = query_of (q_result p) \<and> unanswered d (q_result p)"
    if "rc_queryMap d j = Some p" for j p
    using that rpc_inv_pending [OF assms(1), of j p] q(1) by (auto simp: fields un split: if_splits)
  moreover have "rc_queryMap d (of_nat f) = Some (query_of f)"
    if "length (rc_promises c) \<le> 2 ^ 32" "unanswered d f" for f
  proof -
    have f: "rc_queryMap c (of_nat f) = Some (query_of f)" "f \<noteq> q_result q"
      using that assms(1) un by (simp_all add: rpc_inv_def)
    then have "i \<noteq> of_nat f" using q(2) assms(2) by (metis RPCQuery.ext_inject option.inject)
    with f show ?thesis by (simp add: fields)
  qed
  ultimately have "rpc_inv d"
    using assms(1) by (auto simp: rpc_inv_def fields(1-4))
  then show ?thesis by (simp add: d_def)
qed

text \<open>The operations keep the invariant; the answers given stay.\<close>

definition keeps_answers :: "('j, 'h) RPCClient \<Rightarrow> ('j, 'h) RPCClient \<Rightarrow> bool" where
  "keeps_answers c c' \<longleftrightarrow> length (rc_promises c) \<le> length (rc_promises c') \<and>
     (\<forall>f < length (rc_promises c). rc_promises c ! f \<noteq> None \<longrightarrow> rc_promises c' ! f = rc_promises c ! f)"

definition rpc_ok :: "('j, 'h) RPCClient \<Rightarrow> ('j, 'h) RPCClient \<Rightarrow> bool" where
  "rpc_ok c c' \<longleftrightarrow> rpc_inv c' \<and> keeps_answers c c'"

lemma rpc_ok_refl: "rpc_inv c \<Longrightarrow> rpc_ok c c"
  by (simp add: rpc_ok_def keeps_answers_def)

lemma rpc_ok_trans: "rpc_ok c c' \<Longrightarrow> rpc_ok c' c'' \<Longrightarrow> rpc_ok c c''"
  by (fastforce simp: rpc_ok_def keeps_answers_def)

lemma rpc_ok_register:
  assumes "rpc_ok b c"
  shows "rpc_ok b (AddQuery (query_of (length (rc_promises c)))
    (c\<lparr>rc_cmdId := rc_cmdId c + 1, rc_promises := rc_promises c @ [None]\<rparr>))"
proof (rule rpc_ok_trans [OF assms])
  show "rpc_ok c (AddQuery (query_of (length (rc_promises c)))
    (c\<lparr>rc_cmdId := rc_cmdId c + 1, rc_promises := rc_promises c @ [None]\<rparr>))"
    using assms rpc_inv_register [of c]
    by (auto simp: rpc_ok_def keeps_answers_def AddQuery_def nth_append split: option.splits)
qed

lemma rpc_ok_cong:
  "rpc_ok b c \<Longrightarrow> rc_cmdId c' = rc_cmdId c \<Longrightarrow> rc_promises c' = rc_promises c \<Longrightarrow> rc_queryMap c' = rc_queryMap c
    \<Longrightarrow> rc_state c' \<noteq> Disconnecting \<Longrightarrow> (rc_state c' = Connected \<Longrightarrow> rc_socket c' \<noteq> None)
    \<Longrightarrow> rpc_ok b c'"
  using rpc_inv_cong [of c' c] by (simp add: rpc_ok_def keeps_answers_def)

lemma rpc_ok_state: "rpc_ok b c \<Longrightarrow> rc_state c \<noteq> Disconnecting \<and> (rc_state c = Connected \<longrightarrow> rc_socket c \<noteq> None)"
  by (simp add: rpc_ok_def rpc_inv_def)

abbreviation null_stream :: "fault \<Rightarrow> bool" where
  "null_stream e \<equiv> e = Null_dereference"

lemma RPC_WriteInternal_ok:
  assumes "rpc_ok b c"
  shows "holds (\<lambda>_. rpc_ok b) (rpc_ok b) null_stream (RPC_WriteInternal env j) c"
proof -
  have "holds (\<lambda>_. rpc_ok b) (rpc_ok b) null_stream (RPC_WriteInternal_bytes env d) c" for d
  proof -
    have "rpc_ok b (c\<lparr>rc_written := w\<rparr>)" for w
      using rpc_ok_state [OF assms] by (intro rpc_ok_cong [OF assms]) auto
    with assms show ?thesis by (simp add: holds_def RPC_WriteInternal_bytes_def Let_def split: option.splits)
  qed
  then show ?thesis unfolding RPC_WriteInternal_def by (intro holds_rules) (use assms in auto)
qed

lemma SendQuery_ok:
  assumes "rpc_ok b c"
  shows "holds (\<lambda>_. rpc_ok b) (rpc_ok b) null_stream (SendQuery env j) c"
proof -
  have id: "rc_cmdId c = of_nat (length (rc_promises c))" using assms by (simp add: rpc_ok_def rpc_inv_def)
  show ?thesis
    unfolding SendQuery_def
    by (intro holds_bind holds_read_state, unfold prod.case, intro holds_rules)
      (use rpc_ok_register [OF assms] in \<open>auto simp: id intro!: holds_weaken [OF RPC_WriteInternal_ok] holds_ret\<close>)
qed

lemma CompleteQuery_ok:
  assumes "rpc_ok b c"
  shows "holds (\<lambda>_. rpc_ok b) E (\<lambda>_. False) (CompleteQuery i r) c"
proof (cases "rc_queryMap c i")
  case None
  then show ?thesis using assms by (simp add: holds_def CompleteQuery_def)
next
  case (Some q)
  have inv: "rpc_inv c" using assms by (simp add: rpc_ok_def)
  note q = rpc_inv_pending [OF inv Some]
  have "rpc_ok c (c\<lparr>rc_promises := (rc_promises c)[q_result q := Some r], rc_queryMap := (rc_queryMap c)(i := None)\<rparr>)"
    using rpc_inv_complete [OF inv Some] q(3)
    by (auto simp: rpc_ok_def keeps_answers_def unanswered_def nth_list_update)
  then show ?thesis
    using rpc_ok_trans [OF assms] q(3) Some by (simp add: holds_def CompleteQuery_def unanswered_def)
qed

lemma HandleResponse_ok:
  assumes "rpc_ok b c"
  shows "holds (\<lambda>_. rpc_ok b) (rpc_ok b) (\<lambda>_. False) (HandleResponse env j) c"
  unfolding HandleResponse_def
  by (intro holds_rules)
    (use assms in \<open>auto split: if_splits intro!: holds_rules holds_weaken [OF CompleteQuery_ok]\<close>)

lemma on_body_ok:
  "rpc_ok b c \<Longrightarrow> holds (\<lambda>_. rpc_ok b) E (\<lambda>e. e = Uncaught_exception) (on_body env body) c"
  unfolding on_body_def
  by (intro holds_rules) (auto intro!: holds_weaken [OF HandleResponse_ok] holds_rules)

lemma on_bodies_ok:
  "rpc_ok b c \<Longrightarrow> holds (\<lambda>_. rpc_ok b) E (\<lambda>e. e = Uncaught_exception) (on_bodies env bodies) c"
proof (induction bodies arbitrary: c)
  case (Cons x xs)
  then show ?case by (auto intro!: holds_rules holds_weaken [OF on_body_ok])
qed (simp add: holds_rules)

lemma on_read_ok:
  assumes "rpc_ok b c"
  shows "holds (\<lambda>_. rpc_ok b) E (\<lambda>e. e = Uncaught_exception) (on_read env nread buf) c"
proof -
  have "rpc_ok b (c\<lparr>rc_http_parser := h\<rparr>)" for h
    using rpc_ok_state [OF assms] by (intro rpc_ok_cong [OF assms]) auto
  then show ?thesis
    unfolding on_read_def RPC_HandleRead_def
    by (cases "http_parser_execute env (rc_http_parser c) (take (nat nread) buf)")
      (auto intro!: holds_rules holds_weaken [OF on_bodies_ok] assms)
qed

lemma on_connect_ok:
  assumes "rpc_ok b c"
  shows "holds (\<lambda>_. rpc_ok b) (rpc_ok b) null_stream (on_connect env h status e) c"
proof -
  have "rpc_ok b (c\<lparr>rc_state := Disconnected\<rparr>)" "rpc_ok b (c\<lparr>rc_socket := Some h, rc_state := Connected\<rparr>)"
    "rpc_ok b (c\<lparr>rc_socket := Some h, rc_state := Disconnected\<rparr>)"
    by (intro rpc_ok_cong [OF assms]; simp)+
  then show ?thesis
    unfolding on_connect_def Query_method_def
    by (auto intro!: holds_rules holds_weaken [OF SendQuery_ok])
qed

lemma RPC_Connect_ok: "rpc_ok b c \<Longrightarrow> rpc_ok b (RPC_Connect e1 e2 e3 c)"
  by (auto simp: RPC_Connect_def Let_def intro: rpc_ok_cong)

lemma rpc_step_ok: "rpc_step env c c' \<Longrightarrow> rpc_ok b c \<Longrightarrow> rpc_ok b c'"
proof (induction rule: rpc_step.induct)
  case (connected c h status e c')
  then show ?case using on_connect_ok [of b c env h status e] by (simp add: holds_def)
next
  case (query j c f c')
  then show ?case using SendQuery_ok [of b c env j] by (simp add: holds_def)
next
  case (query_throws j c c')
  then show ?case using SendQuery_ok [of b c env j] by (simp add: holds_def)
next
  case (receive nread buf c c')
  then show ?case using on_read_ok [of b c "\<lambda>_. True" env nread buf] by (simp add: holds_def)
qed (rule RPC_Connect_ok)

lemma rpc_reachable_inv: "rpc_reachable env c \<Longrightarrow> rpc_inv c"
proof (induction rule: rpc_reachable.induct)
  case (step c c')
  then show ?case using rpc_step_ok [OF step(2) rpc_ok_refl] by (simp add: rpc_ok_def)
qed (simp add: rpc_inv_def RPCClient_new_def unanswered_def)

subsection \<open>Properties\<close>

lemma rpc_pending:
  assumes "rpc_reachable env c" "length (rc_promises c) \<le> 2 ^ 32"
  shows "rc_queryMap c = (\<lambda>i. if unanswered c (unat i) then Some (query_of (unat i)) else None)
    \<and> (rc_state c = Connected \<longrightarrow> rc_socket c \<noteq> None)"
proof (intro conjI ext)
  note inv = rpc_reachable_inv [OF assms(1)]
  show "rc_state c = Connected \<longrightarrow> rc_socket c \<noteq> None" using inv by (simp add: rpc_inv_def)
  fix i
  show "rc_queryMap c i = (if unanswered c (unat i) then Some (query_of (unat i)) else None)"
  proof (cases "rc_queryMap c i")
    case None
    then show ?thesis using inv assms(2) by (auto simp: rpc_inv_def)
  next
    case (Some q)
    note q = rpc_inv_pending [OF inv Some]
    have "q_result q < 2 ^ 32" using q(3) assms(2) by (simp add: unanswered_def)
    then have "unat i = q_result q" using q(1) unat_of_nat_id [where 'a = 32, of "q_result q"] by simp
    with Some q show ?thesis by simp
  qed
qed

text \<open>(C8) In every reachable state in which at most \<open>2 ^ 32\<close> queries have been sent, the map of pending
  queries holds exactly the queries whose future has no value yet, each under its own identifier: no
  query is lost, none is answered twice or under another's identifier, whatever was thrown on the way.
  And a connected client has a socket.\<close>

theorem rpc_pending_exact:
  assumes "rpc_reachable env c" "length (rc_promises c) \<le> 2 ^ 32"
  shows "rc_queryMap c = (\<lambda>i. if unanswered c (unat i) then Some (query_of (unat i)) else None)
    \<and> (rc_state c = Connected \<longrightarrow> rc_socket c \<noteq> None)"
  by (rule rpc_pending [OF assms])

text \<open>(C23) A response without an error reaches the query it belongs to: in every reachable state it is handled
  without a fault, gives its result to the future that waits under its identifier and to no other, and
  changes nothing when no query waits there.\<close>

theorem rpc_response:
  assumes "rpc_reachable env c" "nj_at env j ''error'' = Some e" "nj_is_null env e"
    and "Option.bind (nj_member env j ''id'') (nj_get_int env) = Some i" "nj_member env j ''result'' = Some r"
  shows "HandleResponse env j c = Val 1
    (case rc_queryMap c (word_of_int i) of
      None \<Rightarrow> c
    | Some q \<Rightarrow> c\<lparr>rc_promises := (rc_promises c)[q_result q := Some r],
        rc_queryMap := (rc_queryMap c)(word_of_int i := None)\<rparr>)"
proof -
  have "CompleteQuery (word_of_int i) r c = Val ()
    (case rc_queryMap c (word_of_int i) of
      None \<Rightarrow> c
    | Some q \<Rightarrow> c\<lparr>rc_promises := (rc_promises c)[q_result q := Some r],
        rc_queryMap := (rc_queryMap c)(word_of_int i := None)\<rparr>)"
    using rpc_inv_pending(3) [OF rpc_reachable_inv [OF assms(1)]]
    by (auto simp: CompleteQuery_def unanswered_def split: option.splits)
  with assms(2-5) show ?thesis
    by (simp add: HandleResponse_def action_simps)
qed

subsection \<open>A run\<close>

text \<open>A parser that reports every read as one body, a connection that is established, the query sent then,
  and its answer.\<close>

definition sample_response :: jsv where
  "sample_response = JObj [(''error'', JNull), (''id'', JNum 0), (''result'', JNum 42)]"

definition sample_rpc_env :: "(jsv, unit) rpc_env" where
  "sample_rpc_env = nlohmann.extend (sample_json\<lparr>nj_parse := (\<lambda>_. Some sample_response)\<rparr>)
     \<lparr>http_parser_execute = (\<lambda>h bs. (h, [bs])), http_parser_init = (), rpc_uv_write = (\<lambda>_. 0),
      env_malloc = (\<lambda>n. Some (replicate n 0))\<rparr>"

definition sample_client :: "(jsv, unit) RPCClient" where
  "sample_client = RPCClient_new sample_rpc_env ''127.0.0.1'' 8332 ''user'' ''pass''"

lemmas sample_rpc_simps = sample_rpc_env_def sample_json_def nlohmann.defs pair_def sample_response_def
lemmas action_defs = bindA_def modify_def read_state_def or_throw_def ret_def uncaught_def
lemmas query_defs = Query_method_def SendQuery_def RPC_WriteInternal_def AddQuery_def RPC_WriteInternal_bytes_def Let_def

lemma sample_response_facts:
  "nj_at sample_rpc_env sample_response ''error'' = Some JNull" "nj_is_null sample_rpc_env JNull"
  "Option.bind (nj_member sample_rpc_env sample_response ''id'') (nj_get_int sample_rpc_env) = Some 0"
  "nj_member sample_rpc_env sample_response ''result'' = Some (JNum 42)"
  by (simp_all add: sample_rpc_simps)

lemma sample_run:
  obtains c where "rpc_reachable sample_rpc_env c" "rc_state c = Connected" "rc_promises c = [None]"
    "rc_queryMap c = [0 \<mapsto> query_of 0]" "rc_socket c = Some 5"
proof -
  let ?c = "RPC_Connect 0 0 0 sample_client"
  have start: "rpc_reachable sample_rpc_env ?c"
    unfolding sample_client_def
    by (rule rpc_reachable.step, rule rpc_reachable.start, rule rpc_step.connect)
  obtain c where c: "on_connect sample_rpc_env 5 0 0 ?c = Val () c" "rc_state c = Connected"
    "rc_promises c = [None]" "rc_queryMap c = [0 \<mapsto> query_of 0]" "rc_socket c = Some 5"
    by (simp add: on_connect_def query_defs action_defs sample_rpc_simps sample_client_def RPCClient_new_def
        RPC_Connect_def)
  have "rc_state ?c = Connecting" by (simp add: sample_client_def RPCClient_new_def RPC_Connect_def)
  then have "rpc_reachable sample_rpc_env c"
    using start c(1) by (auto intro: rpc_reachable.step rpc_step.connected)
  with c show thesis by (intro that)
qed

theorem rpc_pending_exact_witness:
  "\<exists>c. rpc_reachable sample_rpc_env c \<and> rc_state c = Connected \<and> rc_socket c \<noteq> None
    \<and> rc_queryMap c 0 = Some (query_of 0) \<and> rc_queryMap c 1 = None"
proof -
  obtain c where c: "rpc_reachable sample_rpc_env c" "rc_state c = Connected" "rc_promises c = [None]"
    by (rule sample_run)
  show ?thesis
    using rpc_pending_exact [OF c(1)] c by (intro exI [of _ c]) (simp add: unanswered_def)
qed

theorem rpc_response_witness:
  "\<exists>c c'. rpc_reachable sample_rpc_env c \<and> rc_promises c = [None]
    \<and> HandleResponse sample_rpc_env sample_response c = Val 1 c' \<and> rc_promises c' = [Some (JNum 42)]"
proof -
  obtain c where c: "rpc_reachable sample_rpc_env c" "rc_promises c = [None]" "rc_queryMap c = [0 \<mapsto> query_of 0]"
    by (rule sample_run)
  show ?thesis
    using rpc_response [OF c(1) sample_response_facts] c by (intro exI [of _ c] exI conjI) (assumption | simp)+
qed

end
