(* ===== verification/JsonRPCServer.thy ===== *)
theory JsonRPCServer
  imports RPCClient TXODB
begin

section \<open>The server of a connection: JsonRPCServer.h, JsonRPCServer.cxx\<close>

text \<open>
  One object serves one connection. The record holds its members, the client of the Bitcoin node and the
  database it shares (a null pointer is \<open>None\<close>) and the buffers handed to \<^verbatim>\<open>uv_write\<close>. Lengths and offsets
  are integers, as their \<^verbatim>\<open>ssize_t\<close> and \<^verbatim>\<open>int\<close> are far from overflowing; the flags of \<^verbatim>\<open>state\<close> are a word.

  The environment gives the libraries: JSON, the HTTP parser and \<^verbatim>\<open>malloc\<close> as for the client, LMDB, libuv's
  \<^verbatim>\<open>uv_write\<close> and mbed TLS. \<^verbatim>\<open>malloc\<close> and \<^verbatim>\<open>realloc\<close> may give a null pointer, for any size; nothing here asks
  whether they did, and what is copied through one is a fault. A call of
  mbed TLS is a \<open>bio\<close>: it calls the server's two callbacks to receive and to send any number of times
  and ends with a result.
\<close>

datatype 'a bio =
    Done 'a
  | Recv nat "int \<times> byte list \<Rightarrow> 'a bio"
  | Send "byte list" "int \<Rightarrow> 'a bio"

record ('j, 'h, 'e, 'c) server_env = "('j, 'h) rpc_env" +
  env_lmdb :: "'e lmdb"
  env_fmt_n :: "int \<Rightarrow> string"
  env_uv_write :: "byte list \<Rightarrow> int"
  ssl_setup :: 'c
  ssl_handshake :: "'c \<Rightarrow> (int \<times> 'c) bio"
  ssl_read :: "'c \<Rightarrow> nat \<Rightarrow> (int \<times> byte list \<times> 'c) bio"
  ssl_write :: "'c \<Rightarrow> byte list \<Rightarrow> (int \<times> 'c) bio"
  ssl_session_reset :: "'c \<Rightarrow> 'c"
  SSL_WANT_READ :: int
  SSL_WANT_WRITE :: int

definition START :: u32 where "START = 1"
definition NORMAL :: u32 where "NORMAL = 2"
definition SSL_NORMAL :: u32 where "SSL_NORMAL = 4"
definition SSL_HANDSHAKE :: u32 where "SSL_HANDSHAKE = 8"

definition JSONRPC_BUFF_LEN :: int where "JSONRPC_BUFF_LEN = 1024"
definition JSONRPC_MAX_BUFFER :: int where "JSONRPC_MAX_BUFFER = 16384"
definition JSONRPC_DELIM :: byte where "JSONRPC_DELIM = 10"

record ('j, 'h, 'e, 'c) JsonRPCServer =
  jr_ssl :: "'c option"
  jr_ssl_config :: bool
  jr_ssl_buf :: "byte list option"
  jr_ssl_buf_offset :: int
  jr_ssl_buf_len :: int
  jr_state :: u32
  jr_rpc :: "('j, 'h) RPCClient option"
  jr_db :: 'e
  jr_buf :: "byte list option"
  jr_offset :: int
  jr_len :: int
  jr_sent :: "byte list list"

definition JsonRPCServer_new ::
  "'e \<Rightarrow> ('j, 'h) RPCClient option \<Rightarrow> bool \<Rightarrow> ('j, 'h, 'e, 'c) JsonRPCServer" where
  "JsonRPCServer_new db rpc ssl_cfg =
     \<lparr>jr_ssl = None, jr_ssl_config = ssl_cfg, jr_ssl_buf = None, jr_ssl_buf_offset = 0, jr_ssl_buf_len = 0,
      jr_state = START, jr_rpc = rpc, jr_db = db, jr_buf = None, jr_offset = 0, jr_len = 0, jr_sent = []\<rparr>"

type_synonym ('a, 'j, 'h, 'e, 'c) handler = "('a, ('j, 'h, 'e, 'c) JsonRPCServer) action"

definition flag :: "u32 \<Rightarrow> ('j, 'h, 'e, 'c) JsonRPCServer \<Rightarrow> bool" where
  "flag f s \<longleftrightarrow> jr_state s AND f \<noteq> 0"

text \<open>Operations of the client and of the database, run on the one the server points to.\<close>

definition on_rpc :: "('a, ('j, 'h) RPCClient) action \<Rightarrow> ('a, 'j, 'h, 'e, 'c) handler" where
  "on_rpc act s =
     (case jr_rpc s of
        None \<Rightarrow> Fault Null_dereference
      | Some c \<Rightarrow>
          (case act c of
             Val x c' \<Rightarrow> Val x (s\<lparr>jr_rpc := Some c'\<rparr>)
           | Exc c' \<Rightarrow> Exc (s\<lparr>jr_rpc := Some c'\<rparr>)
           | Fault e \<Rightarrow> Fault e))"

definition on_db :: "('a, 'e) action \<Rightarrow> ('a, 'j, 'h, 'e, 'c) handler" where
  "on_db act s =
     (case act (jr_db s) of
        Val x d \<Rightarrow> Val x (s\<lparr>jr_db := d\<rparr>)
      | Exc d \<Rightarrow> Exc (s\<lparr>jr_db := d\<rparr>)
      | Fault e \<Rightarrow> Fault e)"

subsection \<open>Writing\<close>

text \<open>
  \<^verbatim>\<open>WriteInternal\<close> allocates an array of two \<^verbatim>\<open>uv_buf_t\<close>. \<^verbatim>\<open>HandleWrite\<close> takes the pointer to it for a pointer
  to arrays of two, so that its \<^verbatim>\<open>srv[1]->base\<close> is the member of element 2.
\<close>

definition HandleWrite :: "'b list \<Rightarrow> int \<Rightarrow> (int, 'w) action" where
  "HandleWrite sbuf status =
     (if 2 * 1 < length sbuf then ret 1 else fault Out_of_bounds)"

definition WriteInternal_bytes ::
  "('j, 'h, 'e, 'c, 'm) server_env_scheme \<Rightarrow> byte list \<Rightarrow> (int, 'j, 'h, 'e, 'c) handler" where
  "WriteInternal_bytes env buf =
     (let sbuf = [buf, []] in
      if env_malloc env (length buf) = None \<and> buf \<noteq> [] then fault Null_dereference
      else if env_uv_write env buf \<noteq> 0 then bindA (HandleWrite sbuf 0) (\<lambda>_. ret 0)
      else bindA (modify (\<lambda>s. s\<lparr>jr_sent := jr_sent s @ [buf]\<rparr>)) (\<lambda>_. ret (int (length buf))))"

definition WriteInternal_json ::
  "('j, 'h, 'e, 'c, 'm) server_env_scheme \<Rightarrow> 'j \<Rightarrow> (int, 'j, 'h, 'e, 'c) handler" where
  "WriteInternal_json env data =
     bindA (or_throw (nj_dump env data)) (\<lambda>d. WriteInternal_bytes env (d @ [JSONRPC_DELIM]))"

subsection \<open>TLS\<close>

text \<open>The receive callback hands mbed TLS the bytes of the read that is being handled.\<close>

definition bio_recv ::
  "('j, 'h, 'e, 'c, 'm) server_env_scheme \<Rightarrow> nat \<Rightarrow> (int \<times> byte list, 'j, 'h, 'e, 'c) handler" where
  "bio_recv env len s =
     (if jr_ssl_buf_len s = 0 then Val (SSL_WANT_READ env, []) s
      else
        let rlen = min (jr_ssl_buf_len s - jr_ssl_buf_offset s) (int len) in
        (case jr_ssl_buf s of
           None \<Rightarrow> Fault Null_dereference
         | Some b \<Rightarrow>
             if rlen < 0 \<or> jr_ssl_buf_offset s + rlen > int (length b) then Fault Heap_overflow
             else
               let bs = take (nat rlen) (drop (nat (jr_ssl_buf_offset s)) b) in
               if rlen = jr_ssl_buf_len s - jr_ssl_buf_offset s then
                 Val (rlen, bs) (s\<lparr>jr_ssl_buf := None, jr_ssl_buf_len := 0, jr_ssl_buf_offset := 0\<rparr>)
               else Val (rlen, bs) (s\<lparr>jr_ssl_buf_offset := jr_ssl_buf_offset s + rlen\<rparr>)))"

primrec run_bio ::
  "('j, 'h, 'e, 'c, 'm) server_env_scheme \<Rightarrow> 'a bio \<Rightarrow> ('a, 'j, 'h, 'e, 'c) handler" where
  "run_bio env (Done x) = ret x"
| "run_bio env (Recv n k) = bindA (bio_recv env n) (\<lambda>r. run_bio env (k r))"
| "run_bio env (Send bs k) = bindA (WriteInternal_bytes env bs) (\<lambda>r. run_bio env (k r))"

text \<open>A call of mbed TLS on the context \<^verbatim>\<open>ssl\<close>.\<close>

definition with_ssl ::
  "('j, 'h, 'e, 'c, 'm) server_env_scheme \<Rightarrow> ('c \<Rightarrow> ('a \<times> 'c) bio) \<Rightarrow> ('a, 'j, 'h, 'e, 'c) handler" where
  "with_ssl env f =
     bindA (read_state jr_ssl) (\<lambda>ssl. bindA (or_fault Null_dereference ssl) (\<lambda>c.
     bindA (run_bio env (f c)) (\<lambda>(r, c'). bindA (modify (\<lambda>s. s\<lparr>jr_ssl := Some c'\<rparr>)) (\<lambda>_. ret r))))"

definition TryHandshake :: "('j, 'h, 'e, 'c, 'm) server_env_scheme \<Rightarrow> (int, 'j, 'h, 'e, 'c) handler" where
  "TryHandshake env =
     bindA (with_ssl env (ssl_handshake env)) (\<lambda>hsr.
       if hsr = 0 then
         bindA (modify (\<lambda>s. s\<lparr>jr_state := jr_state s XOR SSL_HANDSHAKE\<rparr>)) (\<lambda>_. ret 2)
       else if hsr = SSL_WANT_READ env \<or> hsr = SSL_WANT_WRITE env then ret 1
       else
         bindA (modify (\<lambda>s. s\<lparr>jr_ssl := map_option (ssl_session_reset env) (jr_ssl s),
             jr_ssl_buf_offset := 0, jr_ssl_buf_len := 0, jr_ssl_buf := None\<rparr>)) (\<lambda>_. ret 0))"

definition InitTLSContext :: "('j, 'h, 'e, 'c, 'm) server_env_scheme \<Rightarrow> (unit, 'j, 'h, 'e, 'c) handler" where
  "InitTLSContext env = modify (\<lambda>s. s\<lparr>jr_state := jr_state s OR SSL_NORMAL, jr_ssl := Some (ssl_setup env)\<rparr>)"

definition JsonRPC_Write ::
  "('j, 'h, 'e, 'c, 'm) server_env_scheme \<Rightarrow> byte list \<Rightarrow> (int, 'j, 'h, 'e, 'c) handler" where
  "JsonRPC_Write env buf =
     bindA (read_state (flag SSL_NORMAL)) (\<lambda>tls.
       if tls then with_ssl env (\<lambda>c. ssl_write env c buf)
       else bindA (read_state (flag NORMAL)) (\<lambda>normal. if normal then WriteInternal_bytes env buf else ret 0))"

text \<open>The bytes are \<^verbatim>\<open>char\<close>, which is signed on the target.\<close>

definition IsTLSClientHello :: "int \<Rightarrow> byte list \<Rightarrow> bool" where
  "IsTLSClientHello nread buf \<longleftrightarrow>
     nread > 4 \<and> (buf ! 0 = 0x16 \<and> buf ! 1 = 0x03) \<and> (sint (buf ! 2) \<ge> 0 \<and> sint (buf ! 2) \<le> 3)"

subsection \<open>The buffer of unfinished requests\<close>

text \<open>\<^verbatim>\<open>realloc\<close> gives a block that begins with what the old one held. A null pointer of either call is stored
  as it is, with the new length.\<close>

definition reallocated :: "byte list \<Rightarrow> byte list \<Rightarrow> byte list" where
  "reallocated old block = take (length block) (old @ drop (length old) block)"

definition ensure_space ::
  "('j, 'h, 'e, 'c, 'm) server_env_scheme \<Rightarrow> int \<Rightarrow> ('j, 'h, 'e, 'c) JsonRPCServer \<Rightarrow> ('j, 'h, 'e, 'c) JsonRPCServer option" where
  "ensure_space env nread s =
     (if nread + jr_offset s > jr_len s then
        let min_size = jr_offset s + nread + 1 in
        if min_size > JSONRPC_MAX_BUFFER then None
        else
          let len = min_size + (min_size mod JSONRPC_BUFF_LEN); block = env_malloc env (nat len) in
          Some (s\<lparr>jr_len := len,
            jr_buf := (case jr_buf s of None \<Rightarrow> block
              | Some old \<Rightarrow> map_option (reallocated (take (nat (jr_len s)) old)) block)\<rparr>)
      else Some s)"

definition AppendBuffer ::
  "('j, 'h, 'e, 'c, 'm) server_env_scheme \<Rightarrow> int \<Rightarrow> byte list \<Rightarrow> (int, 'j, 'h, 'e, 'c) handler" where
  "AppendBuffer env nread src s =
     (if nread \<le> 0 then Val 0 s
      else
        (case ensure_space env nread s of
           None \<Rightarrow> Val 0 s
         | Some s \<Rightarrow>
             (case jr_buf s of
                None \<Rightarrow> Fault Null_dereference
              | Some b \<Rightarrow>
                  if jr_offset s + nread > int (length b) \<or> nread > int (length src) then Fault Heap_overflow
                  else Val 1 (s\<lparr>jr_buf := Some (take (nat (jr_offset s)) b @ take (nat nread) src
                                @ drop (nat (jr_offset s + nread)) b),
                         jr_offset := jr_offset s + nread\<rparr>))))"

subsection \<open>Replies\<close>

definition CommandSuccess ::
  "('j, 'm) nlohmann_scheme \<Rightarrow> int \<Rightarrow> 'j option \<Rightarrow> 'j \<Rightarrow> ('j, 'w) action" where
  "CommandSuccess n id' result j =
     bindA (or_throw (nj_set n (nj_clear n j) ''id'' (nj_int n id'))) (\<lambda>j.
     bindA (or_throw (nj_set n j ''jsonrpc'' (nj_string n ''2.0''))) (\<lambda>j.
     bindA (or_throw result) (\<lambda>result. or_throw (nj_set n j ''result'' result))))"

definition CommandError ::
  "('j, 'm) nlohmann_scheme \<Rightarrow> int \<Rightarrow> string \<Rightarrow> int \<Rightarrow> 'j \<Rightarrow> ('j, 'w) action" where
  "CommandError n id' msg err j =
     bindA (or_throw (nj_set n (nj_clear n j) ''id'' (nj_int n id'))) (\<lambda>j.
     bindA (or_throw (nj_set n j ''jsonrpc'' (nj_string n ''2.0''))) (\<lambda>j.
     bindA (or_throw (nj_set n (nj_null n) ''message'' (nj_string n msg))) (\<lambda>error.
     bindA (or_throw (nj_set n error ''code'' (nj_int n err))) (\<lambda>error.
       or_throw (nj_set n j ''error'' error)))))"

definition reply_error ::
  "('j, 'h, 'e, 'c, 'm) server_env_scheme \<Rightarrow> int \<Rightarrow> string \<Rightarrow> int \<Rightarrow> (int, 'j, 'h, 'e, 'c) handler" where
  "reply_error env id' msg err =
     bindA (CommandError env id' msg err (nj_null env)) (\<lambda>j. bindA (WriteInternal_json env j) (\<lambda>_. ret 0))"

definition reply_success ::
  "('j, 'h, 'e, 'c, 'm) server_env_scheme \<Rightarrow> int \<Rightarrow> 'j option \<Rightarrow> (int, 'j, 'h, 'e, 'c) handler" where
  "reply_success env id' result =
     bindA (CommandSuccess env id' result (nj_null env)) (\<lambda>j. bindA (WriteInternal_json env j) (\<lambda>_. ret 0))"

subsection \<open>Commands\<close>

text \<open>The results of the commands that are answered at once, group by group.\<close>

definition ONE :: u32 where "ONE = 0x3f800000"

definition header_hex :: string where
  "header_hex = ''01000030c306405f586ae1ae2330cb3f8a1ecf5e8f50192682656ddb5fa000fb486af66f4d304c05be48e86ad3f56d8f639d5c124f3cedb3a08d539ef5aabbdba9582708f32e975dffff7f2006000000''"

fun bc_result :: "('j, 'm) nlohmann_scheme \<Rightarrow> ElectrumCommands \<Rightarrow> 'j option option" where
  "bc_result n BCEstimatefee = Some (Some (BCEstimatefeeResponse_to_json n \<lparr>ef_value = ONE\<rparr>))"
| "bc_result n BCHeadersSubscribe =
     Some (Some (BCHeadersSubscribeResponse_to_json n \<lparr>hs_height = 10, hs_hex = ParseHex header_hex\<rparr>))"
| "bc_result n BCRelayfee = Some (Some (BCRelayfeeResponse_to_json n \<lparr>rf_value = ONE\<rparr>))"
| "bc_result n c = None"

fun sh_result :: "('j, 'm) nlohmann_scheme \<Rightarrow> ElectrumCommands \<Rightarrow> 'j option option" where
  "sh_result n SHGetBalance = Some (Some (SHGetBalanceResponse_to_json n \<lparr>gb_confirmed = [], gb_unconfirmed = []\<rparr>))"
| "sh_result n SHGetHistory = Some (SHGetHistoryResponse_to_json n \<lparr>gh_history = []\<rparr>)"
| "sh_result n SHGetMempool = Some (SHGetMempoolResponse_to_json n \<lparr>gm_result = []\<rparr>)"
| "sh_result n SHHistory = Some (Some (SHHistoryResponse_to_json (nj_null n) \<lparr>hi_more = False, hi_history = []\<rparr>))"
| "sh_result n SHListUnspent = Some (SHListUnspentResponse_to_json n \<lparr>lu_utxos = []\<rparr>)"
| "sh_result n SHUTXOS = Some (Some (SHUTXOSResponse_to_json (nj_null n) \<lparr>ut_more = False, ut_utxos = []\<rparr>))"
| "sh_result n c = None"

fun tx_result :: "('j, 'm) nlohmann_scheme \<Rightarrow> ElectrumCommands \<Rightarrow> 'j option option" where
  "tx_result n TXBroadcast = Some (Some (TXBroadcastResponse_to_json n \<lparr>tb_result = []\<rparr>))"
| "tx_result n TXGet = Some (TXGetResponse_to_json n \<lparr>tg_hex_or_rpc_response = []\<rparr>)"
| "tx_result n TXGetMerkle =
     Some (Some (TXGetMerkleResponse_to_json n \<lparr>tm_merkle = [], tm_block_height = 0, tm_pos = 0\<rparr>))"
| "tx_result n TXIdFromPos = Some (Some (TXIdFromPosResponse_to_json n \<lparr>tp_tx_hash = [], tp_merkle = []\<rparr>))"
| "tx_result n MPChanges = Some (Some (MPChangesResponse_to_json n MPChangesResponse))"
| "tx_result n MPGetFeeHistogram = Some (MPGetFeeHistogramResponse_to_json n \<lparr>fh_history = []\<rparr>)"
| "tx_result n c = None"

fun sv_result :: "('j, 'm) nlohmann_scheme \<Rightarrow> (int \<Rightarrow> string) \<Rightarrow> ElectrumCommands \<Rightarrow> 'j option option" where
  "sv_result n fmt_n SVAddPeer = Some (Some (SVAddPeerResponse_to_json n \<lparr>ap_response = False\<rparr>))"
| "sv_result n fmt_n SVBanner = Some (Some (SVBannerResponse_to_json n \<lparr>ba_banner = []\<rparr>))"
| "sv_result n fmt_n SVDonationAddress = Some (Some (string_to_json n ''2MzwLdkKRKqHtmpbXoYpXjm7SKT8LeGXriM''))"
| "sv_result n fmt_n SVFeatures =
     Some (Some (SVFeaturesResponse_to_json n \<lparr>fe_genesis_hash = [], fe_server_version = [], fe_hash_function = [],
       fe_protocol_max = 0, fe_protocol_min = 0, fe_hosts = []\<rparr>))"
| "sv_result n fmt_n SVPeersSubscribe = Some (SVPeersSubscribeResponse_to_json n fmt_n \<lparr>ps_peers = []\<rparr>)"
| "sv_result n fmt_n SVPing = Some (Some (SVPingResponse_to_json n SVPingResponse))"
| "sv_result n fmt_n SVVersion =
     Some (Some (SVVersionResponse_to_json n \<lparr>ve_software_version = ''ElectrumZ'', ve_protocol_version = ''1.4.1''\<rparr>))"
| "sv_result n fmt_n c = None"

text \<open>Reading a parameter that may be a number: it only matters whether the conversion throws.\<close>

definition number_param :: "('j, 'm) nlohmann_scheme \<Rightarrow> 'j \<Rightarrow> nat \<Rightarrow> (unit, 'w) action" where
  "number_param n params i =
     bindA (or_throw (nj_index n params i)) (\<lambda>p.
       if nj_is_number n p then bindA (or_throw (nj_get_uint64 n p)) (\<lambda>_. ret ()) else ret ())"

definition invalid_params ::
  "('j, 'h, 'e, 'c, 'm) server_env_scheme \<Rightarrow> int \<Rightarrow> (int, 'j, 'h, 'e, 'c) handler" where
  "invalid_params env id' = reply_error env id' ''Invalid params'' (-32602)"

definition handle_block_header ::
  "('j, 'h, 'e, 'c, 'm) server_env_scheme \<Rightarrow> 'j \<Rightarrow> int \<Rightarrow> (int, 'j, 'h, 'e, 'c) handler" where
  "handle_block_header env cmd id' =
     bindA (or_throw (nj_member env cmd ''params'')) (\<lambda>params.
       if nj_is_array env params then
         bindA (number_param env params 0) (\<lambda>_. bindA (number_param env params 1) (\<lambda>_.
         bindA (or_throw (Option.bind (nj_index env params 0) (nj_get_int env))) (\<lambda>h.
         bindA (on_rpc (Query_args env ''getblockhash'' [nj_int env h, nj_string env ''test''])) (\<lambda>_.
           reply_success env id'
             (Some (BCBlockHeaderResponse_to_json env \<lparr>bh_branch = [], bh_header = [], bh_root = []\<rparr>))))))
       else invalid_params env id')"

definition handle_block_headers ::
  "('j, 'h, 'e, 'c, 'm) server_env_scheme \<Rightarrow> 'j \<Rightarrow> int \<Rightarrow> (int, 'j, 'h, 'e, 'c) handler" where
  "handle_block_headers env cmd id' =
     bindA (or_throw (nj_member env cmd ''params'')) (\<lambda>params.
       if nj_is_array env params then
         bindA (number_param env params 0) (\<lambda>_. bindA (number_param env params 1) (\<lambda>_.
         bindA (number_param env params 2) (\<lambda>_.
           reply_success env id'
             (Some (BCBlockHeadersResponse_to_json env \<lparr>bhs_count = 0, bhs_hex = [], bhs_max = 0\<rparr>)))))
       else invalid_params env id')"

text \<open>The constructor of \<^verbatim>\<open>uint256\<close> asserts that it is given 32 bytes.\<close>

definition handle_subscribe ::
  "('j, 'h, 'e, 'c, 'm) server_env_scheme \<Rightarrow> ('s, 'r) mbedtls \<Rightarrow> 'j \<Rightarrow> int \<Rightarrow> (int, 'j, 'h, 'e, 'c) handler" where
  "handle_subscribe env m cmd id' =
     bindA (or_throw (nj_member env cmd ''params'')) (\<lambda>params.
       if nj_is_array env params then
         bindA (or_throw (nj_index env params 0)) (\<lambda>p.
         bindA (if nj_is_string env p then or_throw (nj_get_string env p) else ret []) (\<lambda>hash.
         let hexHash = rev (ParseHex hash) in
         bindA (or_fault Assertion_failed (base_blob_of_vec 32 hexHash)) (\<lambda>h.
         bindA (on_db (GetTXOs (env_lmdb env) h [])) (\<lambda>_.
           reply_success env id'
             (Some (SHSubscribeResponse_to_json env m \<lparr>su_last_tx = [], su_status = \<lparr>ss_txn = []\<rparr>\<rparr>))))))
       else invalid_params env id')"

definition HandleCommand ::
  "('j, 'h, 'e, 'c, 'm) server_env_scheme \<Rightarrow> ('s, 'r) mbedtls \<Rightarrow> 'j \<Rightarrow> (int, 'j, 'h, 'e, 'c) handler" where
  "HandleCommand env m cmd =
     (if nj_is_null env cmd then reply_error env 0 ''Parser error'' (-32700)
      else
        bindA (or_throw (nj_dump env cmd)) (\<lambda>_.
        bindA (or_throw (Option.bind (nj_member env cmd ''method'') (nj_get_string env))) (\<lambda>method.
        bindA (or_throw (Option.bind (nj_member env cmd ''id'') (nj_get_int env))) (\<lambda>id'.
          case CommandMap method of
            None \<Rightarrow> reply_error env id' ''Method not found'' (-32601)
          | Some c \<Rightarrow>
              if c = BCBlockHeader then handle_block_header env cmd id'
              else if c = BCBlockHeaders then handle_block_headers env cmd id'
              else if c = SHSubscribe then handle_subscribe env m cmd id'
              else
                (case [r. Some r \<leftarrow> [bc_result env c, sh_result env c, tx_result env c, sv_result env (env_fmt_n env) c]] of
                   r # _ \<Rightarrow> reply_success env id' r
                 | [] \<Rightarrow> reply_error env id' ''Method not implemented'' (-32601))))))"

subsection \<open>Reading\<close>

text \<open>
  \<open>base\<close> is the block libuv filled, \<open>nread\<close> how many bytes of it it read. The stages yield \<open>Some\<close> value to
  return or \<open>None\<close> to go on. First the flags: a TLS connection presents the block to mbed TLS, and the
  first read decides what the connection is.
\<close>

definition present :: "int \<Rightarrow> byte list \<Rightarrow> (unit, 'j, 'h, 'e, 'c) handler" where
  "present nread base =
     bindA (read_state jr_ssl_buf) (\<lambda>p.
       if p \<noteq> None then fault Assertion_failed
       else modify (\<lambda>s. s\<lparr>jr_ssl_buf := Some base, jr_ssl_buf_len := nread, jr_ssl_buf_offset := 0\<rparr>))"

definition first_read ::
  "('j, 'h, 'e, 'c, 'm) server_env_scheme \<Rightarrow> int \<Rightarrow> byte list \<Rightarrow> (int option, 'j, 'h, 'e, 'c) handler" where
  "first_read env nread base =
     bindA (modify (\<lambda>s. s\<lparr>jr_state := jr_state s XOR START\<rparr>)) (\<lambda>_.
       if IsTLSClientHello nread base then
         bindA (read_state jr_ssl_config) (\<lambda>configured.
           if \<not> configured then ret (Some 0)
           else
             bindA (present nread base) (\<lambda>_. bindA (InitTLSContext env) (\<lambda>_.
             bindA (modify (\<lambda>s. s\<lparr>jr_state := jr_state s OR SSL_HANDSHAKE\<rparr>)) (\<lambda>_.
             bindA (TryHandshake env) (\<lambda>r. ret (Some r))))))
       else bindA (modify (\<lambda>s. s\<lparr>jr_state := jr_state s OR NORMAL\<rparr>)) (\<lambda>_. ret None))"

definition read_stage ::
  "('j, 'h, 'e, 'c, 'm) server_env_scheme \<Rightarrow> int \<Rightarrow> byte list \<Rightarrow> (int option, 'j, 'h, 'e, 'c) handler" where
  "read_stage env nread base =
     bindA (read_state (flag SSL_NORMAL)) (\<lambda>tls.
     bindA (if tls then present nread base else ret ()) (\<lambda>_.
     bindA (read_state (\<lambda>s. (flag START s, flag SSL_HANDSHAKE s))) (\<lambda>(start, handshake).
       if start then first_read env nread base
       else if handshake then bindA (TryHandshake env) (\<lambda>r. ret (Some r))
       else ret None)))"

text \<open>
  Then the bytes to look at: what \<^verbatim>\<open>mbedtls_ssl_read\<close> decrypts, or the block itself. Bytes decrypted through a
  null pointer are a fault. When there were none, \<^verbatim>\<open>AppendBuffer\<close> does not look at the memory it is given.
\<close>

definition overwrite_front :: "byte list \<Rightarrow> byte list \<Rightarrow> byte list" where
  "overwrite_front bs block = bs @ drop (length bs) block"

definition plain_stage ::
  "('j, 'h, 'e, 'c, 'm) server_env_scheme \<Rightarrow> int \<Rightarrow> byte list \<Rightarrow> (int + byte list \<times> int, 'j, 'h, 'e, 'c) handler" where
  "plain_stage env nread base =
     bindA (read_state (\<lambda>s. (flag SSL_NORMAL s, jr_ssl_buf_len s))) (\<lambda>(tls, ssl_buf_len).
       if tls then
         let size = ssl_buf_len + (JSONRPC_BUFF_LEN - (ssl_buf_len mod JSONRPC_BUFF_LEN));
             block = env_malloc env (nat size) in
         bindA (with_ssl env (\<lambda>c.
           let wrap = (\<lambda>(n, bs, c'). ((n, bs), c')) in map_bio wrap (ssl_read env c (nat size)))) (\<lambda>(buf_len, bs).
           if buf_len = 0 \<or> (buf_len < 0 \<and> buf_len \<noteq> SSL_WANT_READ env \<and> buf_len \<noteq> SSL_WANT_WRITE env) then ret (Inl 0)
           else if buf_len = SSL_WANT_READ env then
             bindA (AppendBuffer env buf_len (case block of None \<Rightarrow> [] | Some b \<Rightarrow> overwrite_front bs b)) (\<lambda>r. ret (Inl r))
           else
             bindA (or_fault Null_dereference (map_option (overwrite_front bs) block)) (\<lambda>buf_check.
               ret (Inr (buf_check, buf_len))))
       else ret (Inr (base, nread)))"

text \<open>Behind the buffer of an unfinished request, if there is one.\<close>

definition prepend_stage ::
  "('j, 'h, 'e, 'c, 'm) server_env_scheme \<Rightarrow> byte list \<Rightarrow> int \<Rightarrow> (byte list \<times> int, 'j, 'h, 'e, 'c) handler" where
  "prepend_stage env buf_check buf_len s =
     (if jr_offset s > 0 then
        (case jr_buf s of
           None \<Rightarrow> Fault Null_dereference
         | Some b \<Rightarrow>
             if buf_len < 0 \<or> jr_offset s > int (length b) \<or> buf_len > int (length buf_check) then Fault Heap_overflow
             else
               let total = buf_len + jr_offset s in
               (case env_malloc env (nat total) of
                  None \<Rightarrow> Fault Null_dereference
                | Some block \<Rightarrow>
                    Val (overwrite_front (take (nat (jr_offset s)) b @ take (nat buf_len) buf_check) block, total)
                      (s\<lparr>jr_offset := 0\<rparr>)))
      else Val (buf_check, buf_len) s)"

text \<open>Then the lines, each handed to the JSON parser without its delimiter. The comparison is with the
  number of bytes of this read, wherever in the memory the line stands.\<close>

function parse_again ::
  "('j, 'h, 'e, 'c, 'm) server_env_scheme \<Rightarrow> ('s, 'r) mbedtls \<Rightarrow> int \<Rightarrow> byte list \<Rightarrow> int \<Rightarrow> (int, 'j, 'h, 'e, 'c) handler" where
  "parse_again env m nread mem buf_len =
     (case strchr mem JSONRPC_DELIM of
        None \<Rightarrow> fault Out_of_bounds
      | Some None \<Rightarrow> AppendBuffer env buf_len mem
      | Some (Some mlen) \<Rightarrow>
          bindA
            (catchA
              (bindA (or_throw (nj_parse env (take mlen mem))) (\<lambda>req.
               bindA (HandleCommand env m req) (\<lambda>_. ret None)))
              (ret (Some 0)))
            (\<lambda>r. case r of
               Some v \<Rightarrow> ret v
             | None \<Rightarrow>
                 if int mlen < nread - 1 then
                   parse_again env m nread (drop (mlen + 1) mem) (buf_len - (int mlen + 1))
                 else ret 1))"
  by pat_completeness auto
termination
  by (relation "measure (\<lambda>(env, m, nread, mem, buf_len). length mem)") (auto dest: strchr_Some_Some)

declare parse_again.simps [simp del]

definition http_rsp :: "byte list" where
  "http_rsp = to_bytes (''HTTP/1.1 200 OK'' @ crlf @ ''Content-Type: text/html'' @ crlf @ ''Content-Length: 23''
     @ crlf @ crlf @ ''<h2>ElectrumZ 1.0!</h2>'')"

definition lines_stage ::
  "('j, 'h, 'e, 'c, 'm) server_env_scheme \<Rightarrow> ('s, 'r) mbedtls \<Rightarrow> int \<Rightarrow> byte list \<Rightarrow> int \<Rightarrow> (int, 'j, 'h, 'e, 'c) handler" where
  "lines_stage env m nread buf_check buf_len =
     (case strstr buf_check (to_bytes ''GET'') of
        None \<Rightarrow> fault Out_of_bounds
      | Some http \<Rightarrow>
          if http = Some 0 then bindA (JsonRPC_Write env http_rsp) (\<lambda>_. ret 1)
          else parse_again env m nread buf_check buf_len)"

definition JsonRPC_HandleRead ::
  "('j, 'h, 'e, 'c, 'm) server_env_scheme \<Rightarrow> ('s, 'r) mbedtls \<Rightarrow> int \<Rightarrow> byte list \<Rightarrow> (int, 'j, 'h, 'e, 'c) handler" where
  "JsonRPC_HandleRead env m nread base =
     (if nread \<le> 0 then ret 0
      else
        bindA (read_stage env nread base) (\<lambda>r. case r of Some v \<Rightarrow> ret v | None \<Rightarrow>
        bindA (plain_stage env nread base) (\<lambda>p. case p of Inl v \<Rightarrow> ret v | Inr (buf_check, buf_len) \<Rightarrow>
        bindA (prepend_stage env buf_check buf_len) (\<lambda>(buf_check, buf_len).
          lines_stage env m nread buf_check buf_len))))"

definition JsonRPC_End :: "('j, 'h, 'e, 'c) JsonRPCServer \<Rightarrow> ('j, 'h, 'e, 'c) JsonRPCServer" where
  "JsonRPC_End s = s\<lparr>jr_ssl := None, jr_ssl_config := False, jr_ssl_buf := None, jr_buf := None\<rparr>"

subsection \<open>A connection\<close>

text \<open>
  libuv reads into a new block of \<^verbatim>\<open>JSONRPC_BUFF_LEN\<close> bytes each time. The connection goes on while
  \<^verbatim>\<open>HandleRead\<close> returns nonzero; a zero ends it. In between the client of the node and the database may
  change in any way.
\<close>

datatype ('j, 'h, 'e, 'c) connection = Open "('j, 'h, 'e, 'c) JsonRPCServer" | Closed "('j, 'h, 'e, 'c) JsonRPCServer"

inductive serve ::
  "('j, 'h, 'e, 'c, 'm) server_env_scheme \<Rightarrow> ('s, 'r) mbedtls \<Rightarrow> ('j, 'h, 'e, 'c) connection \<Rightarrow> ('j, 'h, 'e, 'c) connection \<Rightarrow> bool"
  for env m where
  goes_on: "length base = 1024 \<Longrightarrow> nread \<le> 1024 \<Longrightarrow> JsonRPC_HandleRead env m nread base s = Val r s' \<Longrightarrow> r \<noteq> 0
    \<Longrightarrow> serve env m (Open s) (Open s')"
| ends: "length base = 1024 \<Longrightarrow> nread \<le> 1024 \<Longrightarrow> JsonRPC_HandleRead env m nread base s = Val 0 s'
    \<Longrightarrow> serve env m (Open s) (Closed (JsonRPC_End s'))"
| others: "serve env m (Open s) (Open (s\<lparr>jr_rpc := rpc, jr_db := db\<rparr>))"

inductive served ::
  "('j, 'h, 'e, 'c, 'm) server_env_scheme \<Rightarrow> ('s, 'r) mbedtls \<Rightarrow> ('j, 'h, 'e, 'c) connection \<Rightarrow> bool"
  for env m where
  accepted: "served env m (Open (JsonRPCServer_new db rpc ssl_cfg))"
| read: "served env m c \<Longrightarrow> serve env m c c' \<Longrightarrow> served env m c'"

subsection \<open>What the commands leave alone\<close>

text \<open>Handling a command only writes, queries and reads the database: the members that make up the
  connection stay, whatever happens.\<close>

definition conn_part :: "('j, 'h, 'e, 'c) JsonRPCServer \<Rightarrow>
    'c option \<times> bool \<times> byte list option \<times> int \<times> int \<times> u32 \<times> byte list option \<times> int \<times> int" where
  "conn_part s = (jr_ssl s, jr_ssl_config s, jr_ssl_buf s, jr_ssl_buf_offset s, jr_ssl_buf_len s, jr_state s,
     jr_buf s, jr_offset s, jr_len s)"

abbreviation no_overflow :: "fault \<Rightarrow> bool" where
  "no_overflow e \<equiv> e \<noteq> Heap_overflow"

definition quiet :: "('a, 'j, 'h, 'e, 'c) handler \<Rightarrow> bool" where
  "quiet m \<longleftrightarrow> (\<forall>s. holds (\<lambda>_ s'. conn_part s' = conn_part s) (\<lambda>s'. conn_part s' = conn_part s) no_overflow m s)"

named_theorems quiet_rules \<open>actions that leave the connection alone\<close>

lemma quiet_bind [quiet_rules]:
  fixes m :: "('a, 'j, 'h, 'e, 'c) handler"
  assumes "quiet m" "\<And>x. quiet (f x)"
  shows "quiet (bindA m f)"
proof (unfold quiet_def, rule allI, rule holds_bind)
  fix s :: "('j, 'h, 'e, 'c) JsonRPCServer"
  from assms(1) have "holds (\<lambda>_ s'. conn_part s' = conn_part s) (\<lambda>s'. conn_part s' = conn_part s) no_overflow m s"
    by (simp add: quiet_def)
  then show "holds (\<lambda>x. holds (\<lambda>_ s'. conn_part s' = conn_part s) (\<lambda>s'. conn_part s' = conn_part s) no_overflow (f x))
      (\<lambda>s'. conn_part s' = conn_part s) no_overflow m s"
  proof (rule holds_weaken)
    fix x and s1 :: "('j, 'h, 'e, 'c) JsonRPCServer" assume eq: "conn_part s1 = conn_part s"
    from assms(2) [of x]
    have "holds (\<lambda>_ s'. conn_part s' = conn_part s1) (\<lambda>s'. conn_part s' = conn_part s1) no_overflow (f x) s1"
      by (simp add: quiet_def)
    then show "holds (\<lambda>_ s'. conn_part s' = conn_part s) (\<lambda>s'. conn_part s' = conn_part s) no_overflow (f x) s1"
      unfolding eq .
  qed
qed

lemma quiet_basic [quiet_rules]:
  "quiet (ret x)" "quiet (or_throw v)" "e \<noteq> Heap_overflow \<Longrightarrow> quiet (or_fault e v)"
  "e \<noteq> Heap_overflow \<Longrightarrow> quiet (fault e)" "quiet (read_state g)"
  "(\<And>s. conn_part (h s) = conn_part s) \<Longrightarrow> quiet (modify h)"
  by (auto simp: quiet_def intro!: holds_rules)

lemma quiet_if [quiet_rules]: "(b \<Longrightarrow> quiet x) \<Longrightarrow> (\<not> b \<Longrightarrow> quiet y) \<Longrightarrow> quiet (if b then x else y)"
  by simp

lemma quiet_WriteInternal [quiet_rules]: "quiet (WriteInternal_bytes env buf)" "quiet (WriteInternal_json env j)"
  unfolding WriteInternal_json_def WriteInternal_bytes_def Let_def HandleWrite_def
  by (auto intro!: quiet_rules simp: conn_part_def)

lemma quiet_replies [quiet_rules]: "quiet (reply_error env i msg err)" "quiet (reply_success env i r)"
  unfolding reply_error_def reply_success_def CommandError_def CommandSuccess_def
  by (auto intro!: quiet_rules)

lemma quiet_number_param [quiet_rules]: "quiet (number_param n params i)"
  unfolding number_param_def by (auto intro!: quiet_rules)

lemma quiet_on_rpc [quiet_rules]:
  fixes act :: "('a, ('j, 'h) RPCClient) action"
  assumes "\<And>c. holds (\<lambda>_ _. True) (\<lambda>_. True) no_overflow act c"
  shows "quiet (on_rpc act :: ('a, 'j, 'h, 'e, 'c) handler)"
  unfolding quiet_def
proof
  fix s :: "('j, 'h, 'e, 'c) JsonRPCServer"
  show "holds (\<lambda>_ s'. conn_part s' = conn_part s) (\<lambda>s'. conn_part s' = conn_part s) no_overflow (on_rpc act) s"
    using assms [of "the (jr_rpc s)"]
    by (auto simp: holds_def on_rpc_def conn_part_def split: option.splits outcome.splits)
qed

lemma quiet_on_db [quiet_rules]:
  fixes act :: "('a, 'e) action"
  assumes "\<And>d. holds (\<lambda>_ _. True) (\<lambda>_. True) no_overflow act d"
  shows "quiet (on_db act :: ('a, 'j, 'h, 'e, 'c) handler)"
  unfolding quiet_def
proof
  fix s :: "('j, 'h, 'e, 'c) JsonRPCServer"
  show "holds (\<lambda>_ s'. conn_part s' = conn_part s) (\<lambda>s'. conn_part s' = conn_part s) no_overflow (on_db act) s"
    using assms [of "jr_db s"] by (auto simp: holds_def on_db_def conn_part_def split: outcome.splits)
qed

lemma Query_no_overflow: "holds (\<lambda>_ _. True) (\<lambda>_. True) no_overflow (Query_args env method args) c"
  unfolding Query_args_def SendQuery_def RPC_WriteInternal_def RPC_WriteInternal_bytes_def [abs_def] AddQuery_def [abs_def]
  by (auto simp: holds_def bindA_def or_throw_def read_state_def modify_def ret_def Let_def split: option.splits)

lemma GetTXOs_no_overflow: "holds (\<lambda>_ _. True) (\<lambda>_. True) no_overflow (GetTXOs L h ntx) e"
  unfolding GetTXOs_def StartTXOTxn_def IncreaseMapSize_def
  by (auto intro!: holds_rules holds_call split: prod.splits sum.splits simp: Let_def)

lemma quiet_HandleCommand: "quiet (HandleCommand env m cmd)"
proof -
  have "quiet (handle_block_header env cmd i)" "quiet (handle_block_headers env cmd i)"
    "quiet (handle_subscribe env m cmd i)" for i
    unfolding handle_block_header_def handle_block_headers_def handle_subscribe_def invalid_params_def Let_def
    by (auto intro!: quiet_rules Query_no_overflow GetTXOs_no_overflow)
  then show ?thesis
    unfolding HandleCommand_def
    by (auto intro!: quiet_rules split: option.splits list.splits)
qed

subsection \<open>The invariant of a connection\<close>

text \<open>
  The buffer: its offset lies inside its length, the length inside the allocated block and below
  \<open>16384 + 1023\<close>. The bytes presented to mbed TLS: there are some exactly while the pointer is set. The
  flags: the connection is new, plain, in the handshake, or in TLS, and has a TLS context in the last two.
\<close>

definition buffer_ok :: "byte list option \<Rightarrow> int \<Rightarrow> int \<Rightarrow> bool" where
  "buffer_ok buf off len \<longleftrightarrow> 0 \<le> off \<and> off \<le> len \<and> len \<le> 17407 \<and>
     (case buf of None \<Rightarrow> len = 0 | Some b \<Rightarrow> len \<le> int (length b))"

definition tls_ok :: "byte list option \<Rightarrow> int \<Rightarrow> int \<Rightarrow> bool" where
  "tls_ok buf off len \<longleftrightarrow>
     (case buf of None \<Rightarrow> len = 0 \<and> off = 0 | Some b \<Rightarrow> 0 \<le> off \<and> off < len \<and> len \<le> int (length b))"

lemma tls_ok_None [simp]: "tls_ok None off len \<longleftrightarrow> len = 0 \<and> off = 0"
  by (simp add: tls_ok_def)

definition buffer_inv :: "('j, 'h, 'e, 'c) JsonRPCServer \<Rightarrow> bool" where
  "buffer_inv s \<longleftrightarrow> buffer_ok (jr_buf s) (jr_offset s) (jr_len s)"

definition tls_inv :: "('j, 'h, 'e, 'c) JsonRPCServer \<Rightarrow> bool" where
  "tls_inv s \<longleftrightarrow> tls_ok (jr_ssl_buf s) (jr_ssl_buf_offset s) (jr_ssl_buf_len s)"

definition mode_inv :: "('j, 'h, 'e, 'c) JsonRPCServer \<Rightarrow> bool" where
  "mode_inv s \<longleftrightarrow>
     (jr_state s = START \<or> jr_state s = NORMAL) \<and> jr_ssl s = None \<and> jr_ssl_buf s = None \<or>
     (jr_state s = SSL_NORMAL OR SSL_HANDSHAKE \<or> jr_state s = SSL_NORMAL) \<and> jr_ssl s \<noteq> None"

definition server_inv :: "('j, 'h, 'e, 'c) JsonRPCServer \<Rightarrow> bool" where
  "server_inv s \<longleftrightarrow> buffer_inv s \<and> tls_inv s \<and> mode_inv s"

lemmas inv_defs = buffer_inv_def tls_inv_def mode_inv_def
lemmas flag_defs = START_def NORMAL_def SSL_NORMAL_def SSL_HANDSHAKE_def

lemma mode_distinct [simp]:
  "START \<noteq> NORMAL" "START \<noteq> SSL_NORMAL OR SSL_HANDSHAKE" "NORMAL \<noteq> SSL_NORMAL OR SSL_HANDSHAKE"
  "START \<noteq> SSL_NORMAL" "NORMAL \<noteq> SSL_NORMAL" "SSL_NORMAL OR SSL_HANDSHAKE \<noteq> SSL_NORMAL"
  by (simp_all add: flag_defs)

lemma server_inv_cong: "conn_part s' = conn_part s \<Longrightarrow> server_inv s \<Longrightarrow> server_inv s'"
  by (simp add: conn_part_def server_inv_def inv_defs)

text \<open>
  What the proofs need of the libraries: a block of \<^verbatim>\<open>malloc\<close> has at least what is asked for; \<^verbatim>\<open>mbedtls_ssl_read\<close> returns
  at most as many bytes as there is room for, and \<^verbatim>\<open>WANT_WRITE\<close> only if the send callback returned it,
  which this one never does.
\<close>

primrec bio_all :: "('a \<Rightarrow> bool) \<Rightarrow> 'a bio \<Rightarrow> bool" where
  "bio_all P (Done x) = P x"
| "bio_all P (Recv n k) = (\<forall>r. bio_all P (k r))"
| "bio_all P (Send bs k) = (\<forall>r. bio_all P (k r))"

definition env_ok :: "('j, 'h, 'e, 'c, 'm) server_env_scheme \<Rightarrow> bool" where
  "env_ok env \<longleftrightarrow>
     (\<forall>n block. env_malloc env n = Some block \<longrightarrow> n \<le> length block) \<and> SSL_WANT_READ env < 0 \<and>
     (\<forall>c n. bio_all (\<lambda>(r, bs, c'). r \<noteq> SSL_WANT_WRITE env \<and> (0 < r \<longrightarrow> r \<le> int n \<and> int (length bs) = r)) (ssl_read env c n))"

lemma bio_all_True: "bio_all (\<lambda>_. True) b"
  by (induction b) auto

lemma bio_all_map: "bio_all P (map_bio g b) = bio_all (\<lambda>x. P (g x)) b"
  by (induction b) auto

abbreviation impossible :: "'x \<Rightarrow> bool" where
  "impossible \<equiv> \<lambda>_. False"

definition same_rest :: "('j, 'h, 'e, 'c) JsonRPCServer \<Rightarrow> ('j, 'h, 'e, 'c) JsonRPCServer \<Rightarrow> bool" where
  "same_rest s s' \<longleftrightarrow> jr_state s' = jr_state s \<and> jr_ssl_config s' = jr_ssl_config s \<and> jr_buf s' = jr_buf s
     \<and> jr_offset s' = jr_offset s \<and> jr_len s' = jr_len s"

lemma same_rest_trans: "same_rest s s' \<Longrightarrow> same_rest s' s'' \<Longrightarrow> same_rest s s''"
  by (simp add: same_rest_def)

lemma WriteInternal_bytes_step:
  "holds (\<lambda>_ s'. s' = s \<or> s' = s\<lparr>jr_sent := jr_sent s @ [buf]\<rparr>) impossible no_overflow (WriteInternal_bytes env buf) s"
  unfolding WriteInternal_bytes_def Let_def HandleWrite_def
  by (auto intro!: holds_rules)

lemma bio_recv_step:
  assumes "tls_inv s"
  shows "holds (\<lambda>_ s'. tls_inv s' \<and> same_rest s s' \<and> jr_ssl s' = jr_ssl s) impossible no_overflow (bio_recv env n) s"
  using assms by (auto simp: holds_def bio_recv_def tls_inv_def tls_ok_def same_rest_def Let_def split: option.splits)

lemma run_bio_step:
  assumes "tls_inv s" "bio_all P b"
  shows "holds (\<lambda>x s'. P x \<and> tls_inv s' \<and> same_rest s s' \<and> jr_ssl s' = jr_ssl s) impossible no_overflow (run_bio env b) s"
  using assms
proof (induction b arbitrary: s)
  case (Recv n k)
  show ?case
    unfolding run_bio.simps
  proof (rule holds_bind, rule holds_weaken [OF bio_recv_step [OF Recv.prems(1)]])
    fix r s1 assume s1: "tls_inv s1 \<and> same_rest s s1 \<and> jr_ssl s1 = jr_ssl s"
    have "holds (\<lambda>x s'. P x \<and> tls_inv s' \<and> same_rest s1 s' \<and> jr_ssl s' = jr_ssl s1) impossible no_overflow (run_bio env (k r)) s1"
      using s1 Recv.prems(2) [unfolded bio_all.simps, rule_format, of r] by (intro Recv.IH) auto
    then show "holds (\<lambda>x s'. P x \<and> tls_inv s' \<and> same_rest s s' \<and> jr_ssl s' = jr_ssl s) impossible no_overflow (run_bio env (k r)) s1"
      by (rule holds_weaken) (use s1 in \<open>auto intro: same_rest_trans\<close>)
  qed auto
next
  case (Send bs k)
  show ?case
    unfolding run_bio.simps
  proof (rule holds_bind, rule holds_weaken [OF WriteInternal_bytes_step])
    fix r s1 assume s1: "s1 = s \<or> s1 = s\<lparr>jr_sent := jr_sent s @ [bs]\<rparr>"
    then have inv: "tls_inv s1" "same_rest s s1" "jr_ssl s1 = jr_ssl s"
      using Send.prems(1) by (auto simp: tls_inv_def same_rest_def)
    have "holds (\<lambda>x s'. P x \<and> tls_inv s' \<and> same_rest s1 s' \<and> jr_ssl s' = jr_ssl s1) impossible no_overflow (run_bio env (k r)) s1"
      using inv Send.prems(2) by (intro Send.IH) auto
    then show "holds (\<lambda>x s'. P x \<and> tls_inv s' \<and> same_rest s s' \<and> jr_ssl s' = jr_ssl s) impossible no_overflow (run_bio env (k r)) s1"
      by (rule holds_weaken) (use inv in \<open>auto intro: same_rest_trans\<close>)
  qed auto
qed (auto intro!: holds_ret simp: same_rest_def)

lemma with_ssl_step:
  assumes "tls_inv s" "\<And>c. bio_all (\<lambda>(r, c'). P r) (f c)"
  shows "holds (\<lambda>r s'. P r \<and> tls_inv s' \<and> same_rest s s' \<and> jr_ssl s' \<noteq> None) impossible no_overflow (with_ssl env f) s"
  unfolding with_ssl_def
  by (auto intro!: holds_rules holds_weaken [OF run_bio_step [OF assms]] simp: tls_inv_def same_rest_def)

lemma TryHandshake_step:
  assumes "buffer_inv s" "tls_inv s" "jr_state s = SSL_NORMAL OR SSL_HANDSHAKE"
  shows "holds (\<lambda>r s'. server_inv s' \<and> r \<in> {0, 1, 2}) impossible no_overflow (TryHandshake env) s"
  unfolding TryHandshake_def
proof (rule holds_bind, rule holds_weaken [OF with_ssl_step [OF assms(2), where P = "\<lambda>_. True"]])
  fix hsr s1 assume "True \<and> tls_inv s1 \<and> same_rest s s1 \<and> jr_ssl s1 \<noteq> None"
  then show "holds (\<lambda>r s'. server_inv s' \<and> r \<in> {0, 1, 2}) impossible no_overflow
     (if hsr = 0 then
        bindA (modify (\<lambda>s. s\<lparr>jr_state := jr_state s XOR SSL_HANDSHAKE\<rparr>)) (\<lambda>_. ret 2)
      else if hsr = SSL_WANT_READ env \<or> hsr = SSL_WANT_WRITE env then ret 1
      else
        bindA (modify (\<lambda>s. s\<lparr>jr_ssl := map_option (ssl_session_reset env) (jr_ssl s),
            jr_ssl_buf_offset := 0, jr_ssl_buf_len := 0, jr_ssl_buf := None\<rparr>)) (\<lambda>_. ret 0)) s1"
    using assms by (auto intro!: holds_rules
        simp: server_inv_def buffer_inv_def tls_inv_def mode_inv_def same_rest_def flag_defs)
qed (auto simp: bio_all_True case_prod_unfold)

definition only_buffer :: "('j, 'h, 'e, 'c) JsonRPCServer \<Rightarrow> ('j, 'h, 'e, 'c) JsonRPCServer \<Rightarrow> bool" where
  "only_buffer s s' \<longleftrightarrow> jr_state s' = jr_state s \<and> jr_ssl s' = jr_ssl s \<and> jr_ssl_config s' = jr_ssl_config s
     \<and> jr_ssl_buf s' = jr_ssl_buf s \<and> jr_ssl_buf_offset s' = jr_ssl_buf_offset s
     \<and> jr_ssl_buf_len s' = jr_ssl_buf_len s \<and> jr_sent s' = jr_sent s \<and> jr_rpc s' = jr_rpc s \<and> jr_db s' = jr_db s"

lemma length_reallocated [simp]: "length (reallocated old block) = length block"
  by (simp add: reallocated_def)

lemma ensure_space_step:
  assumes "buffer_inv s" "env_ok env" "0 < n" "ensure_space env n s = Some t" "jr_buf t \<noteq> None"
  shows "buffer_inv t" "only_buffer s t" "jr_offset t = jr_offset s" "jr_offset s + n \<le> jr_len t"
proof -
  have off: "0 \<le> jr_offset s" "jr_offset s \<le> jr_len s"
    using assms(1) by (simp_all add: buffer_inv_def buffer_ok_def)
  have "buffer_inv t \<and> only_buffer s t \<and> jr_offset t = jr_offset s \<and> jr_offset s + n \<le> jr_len t"
  proof (cases "n + jr_offset s > jr_len s")
    case True
    define m where "m = jr_offset s + n + 1"
    define len where "len = m + (m mod JSONRPC_BUFF_LEN)"
    define new where "new = (case jr_buf s of None \<Rightarrow> env_malloc env (nat len)
      | Some old \<Rightarrow> map_option (reallocated (take (nat (jr_len s)) old)) (env_malloc env (nat len)))"
    have m: "\<not> m > JSONRPC_MAX_BUFFER" and t: "t = s\<lparr>jr_len := len, jr_buf := new\<rparr>"
      using assms(4) True unfolding ensure_space_def new_def len_def m_def Let_def
      by (auto split: if_splits)
    have len: "0 < len" "m \<le> len" "len \<le> 17407"
      using assms(3) off m by (auto simp: len_def m_def JSONRPC_BUFF_LEN_def JSONRPC_MAX_BUFFER_def)
    obtain block where block: "env_malloc env (nat len) = Some block"
      using assms(5) by (auto simp: t new_def split: option.splits)
    then have "nat len \<le> length block" using assms(2) by (simp add: env_ok_def)
    moreover obtain b where "new = Some b" "length b = length block"
      by (cases "jr_buf s") (auto simp: new_def block)
    ultimately show ?thesis
      using len off assms(3) by (auto simp: t buffer_inv_def buffer_ok_def only_buffer_def m_def)
  next
    case False
    then have "t = s" using assms(4) by (simp add: ensure_space_def)
    then show ?thesis using False assms(1) by (simp add: only_buffer_def)
  qed
  then show "buffer_inv t" "only_buffer s t" "jr_offset t = jr_offset s" "jr_offset s + n \<le> jr_len t"
    by simp_all
qed

lemma AppendBuffer_step:
  assumes "buffer_inv s" "env_ok env" "n \<le> int (length src)"
  shows "holds (\<lambda>r s'. buffer_inv s' \<and> r \<in> {0, 1} \<and> only_buffer s s') impossible no_overflow (AppendBuffer env n src) s"
proof (cases "0 < n \<and> ensure_space env n s \<noteq> None")
  case False
  with assms(1) show ?thesis by (auto simp: holds_def AppendBuffer_def only_buffer_def split: option.splits)
next
  case True
  then obtain t where n: "0 < n" and e: "ensure_space env n s = Some t" by auto
  show ?thesis
  proof (cases "jr_buf t")
    case None
    with n e show ?thesis by (simp add: holds_def AppendBuffer_def)
  next
    case (Some b)
    then have "jr_buf t \<noteq> None" by simp
    note t = ensure_space_step [OF assms(1,2) n e this]
    have len: "0 \<le> jr_offset t" "jr_len t \<le> int (length b)" "jr_len t \<le> 17407"
      using t(1) Some by (simp_all add: buffer_inv_def buffer_ok_def)
    let ?new = "take (nat (jr_offset t)) b @ take (nat n) src @ drop (nat (jr_offset t + n)) b"
    have "AppendBuffer env n src s = Val 1 (t\<lparr>jr_buf := Some ?new, jr_offset := jr_offset t + n\<rparr>)"
      using n e Some len t(3,4) assms(3) by (simp add: AppendBuffer_def)
    moreover have "length ?new = length b" using n len t(3,4) assms(3) by simp
    ultimately show ?thesis
      using n len t by (auto simp: holds_def buffer_inv_def buffer_ok_def only_buffer_def)
  qed
qed

lemma first_read_step:
  assumes "buffer_inv s" "jr_ssl s = None" "jr_ssl_buf s = None" "tls_inv s" "jr_state s = START"
    and "0 < nread" "nread \<le> int (length base)"
  shows "holds (\<lambda>r s'. r \<noteq> Some 0 \<longrightarrow> server_inv s') impossible no_overflow (first_read env nread base) s"
proof -
  have state: "START XOR START OR SSL_NORMAL OR SSL_HANDSHAKE = SSL_NORMAL OR SSL_HANDSHAKE"
    "(START XOR START OR SSL_NORMAL) OR SSL_HANDSHAKE = SSL_NORMAL OR SSL_HANDSHAKE"
    "START XOR START OR NORMAL = NORMAL" by (simp_all add: flag_defs)
  show ?thesis
    using assms unfolding first_read_def present_def InitTLSContext_def
    by (auto intro!: holds_rules holds_weaken [OF TryHandshake_step]
        simp: state server_inv_def buffer_inv_def tls_inv_def mode_inv_def tls_ok_def)
qed

lemma flags_of_mode:
  assumes "mode_inv s"
  shows "flag SSL_NORMAL s \<longleftrightarrow> jr_ssl s \<noteq> None" "flag START s \<longleftrightarrow> jr_state s = START"
    "flag SSL_HANDSHAKE s \<longleftrightarrow> jr_state s = SSL_NORMAL OR SSL_HANDSHAKE"
  using assms by (auto simp: mode_inv_def flag_def flag_defs)

lemma read_stage_step:
  assumes "server_inv s" "0 < nread" "nread \<le> int (length base)"
  shows "holds (\<lambda>r s'. r \<noteq> Some 0 \<longrightarrow> server_inv s') impossible no_overflow (read_stage env nread base) s"
proof -
  note inv = assms(1) [unfolded server_inv_def]
  note flags = flags_of_mode [of s]
  show ?thesis
  proof (cases "jr_ssl s = None")
    case True
    then have "mode_inv s" "\<not> flag SSL_NORMAL s" "\<not> flag SSL_HANDSHAKE s" "jr_ssl_buf s = None"
      "flag START s \<longleftrightarrow> jr_state s = START"
      using inv flags by (auto simp: mode_inv_def)
    then show ?thesis
      unfolding read_stage_def
      using inv True assms by (auto intro!: holds_rules first_read_step)
  next
    case False
    then have m: "flag SSL_NORMAL s" "\<not> flag START s" "flag SSL_HANDSHAKE s \<longleftrightarrow> jr_state s = SSL_NORMAL OR SSL_HANDSHAKE"
      using inv flags by (auto simp: mode_inv_def flag_defs)
    let ?t = "s\<lparr>jr_ssl_buf := Some base, jr_ssl_buf_len := nread, jr_ssl_buf_offset := 0\<rparr>"
    have t: "buffer_inv ?t" "tls_inv ?t" "mode_inv ?t" "flag f ?t = flag f s" for f
      using inv False assms(2,3) by (auto simp: buffer_inv_def tls_inv_def tls_ok_def mode_inv_def flag_def)
    have rest: "holds (\<lambda>r s'. r \<noteq> Some 0 \<longrightarrow> server_inv s') impossible no_overflow
      (bindA (TryHandshake env) (\<lambda>r. ret (Some r))) ?t" if "flag SSL_HANDSHAKE s"
      using t m that inv by (intro holds_bind, intro holds_weaken [OF TryHandshake_step])
        (auto intro!: holds_ret simp: mode_inv_def)
    have "read_stage env nread base s =
      (if jr_ssl_buf s \<noteq> None then Fault Assertion_failed
       else if flag SSL_HANDSHAKE s then bindA (TryHandshake env) (\<lambda>r. ret (Some r)) ?t
       else Val None ?t)"
      using m t(4) by (simp add: read_stage_def present_def bindA_def read_state_def modify_def ret_def fault_def)
    then show ?thesis
      using rest t(1-3) by (cases "jr_ssl_buf s = None"; cases "flag SSL_HANDSHAKE s")
        (simp_all add: holds_def server_inv_def)
  qed
qed

lemma length_overwrite_front [simp]: "length (overwrite_front bs block) = max (length bs) (length block)"
  by (simp add: overwrite_front_def)

lemma plain_stage_step:
  assumes "server_inv s" "env_ok env" "nread \<le> int (length base)" "0 < nread"
  shows "holds (\<lambda>r s'. case r of Inl v \<Rightarrow> v \<noteq> 0 \<longrightarrow> server_inv s' | Inr (mem, n) \<Rightarrow> server_inv s' \<and> 0 < n \<and> n \<le> int (length mem))
    impossible no_overflow (plain_stage env nread base) s"
proof (cases "jr_ssl s = None")
  case True
  then have "\<not> flag SSL_NORMAL s" using assms(1) flags_of_mode [of s] by (simp add: server_inv_def)
  with assms show ?thesis unfolding plain_stage_def by (auto intro!: holds_rules)
next
  case False
  note inv = assms(1) [unfolded server_inv_def]
  have tls: "flag SSL_NORMAL s" using False inv flags_of_mode [of s] by simp
  define size where "size = jr_ssl_buf_len s + (JSONRPC_BUFF_LEN - (jr_ssl_buf_len s mod JSONRPC_BUFF_LEN))"
  let ?ok = "\<lambda>(r, bs :: byte list). r \<noteq> SSL_WANT_WRITE env \<and> (0 < r \<longrightarrow> r \<le> size \<and> int (length bs) = r)"
  have "0 \<le> jr_ssl_buf_len s" using inv by (auto simp: tls_inv_def tls_ok_def split: option.splits)
  then have size: "0 \<le> size"
    by (simp add: size_def JSONRPC_BUFF_LEN_def)
  have read: "bio_all (\<lambda>(r, c'). ?ok r) (map_bio (\<lambda>(n, bs, c'). ((n, bs), c')) (ssl_read env c (nat size)))" for c
  proof -
    have "\<forall>c n. bio_all (\<lambda>(r, bs, c'). r \<noteq> SSL_WANT_WRITE env \<and> (0 < r \<longrightarrow> r \<le> int n \<and> int (length bs) = r)) (ssl_read env c n)"
      using assms(2) by (simp add: env_ok_def)
    then have "bio_all (\<lambda>(r, bs, c'). r \<noteq> SSL_WANT_WRITE env \<and> (0 < r \<longrightarrow> r \<le> int (nat size) \<and> int (length bs) = r))
        (ssl_read env c (nat size))" by blast
    then show ?thesis using size by (simp add: bio_all_map case_prod_unfold)
  qed
  have neg: "SSL_WANT_READ env < 0" using assms(2) by (simp add: env_ok_def)
  show ?thesis
    unfolding plain_stage_def
  proof (intro holds_bind holds_read_state, unfold prod.case if_P [OF tls] Let_def size_def [symmetric],
      rule holds_bind, rule holds_weaken [OF with_ssl_step [where P = ?ok]])
    show "tls_inv s" using inv by simp
    show "bio_all (\<lambda>(r, c'). ?ok r) (map_bio (\<lambda>(n, bs, c'). ((n, bs), c')) (ssl_read env c (nat size)))" for c
      by (rule read)
    fix x and s1 :: "('a, 'b, 'c, 'd) JsonRPCServer" assume x: "?ok x \<and> tls_inv s1 \<and> same_rest s s1 \<and> jr_ssl s1 \<noteq> None"
    obtain n bs where n: "x = (n, bs)" by (cases x)
    have inv1: "server_inv s1"
      using x inv False by (auto simp: server_inv_def same_rest_def buffer_inv_def mode_inv_def)
    have append: "AppendBuffer env (SSL_WANT_READ env) src s1 = Val 0 s1" for src
      using neg by (simp add: AppendBuffer_def)
    show "holds (\<lambda>r s'. case r of Inl v \<Rightarrow> v \<noteq> 0 \<longrightarrow> server_inv s'
          | Inr (mem, n) \<Rightarrow> server_inv s' \<and> 0 < n \<and> n \<le> int (length mem))
        impossible no_overflow
        (case x of (buf_len, bs) \<Rightarrow>
           if buf_len = 0 \<or> (buf_len < 0 \<and> buf_len \<noteq> SSL_WANT_READ env \<and> buf_len \<noteq> SSL_WANT_WRITE env) then ret (Inl 0)
           else if buf_len = SSL_WANT_READ env then
             bindA (AppendBuffer env buf_len (case env_malloc env (nat size) of None \<Rightarrow> [] | Some b \<Rightarrow> overwrite_front bs b))
               (\<lambda>r. ret (Inl r))
           else
             bindA (or_fault Null_dereference (map_option (overwrite_front bs) (env_malloc env (nat size)))) (\<lambda>buf_check.
               ret (Inr (buf_check, buf_len)))) s1"
      using x inv1 neg
      by (auto simp: n append holds_def bindA_def ret_def or_fault_def fault_def split: option.splits)
  qed auto
qed

lemma prepend_stage_step:
  assumes "server_inv s" "env_ok env" "0 < n" "n \<le> int (length mem)"
  shows "holds (\<lambda>(mem', n') s'. server_inv s' \<and> 0 < n' \<and> n' \<le> int (length mem') \<and> jr_offset s' = 0) impossible no_overflow
    (prepend_stage env mem n) s"
proof (cases "jr_offset s > 0")
  case True
  then obtain b where b: "jr_buf s = Some b" "jr_offset s \<le> int (length b)"
    using assms(1) by (auto simp: server_inv_def buffer_inv_def buffer_ok_def split: option.splits)
  then show ?thesis
    using True assms by (auto simp: holds_def prepend_stage_def server_inv_def buffer_inv_def buffer_ok_def
        tls_inv_def mode_inv_def Let_def split: option.splits)
next
  case False
  then show ?thesis using assms
    by (auto simp: holds_def prepend_stage_def server_inv_def buffer_inv_def buffer_ok_def)
qed

lemma AppendBuffer_server_inv:
  assumes "server_inv s" "env_ok env" "n \<le> int (length src)"
  shows "holds (\<lambda>_ s'. server_inv s') impossible no_overflow (AppendBuffer env n src) s"
  by (rule holds_weaken [OF AppendBuffer_step])
    (use assms in \<open>auto simp: server_inv_def only_buffer_def tls_inv_def mode_inv_def\<close>)

lemma parse_again_step:
  fixes s :: "('j, 'h, 'e, 'c) JsonRPCServer" and env :: "('j, 'h, 'e, 'c, 'm) server_env_scheme"
  shows "server_inv s \<Longrightarrow> env_ok env \<Longrightarrow> n \<le> int (length mem) \<Longrightarrow>
    holds (\<lambda>_ s'. server_inv s') impossible no_overflow (parse_again env m nread mem n) s"
proof (induction env m nread mem n arbitrary: s rule: parse_again.induct)
  case (1 env m nread mem n)
  let ?line = "\<lambda>mlen. catchA
      (bindA (or_throw (nj_parse env (take mlen mem))) (\<lambda>req.
       bindA (HandleCommand env m req) (\<lambda>_. ret None))) (ret (Some 0))"
  have line: "holds (\<lambda>_ s'. server_inv s') impossible no_overflow (?line mlen) s" for mlen
  proof (intro holds_rules)
    fix req
    show "holds (\<lambda>x. holds (\<lambda>_ s'. server_inv s') (holds (\<lambda>_ s'. server_inv s') impossible no_overflow (ret (Some 0))) no_overflow (ret None))
        (holds (\<lambda>_ s'. server_inv s') impossible no_overflow (ret (Some 0))) no_overflow (HandleCommand env m req) s"
      by (rule holds_weaken [OF quiet_HandleCommand [unfolded quiet_def, rule_format]])
        (auto intro!: holds_ret intro: server_inv_cong [OF _ 1(2)])
  qed (use 1(2) in auto)
  show ?case
  proof (cases "strchr mem JSONRPC_DELIM")
    case None
    then show ?thesis by (simp add: parse_again.simps holds_fault)
  next
    case (Some at)
    show ?thesis
    proof (cases at)
      case None
      with Some 1 show ?thesis by (simp add: parse_again.simps AppendBuffer_server_inv)
    next
      case (Some mlen)
      note found = \<open>strchr mem JSONRPC_DELIM = Some at\<close> [unfolded Some]
      have "mlen < length mem" using strchr_Some_Some [OF found] by simp
      then have rest: "n - (int mlen + 1) \<le> int (length (drop (mlen + 1) mem))" using 1(4) by simp
      show ?thesis
        unfolding parse_again.simps [of env m nread mem n] found option.case
      proof (rule holds_bind, rule holds_weaken [OF line])
        fix r and s1 :: "('j, 'h, 'e, 'c) JsonRPCServer" assume "server_inv s1"
        then show "holds (\<lambda>_ s'. server_inv s') impossible no_overflow
            (case r of Some v \<Rightarrow> ret v | None \<Rightarrow>
               if int mlen < nread - 1 then
                 parse_again env m nread (drop (mlen + 1) mem) (n - (int mlen + 1))
               else ret 1) s1"
          using 1(1) [OF found refl] 1(3) rest by (auto intro!: holds_ret split: option.splits)
      qed auto
    qed
  qed
qed

lemma JsonRPC_Write_step:
  assumes "server_inv s"
  shows "holds (\<lambda>_ s'. server_inv s') impossible no_overflow (JsonRPC_Write env bs) s"
proof (cases "flag SSL_NORMAL s")
  case True
  then have ssl: "jr_ssl s \<noteq> None" using assms flags_of_mode [of s] by (simp add: server_inv_def)
  have "holds (\<lambda>r s'. True \<and> tls_inv s' \<and> same_rest s s' \<and> jr_ssl s' \<noteq> None) impossible no_overflow
      (with_ssl env (\<lambda>c. ssl_write env c bs)) s"
    using assms by (intro with_ssl_step) (auto simp: server_inv_def case_prod_unfold bio_all_True)
  then have "holds (\<lambda>_ s'. server_inv s') impossible no_overflow (with_ssl env (\<lambda>c. ssl_write env c bs)) s"
    by (rule holds_weaken) (use assms ssl in \<open>auto simp: server_inv_def same_rest_def inv_defs\<close>)
  with True show ?thesis by (simp add: JsonRPC_Write_def bindA_def read_state_def holds_def)
next
  case False
  have "holds (\<lambda>_ s'. server_inv s') impossible no_overflow (WriteInternal_bytes env bs) s"
    by (rule holds_weaken [OF WriteInternal_bytes_step])
      (use assms in \<open>auto simp: server_inv_def inv_defs\<close>)
  with False assms show ?thesis by (simp add: JsonRPC_Write_def bindA_def read_state_def holds_def ret_def)
qed

lemma lines_stage_step:
  assumes "server_inv s" "env_ok env" "n \<le> int (length mem)"
  shows "holds (\<lambda>_ s'. server_inv s') impossible no_overflow (lines_stage env m nread mem n) s"
proof -
  have http: "holds (\<lambda>_ s'. server_inv s') impossible no_overflow (bindA (JsonRPC_Write env http_rsp) (\<lambda>_. ret (1 :: int))) s"
    by (intro holds_bind holds_weaken [OF JsonRPC_Write_step [OF assms(1)]]) (auto intro!: holds_ret)
  show ?thesis
    using http parse_again_step [OF assms, of m nread]
    by (cases "strstr mem (to_bytes ''GET'')") (simp_all add: lines_stage_def holds_fault)
qed

lemma HandleRead_step:
  fixes s :: "('j, 'h, 'e, 'c) JsonRPCServer" and env :: "('j, 'h, 'e, 'c, 'm) server_env_scheme"
  assumes "server_inv s" "env_ok env" "nread \<le> int (length base)"
  shows "holds (\<lambda>r s'. r \<noteq> 0 \<longrightarrow> server_inv s') impossible no_overflow (JsonRPC_HandleRead env m nread base) s"
proof (cases "nread \<le> 0")
  case True
  then show ?thesis by (simp add: JsonRPC_HandleRead_def holds_ret)
next
  case False
  have prepend: "holds (\<lambda>r s'. r \<noteq> 0 \<longrightarrow> server_inv s') impossible no_overflow
      (bindA (prepend_stage env mem n) (\<lambda>(mem, n). lines_stage env m nread mem n)) t"
    if "server_inv t" "0 < n" "n \<le> int (length mem)" for t :: "('j, 'h, 'e, 'c) JsonRPCServer" and mem n
  proof (rule holds_bind, rule holds_weaken [OF prepend_stage_step [OF that(1) assms(2) that(2,3)]])
    fix p :: "byte list \<times> int" and t' :: "('j, 'h, 'e, 'c) JsonRPCServer"
    assume "(\<lambda>(mem', n') s'. server_inv s' \<and> 0 < n' \<and> n' \<le> int (length mem') \<and> jr_offset s' = 0) p t'"
    then show "holds (\<lambda>r s'. r \<noteq> 0 \<longrightarrow> server_inv s') impossible no_overflow
        (case p of (mem, n) \<Rightarrow> lines_stage env m nread mem n) t'"
      by (cases p) (auto intro: holds_weaken [OF lines_stage_step [OF _ assms(2)]])
  qed auto
  have plain: "holds (\<lambda>r s'. r \<noteq> 0 \<longrightarrow> server_inv s') impossible no_overflow
      (bindA (plain_stage env nread base) (\<lambda>p. case p of Inl v \<Rightarrow> ret v | Inr (buf_check, buf_len) \<Rightarrow>
        bindA (prepend_stage env buf_check buf_len) (\<lambda>(buf_check, buf_len).
          lines_stage env m nread buf_check buf_len))) t"
    if "server_inv t" for t :: "('j, 'h, 'e, 'c) JsonRPCServer"
    using False
    by (intro holds_bind [OF holds_weaken [OF plain_stage_step [OF that assms(2,3)]]])
      (auto intro!: holds_ret prepend split: sum.splits)
  show ?thesis
  proof -
    have "holds (\<lambda>r s'. r \<noteq> Some 0 \<longrightarrow> server_inv s') impossible no_overflow (read_stage env nread base) s"
      using False assms by (intro read_stage_step) auto
    then show ?thesis
      unfolding JsonRPC_HandleRead_def if_not_P [OF False]
      by (intro holds_bind, elim holds_weaken) (auto intro!: holds_ret plain split: option.splits)
  qed
qed

lemma server_inv_new: "server_inv (JsonRPCServer_new db rpc ssl_cfg)"
  by (simp add: server_inv_def inv_defs JsonRPCServer_new_def buffer_ok_def)

lemma served_inv:
  assumes "served env m c" "env_ok env"
  shows "case c of Open s \<Rightarrow> server_inv s | Closed s \<Rightarrow> jr_ssl s = None \<and> jr_buf s = None"
  using assms(1)
proof induction
  case (accepted db rpc ssl_cfg)
  show ?case by (simp add: server_inv_new)
next
  case (read c c')
  from read.hyps(2) show ?case
  proof cases
    case (goes_on base nread s r s')
    then show ?thesis
      using HandleRead_step [OF _ assms(2), of s nread base m] read.IH by (auto simp: holds_def)
  next
    case (ends base nread s s')
    then show ?thesis by (simp add: JsonRPC_End_def)
  next
    case (others s rpc db)
    then show ?thesis using read.IH by (simp add: server_inv_def inv_defs)
  qed
qed

end
