(* ===== verification/Requests.thy ===== *)
theory Requests
  imports JsonRPCServer
begin

section \<open>What a client of the server sees\<close>

text \<open>
  The state of a connection between reads, the requests a read is split into, requests that arrive in
  pieces, and the replies. The hypotheses are the documented behaviour of the libraries, \<open>env_ok\<close> for
  mbed TLS and \<^verbatim>\<open>malloc\<close> and \<open>json_laws\<close> for the JSON library.
\<close>

subsection \<open>The state between reads\<close>

lemma served_server_inv: "served env m (Open s) \<Longrightarrow> env_ok env \<Longrightarrow> server_inv s"
  by (drule (1) served_inv) simp

lemma server_inv_state:
  assumes "server_inv s"
  shows "0 \<le> jr_offset s \<and> jr_offset s \<le> jr_len s \<and> jr_len s \<le> JSONRPC_MAX_BUFFER + JSONRPC_BUFF_LEN - 1"
    "case jr_buf s of None \<Rightarrow> jr_len s = 0 | Some b \<Rightarrow> jr_len s \<le> int (length b)"
    "jr_state s \<in> {START, NORMAL} \<and> jr_ssl s = None \<or> jr_state s \<in> {SSL_NORMAL OR SSL_HANDSHAKE, SSL_NORMAL} \<and> jr_ssl s \<noteq> None"
    "jr_ssl_buf s = None \<longleftrightarrow> jr_ssl_buf_len s = 0"
  using assms
  by (auto simp: server_inv_def inv_defs buffer_ok_def tls_ok_def JSONRPC_MAX_BUFFER_def JSONRPC_BUFF_LEN_def
      split: option.splits)

subsection \<open>Complete lines\<close>

text \<open>
  What the loop over the lines amounts to: the requests are handled in order until one throws.
\<close>

fun handle_all ::
  "('j, 'h, 'e, 'c, 'm) server_env_scheme \<Rightarrow> ('s, 'r) mbedtls \<Rightarrow> 'j list \<Rightarrow> int \<Rightarrow> (int, 'j, 'h, 'e, 'c) handler" where
  "handle_all env m [] r = ret r"
| "handle_all env m (req # reqs) r =
     (\<lambda>s. case HandleCommand env m req s of
        Val _ s' \<Rightarrow> handle_all env m reqs r s'
      | Exc s' \<Rightarrow> Val 0 s'
      | Fault e \<Rightarrow> Fault e)"

definition text_of :: "byte list list \<Rightarrow> byte list" where
  "text_of lns = concat (map (\<lambda>l. l @ [JSONRPC_DELIM]) lns)"

definition line_ok :: "byte list \<Rightarrow> bool" where
  "line_ok l \<longleftrightarrow> JSONRPC_DELIM \<notin> set l \<and> 0 \<notin> set l"

lemma text_of_simps [simp]: "text_of [] = []" "text_of (l # lns) = l @ JSONRPC_DELIM # text_of lns"
  by (simp_all add: text_of_def)

lemma delim_nonzero [simp]: "JSONRPC_DELIM \<noteq> 0"
  by (simp add: JSONRPC_DELIM_def)

lemma parse_again_line:
  assumes "line_ok l" "nj_parse env l = Some req"
  shows "parse_again env m nread (l @ JSONRPC_DELIM # rest) n s =
    (case HandleCommand env m req s of
       Val _ s' \<Rightarrow> if int (length l) < nread - 1 then parse_again env m nread rest (n - (int (length l) + 1)) s' else Val 1 s'
     | Exc s' \<Rightarrow> Val 0 s'
     | Fault e \<Rightarrow> Fault e)"
  using assms
  by (simp add: parse_again.simps [of env m nread "l @ JSONRPC_DELIM # rest"] line_ok_def strchr_found
      bindA_def catchA_def or_throw_def ret_def split: outcome.splits)

lemma parse_again_end: "parse_again env m nread (0 # rest) 0 s = Val 0 s"
  by (simp add: parse_again.simps [of env m nread "0 # rest"] JSONRPC_DELIM_def AppendBuffer_def)

lemma parse_again_lines:
  assumes "list_all2 (\<lambda>l req. line_ok l \<and> nj_parse env l = Some req) lns reqs"
    and "\<forall>l \<in> set lns. int (length l) < nread - 1"
  shows "parse_again env m nread (text_of lns @ 0 # rest) (int (length (text_of lns))) s = handle_all env m reqs 0 s"
  using assms
proof (induction lns reqs arbitrary: s rule: list_all2_induct)
  case Nil
  then show ?case by (simp add: parse_again_end ret_def)
next
  case (Cons l lns req reqs)
  then show ?case
    by (simp add: parse_again_line split: outcome.splits)
qed

lemma text_of_length: "l \<in> set lns \<Longrightarrow> length l < length (text_of lns)"
  by (induction lns) auto

lemma text_of_longer: "l \<in> set lns \<Longrightarrow> 2 \<le> length lns \<Longrightarrow> length l + 1 < length (text_of lns)"
proof (induction lns)
  case (Cons a lns)
  then obtain b lns' where "lns = b # lns'" by (cases lns) auto
  with Cons.prems show ?case using text_of_length [of l lns] by auto
qed simp

text \<open>A read on a plain connection without an unfinished request.\<close>

lemma plain_read:
  assumes "jr_state s = NORMAL \<or> jr_state s = START \<and> \<not> IsTLSClientHello nread base" "jr_offset s = 0" "0 < nread"
  shows "JsonRPC_HandleRead env m nread base s = lines_stage env m nread base nread (s\<lparr>jr_state := NORMAL\<rparr>)"
proof -
  note defs = JsonRPC_HandleRead_def read_stage_def plain_stage_def prepend_stage_def first_read_def flag_def
    flag_defs bindA_def read_state_def modify_def ret_def
  from assms(1) show ?thesis
  proof
    assume normal: "jr_state s = NORMAL"
    then have "s\<lparr>jr_state := NORMAL\<rparr> = s" by simp
    then show ?thesis using normal assms(2,3) by (simp only:) (simp add: defs)
  next
    assume "jr_state s = START \<and> \<not> IsTLSClientHello nread base"
    then show ?thesis using assms(2,3) by (simp add: defs)
  qed
qed

lemma lines_stage_text:
  assumes "0 \<in> set mem" "take 3 mem \<noteq> to_bytes ''GET''"
  shows "lines_stage env m nread mem n = parse_again env m nread mem n"
proof -
  have "0 \<notin> set (to_bytes ''GET'')" "length (to_bytes ''GET'') = 3" by (simp_all add: to_bytes_def)
  then have "strstr mem (to_bytes ''GET'') \<noteq> None" "strstr mem (to_bytes ''GET'') \<noteq> Some (Some 0)"
    using assms strstr_nul [OF assms(1)] strstr_zero [of mem "to_bytes ''GET''"] by simp_all
  then show ?thesis by (auto simp: lines_stage_def)
qed

lemma read_lines_eq:
  assumes plain: "jr_state s = NORMAL \<or> jr_state s = START \<and> \<not> IsTLSClientHello nread base" "jr_offset s = 0"
    and base: "base = text_of lns @ 0 # rest" "nread = int (length (text_of lns))" "take 3 base \<noteq> to_bytes ''GET''"
    and lns: "lns \<noteq> []" "list_all2 (\<lambda>l req. line_ok l \<and> nj_parse env l = Some req) lns reqs"
  shows "JsonRPC_HandleRead env m nread base s =
    handle_all env m reqs (if length lns = 1 then 1 else 0) (s\<lparr>jr_state := NORMAL\<rparr>)"
proof -
  have "0 < nread" using base(2) lns(1) by (cases lns) auto
  then have read: "JsonRPC_HandleRead env m nread base s = parse_again env m nread base nread (s\<lparr>jr_state := NORMAL\<rparr>)"
    using plain_read [OF plain] base by (simp add: lines_stage_text)
  show ?thesis
  proof (cases "length lns = 1")
    case True
    then obtain l where l: "lns = [l]" by (cases lns) auto
    with lns(2) obtain req where req: "reqs = [req]" "line_ok l" "nj_parse env l = Some req"
      by (auto simp: list_all2_Cons1)
    have whole: "base = l @ JSONRPC_DELIM # 0 # rest" "nread = 1 + int (length l)"
      using base(1,2) l by simp_all
    show ?thesis
      unfolding read unfolding whole using req l by (simp add: parse_again_line ret_def split: outcome.splits)
  next
    case False
    then have "2 \<le> length lns" using lns(1) by (cases lns rule: remdups_adj.cases) auto
    then have "\<forall>l \<in> set lns. int (length l) < nread - 1"
      using text_of_longer base(2) by fastforce
    then show ?thesis
      unfolding read unfolding base(1) unfolding base(2) using parse_again_lines [OF lns(2), of "int (length (text_of lns))"] False base(2)
      by simp
  qed
qed

subsection \<open>A request in two reads\<close>

text \<open>
  The first part of a request, which ends nowhere in its block, is put into the buffer; the memory it
  is put into behind it does not matter, as the next read copies \<open>jr_offset\<close> bytes of it.
\<close>

lemma server_inv_normal:
  "server_inv s \<Longrightarrow> jr_state s = START \<or> jr_state s = NORMAL \<Longrightarrow> server_inv (s\<lparr>jr_state := NORMAL\<rparr>)"
  by (auto simp: server_inv_def inv_defs mode_distinct [symmetric])

lemma ensure_space_succeeds:
  assumes "buffer_inv s" "0 < n" "jr_offset s + n + 1 \<le> JSONRPC_MAX_BUFFER"
    and "\<And>n. n < 17408 \<Longrightarrow> env_malloc env n \<noteq> None"
  obtains t b where "ensure_space env n s = Some t" "jr_buf t = Some b"
proof (cases "n + jr_offset s > jr_len s")
  case True
  define m where "m = jr_offset s + n + 1"
  have "m + (m mod JSONRPC_BUFF_LEN) \<le> 17407" "\<not> m > JSONRPC_MAX_BUFFER"
    using assms(3) by (simp_all add: m_def JSONRPC_MAX_BUFFER_def JSONRPC_BUFF_LEN_def)
  moreover from this(1) have "nat (m + (m mod JSONRPC_BUFF_LEN)) < 17408" by linarith
  then obtain block where "env_malloc env (nat (m + (m mod JSONRPC_BUFF_LEN))) = Some block"
    using assms(4) by blast
  ultimately show thesis
    using True by (cases "jr_buf s") (auto simp: ensure_space_def Let_def m_def [symmetric] intro: that)
next
  case False
  then have "jr_buf s \<noteq> None" using assms(1,2) by (auto simp: buffer_inv_def buffer_ok_def split: option.splits)
  with False show thesis by (auto simp: ensure_space_def intro: that)
qed

lemma buffered_part:
  assumes served: "server_inv s0" "env_ok env"
    and plain: "jr_state s0 = NORMAL \<or> jr_state s0 = START \<and> \<not> IsTLSClientHello nread base" "jr_offset s0 = 0"
    and part: "line_ok a" "a \<noteq> []" "base = a @ 0 # rest" "nread = int (length a)" "take 3 base \<noteq> to_bytes ''GET''"
    and room: "nread + 1 \<le> JSONRPC_MAX_BUFFER" "\<And>n. n < 17408 \<Longrightarrow> env_malloc env n \<noteq> None"
  shows "\<exists>t b. JsonRPC_HandleRead env m nread base s0 = Val 1 t \<and> server_inv t \<and> jr_buf t = Some b
    \<and> jr_offset t = nread \<and> jr_state t = NORMAL \<and> take (length a) b = a \<and> only_buffer (s0\<lparr>jr_state := NORMAL\<rparr>) t"
proof -
  define s where "s = s0\<lparr>jr_state := NORMAL\<rparr>"
  have inv: "server_inv s" and off: "jr_offset s = 0"
    using server_inv_normal [of s0] served plain by (auto simp: s_def)
  have pos: "0 < nread" using part by simp
  have "JsonRPC_HandleRead env m nread base s0 = lines_stage env m nread base nread s"
    unfolding s_def by (rule plain_read [OF plain pos])
  also have "\<dots> = parse_again env m nread base nread s"
    using part by (simp add: lines_stage_text)
  also have "\<dots> = AppendBuffer env nread base s"
    using part by (simp add: parse_again.simps [of _ _ _ "a @ 0 # rest"] strchr_absent line_ok_def)
  finally have read: "JsonRPC_HandleRead env m nread base s0 = AppendBuffer env nread base s" .
  have binv: "buffer_inv s" using inv by (simp add: server_inv_def)
  obtain u b where u: "ensure_space env nread s = Some u" and b: "jr_buf u = Some b"
    by (rule ensure_space_succeeds [OF binv pos]) (use room off in auto)
  have "jr_buf u \<noteq> None" using b by simp
  note u_facts = ensure_space_step [OF binv served(2) pos u this]
  have len: "jr_len u \<le> int (length b)" using u_facts(1) b by (simp add: buffer_inv_def buffer_ok_def)
  let ?t = "u\<lparr>jr_buf := Some (take (nat nread) base @ drop (nat nread) b), jr_offset := nread\<rparr>"
  have val: "AppendBuffer env nread base s = Val 1 ?t"
    using pos u b len u_facts(3,4) off part by (simp add: AppendBuffer_def)
  have "nread \<le> int (length base)" using part by simp
  from HandleRead_step [OF served this, of m] have "server_inv ?t" unfolding holds_def read val by simp
  then show ?thesis
    unfolding read val s_def [symmetric] using part u_facts(2) by (intro exI [of _ ?t]) (auto simp: only_buffer_def s_def)
qed

text \<open>The next read sees the whole request, in a block of exactly its size.\<close>

definition joined :: "('j, 'h, 'e, 'c, 'm) server_env_scheme \<Rightarrow> byte list \<Rightarrow> byte list option" where
  "joined env bs = map_option (overwrite_front bs) (env_malloc env (length bs))"

lemma read_behind_part:
  assumes inv: "server_inv t" and buf: "jr_buf t = Some b" "jr_offset t = int (length a)" "a \<noteq> []"
    "take (length a) b = a" "jr_state t = NORMAL"
    and nread: "0 < nread" "nread \<le> int (length base)"
    and mem: "joined env (a @ take (nat nread) base) = Some mem"
  shows "JsonRPC_HandleRead env m nread base t =
    lines_stage env m nread mem (int (length a) + nread) (t\<lparr>jr_offset := 0\<rparr>)"
proof -
  have "int (length a) \<le> int (length b)"
    using inv buf by (simp add: server_inv_def buffer_inv_def buffer_ok_def)
  moreover have "nat (nread + int (length a)) = length a + nat nread" "min (length base) (nat nread) = nat nread"
    using nread by simp_all
  ultimately show ?thesis
    using buf nread mem
    by (auto simp: JsonRPC_HandleRead_def read_stage_def plain_stage_def prepend_stage_def flag_def
        flag_defs bindA_def read_state_def ret_def joined_def Let_def add.commute)
qed

lemma split_line:
  assumes inv: "server_inv t" and buf: "jr_buf t = Some b" "jr_offset t = int (length a)" "a \<noteq> []"
    "take (length a) b = a" "jr_state t = NORMAL"
    and line: "line_ok (a @ c)" "base = c @ JSONRPC_DELIM # rest" "nread = int (length c) + 1"
      "take 3 (a @ base) \<noteq> to_bytes ''GET''" "nj_parse env (a @ c) = Some req"
    and nul: "joined env (a @ c @ [JSONRPC_DELIM]) = Some mem" "0 \<in> set mem"
  shows "JsonRPC_HandleRead env m nread base t = handle_all env m [req] 1 (t\<lparr>jr_offset := 0\<rparr>)"
proof -
  have "take (nat nread) base = c @ [JSONRPC_DELIM]" using line(2,3) by (simp add: nat_add_distrib)
  then have read: "JsonRPC_HandleRead env m nread base t =
      lines_stage env m nread mem (int (length a) + nread) (t\<lparr>jr_offset := 0\<rparr>)"
    using line(2,3) nul(1) by (intro read_behind_part [OF inv buf]) simp_all
  obtain tl where mem: "mem = (a @ c) @ JSONRPC_DELIM # tl"
    using nul(1) by (auto simp: joined_def overwrite_front_def)
  have "take 3 mem \<noteq> to_bytes ''GET''"
  proof
    assume get: "take 3 mem = to_bytes ''GET''"
    have "JSONRPC_DELIM \<notin> set (to_bytes ''GET'')" "length (to_bytes ''GET'') = 3"
      by (simp_all add: to_bytes_def JSONRPC_DELIM_def)
    moreover have "JSONRPC_DELIM \<in> set (take 3 mem)" if "\<not> 3 \<le> length (a @ c)"
      unfolding mem using that by (simp add: take_Cons')
    ultimately have "3 \<le> length (a @ c)" using get by fastforce
    with get line(2,4) show False unfolding mem by simp
  qed
  then have "lines_stage env m nread mem n s = parse_again env m nread mem n s" for n s
    by (simp add: lines_stage_text [OF nul(2)])
  moreover have "\<not> int (length (a @ c)) < nread - 1" using line(3) by simp
  ultimately show ?thesis
    unfolding read mem using line(1,5) by (simp add: parse_again_line ret_def del: append_assoc split: outcome.splits)
qed

text \<open>When \<^verbatim>\<open>malloc\<close> gives exactly what is asked for and the request has no capital G, the search for
  \<open>GET\<close> runs past the end of the block.\<close>

lemma split_line_leaves:
  assumes inv: "server_inv t" and buf: "jr_buf t = Some b" "jr_offset t = int (length a)" "a \<noteq> []"
    "take (length a) b = a" "jr_state t = NORMAL"
    and nread: "0 < nread" "nread \<le> int (length base)"
    and exact: "env_malloc env (length a + nat nread) = Some block" "length block = length a + nat nread"
    and no_G: "0 \<notin> set (a @ take (nat nread) base)" "of_nat (code CHR ''G'') \<notin> set (a @ take (nat nread) base)"
  shows "JsonRPC_HandleRead env m nread base t = Fault Out_of_bounds"
proof -
  have "length (a @ take (nat nread) base) = length a + nat nread" using nread by simp
  then have mem: "joined env (a @ take (nat nread) base) = Some (a @ take (nat nread) base)"
    unfolding joined_def overwrite_front_def by (simp add: exact)
  have "strstr (a @ take (nat nread) base) (to_bytes ''GET'') = None"
    using strstr_leaves [OF no_G] by (simp add: to_bytes_def)
  then show ?thesis
    using read_behind_part [OF inv buf nread mem, of m] by (simp add: lines_stage_def fault_def)
qed

subsection \<open>Replies\<close>

text \<open>A reply is one line: an object with the request's identifier and either a result or an error.\<close>

definition is_reply :: "('j, 'h, 'e, 'c, 'm) server_env_scheme \<Rightarrow> int \<Rightarrow> byte list \<Rightarrow> bool" where
  "is_reply env i bs \<longleftrightarrow> (\<exists>j d. nj_dump env j = Some d \<and> bs = d @ [JSONRPC_DELIM]
     \<and> nj_at env j ''id'' = Some (nj_int env i) \<and> nj_at env j ''jsonrpc'' = Some (nj_string env ''2.0'')
     \<and> (nj_at env j ''result'' = None \<longleftrightarrow> nj_at env j ''error'' \<noteq> None))"

text \<open>Actions that send nothing, and those that send one reply and return zero when they return.\<close>

definition silent :: "('a, 'j, 'h, 'e, 'c) handler \<Rightarrow> bool" where
  "silent act \<longleftrightarrow> (\<forall>s. holds (\<lambda>_ s'. jr_sent s' = jr_sent s) (\<lambda>_. True) (\<lambda>_. True) act s)"

definition replies :: "('j, 'h, 'e, 'c, 'm) server_env_scheme \<Rightarrow> int \<Rightarrow> (int, 'j, 'h, 'e, 'c) handler \<Rightarrow> bool" where
  "replies env i act \<longleftrightarrow> (\<forall>s. holds (\<lambda>r s'. r = 0 \<and> (\<exists>bs. jr_sent s' = jr_sent s @ [bs] \<and> is_reply env i bs))
     (\<lambda>_. True) (\<lambda>_. True) act s)"

named_theorems silent_rules \<open>actions that send nothing\<close>

lemma silent_basic [silent_rules]:
  "silent (ret x)" "silent (or_throw v)" "silent (or_fault e v)"
  by (auto simp: silent_def intro!: holds_rules)

lemma silent_on [silent_rules]: "silent (on_rpc act)" "silent (on_db act')"
  by (auto simp: silent_def holds_def on_rpc_def on_db_def split: option.splits outcome.splits)

lemma silent_if [silent_rules]: "(b \<Longrightarrow> silent x) \<Longrightarrow> (\<not> b \<Longrightarrow> silent y) \<Longrightarrow> silent (if b then x else y)"
  by simp

lemma silent_bind [silent_rules]:
  assumes "silent act" "\<And>x. silent (f x)"
  shows "silent (bindA act f)"
  unfolding silent_def
proof
  fix s :: "('a, 'b, 'c, 'd) JsonRPCServer"
  show "holds (\<lambda>_ s'. jr_sent s' = jr_sent s) (\<lambda>_. True) (\<lambda>_. True) (bindA act f) s"
  proof (cases "act s")
    case (Val x t)
    then have "jr_sent t = jr_sent s" using assms(1) by (auto simp: silent_def holds_def split: outcome.splits)
    moreover have "holds (\<lambda>_ s'. jr_sent s' = jr_sent t) (\<lambda>_. True) (\<lambda>_. True) (f x) t"
      using assms(2) [of x] by (simp add: silent_def)
    ultimately show ?thesis using Val by (simp add: holds_def bindA_def)
  qed (simp_all add: holds_def bindA_def)
qed

lemma silent_number_param [silent_rules]: "silent (number_param n params i)"
  unfolding number_param_def by (auto intro!: silent_rules)

lemma replies_bind:
  assumes "silent act" "\<And>x. replies env i (f x)"
  shows "replies env i (bindA act f)"
  unfolding replies_def
proof
  fix s :: "('a, 'b, 'c, 'd) JsonRPCServer"
  show "holds (\<lambda>r s'. r = 0 \<and> (\<exists>bs. jr_sent s' = jr_sent s @ [bs] \<and> is_reply env i bs)) (\<lambda>_. True) (\<lambda>_. True)
      (bindA act f) s"
  proof (cases "act s")
    case (Val x t)
    then have "jr_sent t = jr_sent s" using assms(1) by (auto simp: silent_def holds_def split: outcome.splits)
    moreover have "holds (\<lambda>r s'. r = 0 \<and> (\<exists>bs. jr_sent s' = jr_sent t @ [bs] \<and> is_reply env i bs))
        (\<lambda>_. True) (\<lambda>_. True) (f x) t"
      using assms(2) [of x] by (simp add: replies_def)
    ultimately show ?thesis using Val by (simp add: holds_def bindA_def)
  qed (simp_all add: holds_def bindA_def)
qed

lemma replies_write:
  assumes "nj_at env j ''id'' = Some (nj_int env i)" "nj_at env j ''jsonrpc'' = Some (nj_string env ''2.0'')"
    "nj_at env j ''result'' = None \<longleftrightarrow> nj_at env j ''error'' \<noteq> None"
  shows "replies env i (bindA (WriteInternal_json env j) (\<lambda>_. ret 0))"
  using assms
  by (auto simp: replies_def holds_def WriteInternal_json_def WriteInternal_bytes_def HandleWrite_def bindA_def
      or_throw_def ret_def fault_def modify_def is_reply_def split: option.splits)

lemma CommandSuccess_reply:
  assumes "json_laws n" "CommandSuccess n i r (nj_null n) w = Val j w'"
  shows "w' = w" "nj_at n j ''id'' = Some (nj_int n i)" "nj_at n j ''jsonrpc'' = Some (nj_string n ''2.0'')"
    "nj_at n j ''result'' = r" "r \<noteq> None" "nj_at n j ''error'' = None"
proof -
  obtain j1 where j1: "nj_set n (nj_null n) ''id'' (nj_int n i) = Some j1" "nj_at n j1 ''id'' = Some (nj_int n i)"
    "\<And>k'. k' \<noteq> ''id'' \<Longrightarrow> nj_at n j1 k' = None" "\<And>k' v'. nj_set n j1 k' v' \<noteq> None"
    by (rule set_on_null [OF assms(1)]) blast
  obtain j2 where j2: "nj_set n j1 ''jsonrpc'' (nj_string n ''2.0'') = Some j2"
    "nj_at n j2 ''jsonrpc'' = Some (nj_string n ''2.0'')"
    "\<And>k'. k' \<noteq> ''jsonrpc'' \<Longrightarrow> nj_at n j2 k' = nj_at n j1 k'" "\<And>k' v'. nj_set n j2 k' v' \<noteq> None"
    by (rule set_again [OF assms(1) j1(4)]) blast
  have null: "nj_clear n (nj_null n) = nj_null n" using assms(1) by (simp add: json_laws_def)
  obtain v where v: "r = Some v" "nj_set n j2 ''result'' v = Some j" "w' = w"
    using assms(2) j1(1) j2(1) null
    by (auto simp: CommandSuccess_def bindA_def or_throw_def split: option.splits)
  obtain j3 where "nj_set n j2 ''result'' v = Some j3" "nj_at n j3 ''result'' = Some v"
    "\<And>k'. k' \<noteq> ''result'' \<Longrightarrow> nj_at n j3 k' = nj_at n j2 k'"
    by (rule set_again [OF assms(1) j2(4)]) blast
  with v j1 j2 show "w' = w" "nj_at n j ''id'' = Some (nj_int n i)" "nj_at n j ''jsonrpc'' = Some (nj_string n ''2.0'')"
    "nj_at n j ''result'' = r" "r \<noteq> None" "nj_at n j ''error'' = None" by simp_all
qed

lemma CommandError_reply:
  assumes "json_laws n"
  shows "\<exists>j e. CommandError n i msg err (nj_null n) w = Val j w \<and> nj_at n j ''id'' = Some (nj_int n i)
    \<and> nj_at n j ''jsonrpc'' = Some (nj_string n ''2.0'') \<and> nj_at n j ''result'' = None \<and> nj_at n j ''error'' = Some e
    \<and> nj_at n e ''message'' = Some (nj_string n msg) \<and> nj_at n e ''code'' = Some (nj_int n err)"
proof -
  obtain j1 where j1: "nj_set n (nj_null n) ''id'' (nj_int n i) = Some j1" "nj_at n j1 ''id'' = Some (nj_int n i)"
    "\<And>k'. k' \<noteq> ''id'' \<Longrightarrow> nj_at n j1 k' = None" "\<And>k' v'. nj_set n j1 k' v' \<noteq> None"
    by (rule set_on_null [OF assms]) blast
  obtain j2 where j2: "nj_set n j1 ''jsonrpc'' (nj_string n ''2.0'') = Some j2"
    "nj_at n j2 ''jsonrpc'' = Some (nj_string n ''2.0'')"
    "\<And>k'. k' \<noteq> ''jsonrpc'' \<Longrightarrow> nj_at n j2 k' = nj_at n j1 k'" "\<And>k' v'. nj_set n j2 k' v' \<noteq> None"
    by (rule set_again [OF assms j1(4)]) blast
  obtain e1 where e1: "nj_set n (nj_null n) ''message'' (nj_string n msg) = Some e1"
    "nj_at n e1 ''message'' = Some (nj_string n msg)" "\<And>k' v'. nj_set n e1 k' v' \<noteq> None"
    by (rule set_on_null [OF assms]) blast
  obtain e where e: "nj_set n e1 ''code'' (nj_int n err) = Some e" "nj_at n e ''code'' = Some (nj_int n err)"
    "\<And>k'. k' \<noteq> ''code'' \<Longrightarrow> nj_at n e k' = nj_at n e1 k'"
    by (rule set_again [OF assms e1(3)]) blast
  obtain j where j: "nj_set n j2 ''error'' e = Some j" "nj_at n j ''error'' = Some e"
    "\<And>k'. k' \<noteq> ''error'' \<Longrightarrow> nj_at n j k' = nj_at n j2 k'"
    by (rule set_again [OF assms j2(4)]) blast
  have null: "nj_clear n (nj_null n) = nj_null n" using assms by (simp add: json_laws_def)
  show ?thesis
    using j1 j2 e1 e j null by (intro exI [of _ j] exI [of _ e]) (simp add: CommandError_def bindA_def or_throw_def)
qed

lemma replies_success:
  fixes env :: "('j, 'h, 'e, 'c, 'm) server_env_scheme"
  assumes "json_laws env"
  shows "replies env i (reply_success env i r)"
  unfolding replies_def
proof
  fix s :: "('j, 'h, 'e, 'c) JsonRPCServer"
  show "holds (\<lambda>r s'. r = 0 \<and> (\<exists>bs. jr_sent s' = jr_sent s @ [bs] \<and> is_reply env i bs)) (\<lambda>_. True) (\<lambda>_. True)
      (reply_success env i r) s"
  proof (cases "CommandSuccess env i r (nj_null env) s")
    case (Val j t)
    note reply = CommandSuccess_reply [OF assms Val]
    from replies_write [OF reply(2,3)] reply show ?thesis
      using Val by (simp add: replies_def reply_success_def bindA_def [of "CommandSuccess env i r (nj_null env)"] holds_def)
  qed (simp_all add: reply_success_def bindA_def holds_def)
qed

lemma replies_error:
  fixes env :: "('j, 'h, 'e, 'c, 'm) server_env_scheme"
  assumes "json_laws env"
  shows "replies env i (reply_error env i msg err)"
  unfolding replies_def
proof
  fix s :: "('j, 'h, 'e, 'c) JsonRPCServer"
  obtain j e where j: "CommandError env i msg err (nj_null env) s = Val j s" "nj_at env j ''id'' = Some (nj_int env i)"
    "nj_at env j ''jsonrpc'' = Some (nj_string env ''2.0'')" "nj_at env j ''result'' = None" "nj_at env j ''error'' = Some e"
    using CommandError_reply [OF assms, where i = i and msg = msg and err = err and w = s] by blast
  show "holds (\<lambda>r s'. r = 0 \<and> (\<exists>bs. jr_sent s' = jr_sent s @ [bs] \<and> is_reply env i bs)) (\<lambda>_. True) (\<lambda>_. True)
      (reply_error env i msg err) s"
    using replies_write [OF j(2,3)] j
    by (simp add: replies_def reply_error_def bindA_def [of "CommandError env i msg err (nj_null env)"] holds_def)
qed

lemma replies_HandleCommand:
  assumes "json_laws env" "\<not> nj_is_null env cmd"
    "Option.bind (nj_member env cmd ''id'') (nj_get_int env) = Some i"
  shows "replies env i (HandleCommand env m cmd)"
proof -
  note rules = replies_bind replies_success [OF assms(1)] replies_error [OF assms(1)] silent_rules
  have "replies env i (handle_block_header env cmd i)" "replies env i (handle_block_headers env cmd i)"
    "replies env i (handle_subscribe env m cmd i)"
    unfolding handle_block_header_def handle_block_headers_def handle_subscribe_def invalid_params_def Let_def
    by (auto intro!: rules)
  then have "replies env i (case CommandMap meth of
        None \<Rightarrow> reply_error env i ''Method not found'' (-32601)
      | Some c \<Rightarrow>
          if c = BCBlockHeader then handle_block_header env cmd i
          else if c = BCBlockHeaders then handle_block_headers env cmd i
          else if c = SHSubscribe then handle_subscribe env m cmd i
          else
            (case [r. Some r \<leftarrow> [bc_result env c, sh_result env c, tx_result env c, sv_result env (env_fmt_n env) c]] of
               r # _ \<Rightarrow> reply_success env i r
             | [] \<Rightarrow> reply_error env i ''Method not implemented'' (-32601)))" for meth
    by (auto intro!: replies_success [OF assms(1)] replies_error [OF assms(1)] split: option.splits list.splits)
  then show ?thesis
    unfolding HandleCommand_def assms(3) using assms(2) by (auto intro!: replies_bind silent_rules simp: action_simps)
qed

subsection \<open>An environment\<close>

text \<open>
  An instance of the libraries for concrete runs: the sample JSON library, an LMDB in memory, a block
  from \<^verbatim>\<open>malloc\<close> with \<open>slack\<close> more bytes of zeros behind it, and a TLS that does not encrypt.
\<close>

definition sample_env :: "nat \<Rightarrow> (jsv, unit, memory, unit) server_env" where
  "sample_env slack = rpc_env.extend (nlohmann.extend sample_json
       \<lparr>http_parser_execute = (\<lambda>h bs. (h, [bs])), http_parser_init = (), rpc_uv_write = (\<lambda>_. 0),
        env_malloc = (\<lambda>n. Some (replicate (n + slack) 0))\<rparr>)
     \<lparr>env_lmdb = memory_lmdb 0, env_fmt_n = decimal,
      env_uv_write = (\<lambda>_. 0), ssl_setup = (), ssl_handshake = (\<lambda>c. Done (0, c)),
      ssl_read = (\<lambda>c n. Recv n (\<lambda>(r, bs). if 0 < r \<and> r \<le> int n \<and> int (length bs) = r then Done (r, bs, c)
        else Done (-26880, [], c))),
      ssl_write = (\<lambda>c bs. Send bs (\<lambda>r. Done (r, c))), ssl_session_reset = (\<lambda>c. c),
      SSL_WANT_READ = -26880, SSL_WANT_WRITE = -26752\<rparr>"

lemmas sample_env_simps = sample_env_def rpc_env.defs nlohmann.defs

lemma env_ok_sample: "env_ok (sample_env k)"
  by (auto simp: env_ok_def sample_env_simps split: if_splits)

lemma json_laws_sample_env: "json_laws (sample_env k)"
  using json_laws_sample by (simp add: json_laws_def sample_env_simps)

lemma sample_env_parse:
  "bs \<noteq> [] \<Longrightarrow> nj_parse (sample_env k) bs = Some (JObj [(''method'', JStr (to_text bs)), (''id'', JNum 7),
     (''params'', JArr [JStr []])])"
  by (simp add: sample_env_simps sample_json_def)

definition sample_conn :: "(jsv, unit, memory, unit) JsonRPCServer" where
  "sample_conn = JsonRPCServer_new (memory_new 0 False) None False"

lemma sample_conn_served: "served (sample_env k) buffering (Open sample_conn)"
  unfolding sample_conn_def by (rule served.accepted)

definition ping :: "byte list" where "ping = to_bytes ''server.ping''"

lemma ping_facts:
  "line_ok ping" "ping \<noteq> []" "length ping = 11"
  "take 3 ping \<noteq> to_bytes ''GET''" "\<not> IsTLSClientHello n (ping @ xs)"
  by (simp_all add: ping_def line_ok_def to_bytes_def JSONRPC_DELIM_def IsTLSClientHello_def)

lemma ping_text: "to_text ping = ''server.ping''"
  by (simp add: ping_def)

lemma sample_ping:
  "HandleCommand (sample_env k) buffering (JObj [(''method'', JStr ''server.ping''), (''id'', JNum 7), (''params'', JArr [JStr []])]) s
    = Val 0 (s\<lparr>jr_sent := jr_sent s @ [to_bytes ''2.07'' @ [JSONRPC_DELIM]]\<rparr>)"
  by (simp add: HandleCommand_def CommandMap_def CommandMap_list_def reply_success_def CommandSuccess_def
      WriteInternal_json_def WriteInternal_bytes_def bindA_def or_throw_def ret_def modify_def Let_def
      sample_env_simps sample_json_def SVPingResponse_to_json_def decimal_def decimal_nat.simps to_bytes_def)

subsection \<open>Properties\<close>

text \<open>(C1) Between the reads of a connection, after any sequence of them, its buffer holds at most the maximum
  and one block, the offset of the unfinished request lies inside it, the connection is in one of its
  four modes and has a TLS context exactly in the two TLS modes, and the pointer to the bytes that are
  offered to mbed TLS is null exactly when their length is zero. (In a TLS mode there may be none.)\<close>

theorem served_connection:
  assumes "served env m (Open s)" "env_ok env"
  shows "0 \<le> jr_offset s \<and> jr_offset s \<le> jr_len s \<and> jr_len s \<le> JSONRPC_MAX_BUFFER + JSONRPC_BUFF_LEN - 1
    \<and> (case jr_buf s of None \<Rightarrow> jr_len s = 0 | Some b \<Rightarrow> jr_len s \<le> int (length b))
    \<and> (jr_state s \<in> {START, NORMAL} \<and> jr_ssl s = None
       \<or> jr_state s \<in> {SSL_NORMAL OR SSL_HANDSHAKE, SSL_NORMAL} \<and> jr_ssl s \<noteq> None)
    \<and> (jr_ssl_buf s = None \<longleftrightarrow> jr_ssl_buf_len s = 0)"
  using server_inv_state [OF served_server_inv [OF assms]] by blast


text \<open>(C3) Complete lines that arrive in one read on a plain connection are handled in order, each once, until a
  request throws, provided a NUL stands in the block right behind the bytes received. (The block comes
  from \<^verbatim>\<open>malloc\<close> and is searched to the first NUL, so that anything else behind them would be taken for
  input.) The read reports success only for a single line; after two or more it returns zero,
  which closes the connection although every request was answered.\<close>

theorem read_lines:
  assumes "served env m (Open s)" "jr_state s = NORMAL \<or> jr_state s = START \<and> \<not> IsTLSClientHello nread base"
    and "jr_offset s = 0" "base = text_of lns @ 0 # rest" "nread = int (length (text_of lns))"
    and "take 3 base \<noteq> to_bytes ''GET''" "lns \<noteq> []"
    and "list_all2 (\<lambda>l req. line_ok l \<and> nj_parse env l = Some req) lns reqs"
  shows "JsonRPC_HandleRead env m nread base s =
    handle_all env m reqs (if length lns = 1 then 1 else 0) (s\<lparr>jr_state := NORMAL\<rparr>)"
  by (rule read_lines_eq [OF assms(2-8)])

text \<open>(C16) A request that arrives in two reads is handled once, as if it had arrived in one, provided a NUL
  stands right behind the first part in the block it was received in, \<^verbatim>\<open>malloc\<close> gives the blocks asked for,
  and a NUL stands somewhere in the block the two parts are joined in.\<close>

theorem split_request:
  assumes "served env m (Open s)" "env_ok env" "jr_state s = NORMAL \<or> jr_state s = START \<and> \<not> IsTLSClientHello n1 base1"
    and "jr_offset s = 0" "base1 = a @ 0 # rest1" "n1 = int (length a)" "base2 = c @ JSONRPC_DELIM # rest2"
    and "n2 = int (length c) + 1" "a \<noteq> []" "line_ok (a @ c)" "n1 + 1 \<le> JSONRPC_MAX_BUFFER"
    and "take 3 base1 \<noteq> to_bytes ''GET''" "take 3 (a @ base2) \<noteq> to_bytes ''GET''"
    and "nj_parse env (a @ c) = Some req" "\<And>n. n < 17408 \<Longrightarrow> env_malloc env n \<noteq> None"
    and "joined env (a @ c @ [JSONRPC_DELIM]) = Some mem" "0 \<in> set mem"
  shows "\<exists>t. JsonRPC_HandleRead env m n1 base1 s = Val 1 t \<and> jr_sent t = jr_sent s
    \<and> JsonRPC_HandleRead env m n2 base2 t = handle_all env m [req] 1 (t\<lparr>jr_offset := 0\<rparr>)"
proof -
  have a: "line_ok a" using assms(10) by (simp add: line_ok_def)
  obtain t b where t: "JsonRPC_HandleRead env m n1 base1 s = Val 1 t" "server_inv t" "jr_buf t = Some b"
    "jr_offset t = n1" "jr_state t = NORMAL" "take (length a) b = a" "only_buffer (s\<lparr>jr_state := NORMAL\<rparr>) t"
    using buffered_part [OF served_server_inv [OF assms(1,2)] assms(2-4) a assms(9,5,6,12,11,15)] by blast
  have "JsonRPC_HandleRead env m n2 base2 t = handle_all env m [req] 1 (t\<lparr>jr_offset := 0\<rparr>)"
    using t assms by (intro split_line [where a = a and c = c and mem = mem]) simp_all
  with t show ?thesis by (auto simp: only_buffer_def)
qed

text \<open>With a \<^verbatim>\<open>malloc\<close> that gives exactly the bytes asked for, the second read of a request that is split
  reads past the end of the joined block: nothing terminates the string that is searched.\<close>

theorem split_request_over_reads:
  assumes "served env m (Open s)" "env_ok env" "jr_state s = NORMAL \<or> jr_state s = START \<and> \<not> IsTLSClientHello n1 base1"
    and "jr_offset s = 0" "base1 = a @ 0 # rest1" "n1 = int (length a)" "a \<noteq> []" "line_ok a" "n1 + 1 \<le> JSONRPC_MAX_BUFFER"
    and "take 3 base1 \<noteq> to_bytes ''GET''" "0 < n2" "n2 \<le> int (length base2)"
    and "\<And>n. \<exists>block. env_malloc env n = Some block \<and> length block = n"
    and "0 \<notin> set (a @ take (nat n2) base2)" "of_nat (code CHR ''G'') \<notin> set (a @ take (nat n2) base2)"
  shows "\<exists>t. JsonRPC_HandleRead env m n1 base1 s = Val 1 t \<and> JsonRPC_HandleRead env m n2 base2 t = Fault Out_of_bounds"
proof -
  obtain t b where t: "JsonRPC_HandleRead env m n1 base1 s = Val 1 t" "server_inv t" "jr_buf t = Some b"
    "jr_offset t = n1" "jr_state t = NORMAL" "take (length a) b = a"
    using buffered_part [OF served_server_inv [OF assms(1,2)] assms(2-4,8,7,5,6,10,9)] assms(13) by blast
  obtain block where "env_malloc env (length a + nat n2) = Some block" "length block = length a + nat n2"
    using assms(13) by blast
  then have "JsonRPC_HandleRead env m n2 base2 t = Fault Out_of_bounds"
    using assms t by (intro split_line_leaves [OF t(2,3) _ assms(7) t(6,5)]) simp_all
  with t(1) show ?thesis by blast
qed

text \<open>(C4) A request object with an identifier, once handled, has been answered by exactly one line: a JSON-RPC
  reply with that identifier and either a result or an error. The other outcomes are exceptions, which
  close the connection, and faults.\<close>

theorem command_answered_once:
  assumes "json_laws env" "\<not> nj_is_null env cmd" "Option.bind (nj_member env cmd ''id'') (nj_get_int env) = Some i"
    and "HandleCommand env m cmd s = Val r t"
  shows "r = 0 \<and> (\<exists>bs. jr_sent t = jr_sent s @ [bs] \<and> is_reply env i bs)"
  using replies_HandleCommand [OF assms(1-3), of m] assms(4) by (auto simp: replies_def holds_def split: outcome.splits)

text \<open>Handling a command, however it ends, leaves the connection as it was: the modes, the TLS context, the
  bytes offered to mbed TLS and the buffer.\<close>

theorem command_keeps_connection:
  assumes "HandleCommand env m cmd s = Val r t \<or> HandleCommand env m cmd s = Exc t"
  shows "jr_state t = jr_state s \<and> jr_ssl t = jr_ssl s \<and> jr_ssl_config t = jr_ssl_config s \<and> jr_ssl_buf t = jr_ssl_buf s
    \<and> jr_ssl_buf_offset t = jr_ssl_buf_offset s \<and> jr_ssl_buf_len t = jr_ssl_buf_len s \<and> jr_buf t = jr_buf s
    \<and> jr_offset t = jr_offset s \<and> jr_len t = jr_len s"
  using quiet_HandleCommand [of env m cmd] assms by (auto simp: quiet_def holds_def conn_part_def split: outcome.splits)

text \<open>A client can stop the server: a subscription to a script hash that is not 32 bytes long fails an
  assertion.\<close>

theorem subscribe_aborts:
  assumes "nj_dump env cmd \<noteq> None" "\<not> nj_is_null env cmd"
    and "Option.bind (nj_member env cmd ''method'') (nj_get_string env) = Some ''blockchain.scripthash.subscribe''"
    and "Option.bind (nj_member env cmd ''id'') (nj_get_int env) = Some i"
    and "nj_member env cmd ''params'' = Some params" "nj_is_array env params" "nj_index env params 0 = Some p"
    and "nj_is_string env p" "nj_get_string env p = Some hash" "length (ParseHex hash) \<noteq> 32"
  shows "HandleCommand env m cmd s = Fault Assertion_failed"
  using assms
  by (auto simp: HandleCommand_def CommandMap_def CommandMap_list_def handle_subscribe_def bindA_def or_throw_def ret_def
      or_fault_def base_blob_of_vec_def Let_def)

subsection \<open>Runs\<close>

lemma sample_conn_facts [simp]:
  "jr_state sample_conn = START" "jr_offset sample_conn = 0" "jr_sent sample_conn = []"
  by (simp_all add: sample_conn_def JsonRPCServer_new_def)

lemma ping_request:
  "nj_parse (sample_env k) ping = Some (JObj [(''method'', JStr ''server.ping''), (''id'', JNum 7), (''params'', JArr [JStr []])])"
  by (simp add: sample_env_parse ping_facts ping_text)

lemma take_ping: "3 \<le> length xs \<Longrightarrow> take 3 (xs @ ys) = take 3 xs"
  by simp

text \<open>The first half of a request is read and waits in the buffer.\<close>

lemma sample_half:
  obtains t where "served (sample_env 1) buffering (Open t)" "jr_offset t = 11"
proof -
  have "\<exists>t b. JsonRPC_HandleRead (sample_env 1) buffering 11 (ping @ 0 # replicate 1012 0) sample_conn = Val 1 t
    \<and> server_inv t \<and> jr_buf t = Some b \<and> jr_offset t = 11 \<and> jr_state t = NORMAL \<and> take (length ping) b = ping
    \<and> only_buffer (sample_conn\<lparr>jr_state := NORMAL\<rparr>) t"
    by (rule buffered_part [OF served_server_inv [OF sample_conn_served env_ok_sample] env_ok_sample])
      (simp_all add: ping_facts JSONRPC_MAX_BUFFER_def sample_env_simps)
  then obtain t where t: "JsonRPC_HandleRead (sample_env 1) buffering 11 (ping @ 0 # replicate 1012 0) sample_conn = Val 1 t"
    "jr_offset t = 11" by blast
  have "serve (sample_env 1) buffering (Open sample_conn) (Open t)"
    by (rule serve.goes_on [OF _ _ t(1)]) (simp_all add: ping_facts)
  with t(2) show thesis by (intro that) (auto intro: served.read sample_conn_served)
qed

theorem served_connection_witness:
  "\<exists>s. served (sample_env 1) buffering (Open s) \<and> jr_offset s = 11 \<and> 11 \<le> jr_len s \<and> jr_len s \<le> 17407"
proof -
  obtain s where s: "served (sample_env 1) buffering (Open s)" "jr_offset s = 11" by (rule sample_half)
  then show ?thesis
    using served_connection [OF s(1) env_ok_sample] by (auto simp: JSONRPC_MAX_BUFFER_def JSONRPC_BUFF_LEN_def)
qed


theorem read_lines_witness:
  "\<exists>t u. JsonRPC_HandleRead (sample_env 0) buffering 12 (text_of [ping] @ 0 # replicate 1011 0) sample_conn = Val 1 t
    \<and> JsonRPC_HandleRead (sample_env 0) buffering 24 (text_of [ping, ping] @ 0 # replicate 999 0) sample_conn = Val 0 u
    \<and> length (jr_sent t) = 1 \<and> length (jr_sent u) = 2"
  using read_lines [OF sample_conn_served [of 0], where lns = "[ping]" and rest = "replicate 1011 0" and
      reqs = "[JObj [(''method'', JStr ''server.ping''), (''id'', JNum 7), (''params'', JArr [JStr []])]]"]
    read_lines [OF sample_conn_served [of 0], where lns = "[ping, ping]" and rest = "replicate 999 0" and
      reqs = "replicate 2 (JObj [(''method'', JStr ''server.ping''), (''id'', JNum 7), (''params'', JArr [JStr []])])"]
  by (simp add: ping_facts ping_request sample_ping numeral_2_eq_2 ret_def)

theorem split_request_witness:
  "\<exists>t u. JsonRPC_HandleRead (sample_env 1) buffering 6 (take 6 ping @ replicate 1018 0) sample_conn = Val 1 t
    \<and> jr_sent t = [] \<and> JsonRPC_HandleRead (sample_env 1) buffering 6 (drop 6 ping @ 10 # replicate 1018 0) t = Val 1 u
    \<and> jr_sent u = [to_bytes ''2.07'' @ [JSONRPC_DELIM]]"
proof -
  have zeros: "replicate 1018 0 = 0 # replicate 1017 (0 :: byte)" by (simp add: numeral_eq_Suc)
  have joined: "joined (sample_env 1) (take 6 ping @ drop 6 ping @ [JSONRPC_DELIM]) = Some (ping @ [JSONRPC_DELIM, 0])"
    "0 \<in> set (ping @ [JSONRPC_DELIM, 0])"
    by (simp_all add: joined_def overwrite_front_def sample_env_simps ping_facts)
  have malloc: "env_malloc (sample_env 1) n \<noteq> None" for n
    by (simp add: sample_env_simps)
  have parsed: "nj_parse (sample_env 1) (take 6 ping @ drop 6 ping) =
      Some (JObj [(''method'', JStr ''server.ping''), (''id'', JNum 7), (''params'', JArr [JStr []])])"
    by (simp add: ping_request)
  have "\<exists>t. JsonRPC_HandleRead (sample_env 1) buffering 6 (take 6 ping @ replicate 1018 0) sample_conn = Val 1 t
    \<and> jr_sent t = jr_sent sample_conn \<and> JsonRPC_HandleRead (sample_env 1) buffering 6 (drop 6 ping @ 10 # replicate 1018 0) t
      = handle_all (sample_env 1) buffering [JObj [(''method'', JStr ''server.ping''), (''id'', JNum 7),
          (''params'', JArr [JStr []])]] 1 (t\<lparr>jr_offset := 0\<rparr>)"
    by (rule split_request [OF sample_conn_served env_ok_sample, where a = "take 6 ping" and c = "drop 6 ping",
          OF _ _ _ _ _ _ _ _ _ _ _ parsed malloc joined])
      (simp_all add: zeros ping_def to_bytes_def line_ok_def JSONRPC_DELIM_def JSONRPC_MAX_BUFFER_def IsTLSClientHello_def)
  then show ?thesis by (auto simp: sample_ping ret_def)
qed

theorem split_request_over_reads_witness:
  "\<exists>t. JsonRPC_HandleRead (sample_env 0) buffering 6 (take 6 ping @ replicate 1018 0) sample_conn = Val 1 t
    \<and> JsonRPC_HandleRead (sample_env 0) buffering 6 (drop 6 ping @ 10 # replicate 1018 0) t = Fault Out_of_bounds"
proof -
  have zeros: "replicate 1018 0 = 0 # replicate 1017 (0 :: byte)" by (simp add: numeral_eq_Suc)
  show ?thesis
    by (rule split_request_over_reads [OF sample_conn_served env_ok_sample, where a = "take 6 ping"])
      (simp_all add: zeros ping_def to_bytes_def line_ok_def JSONRPC_DELIM_def JSONRPC_MAX_BUFFER_def sample_env_simps
        IsTLSClientHello_def)
qed

definition sample_request :: "string \<Rightarrow> string \<Rightarrow> jsv" where
  "sample_request meth p = JObj [(''method'', JStr meth), (''id'', JNum 7), (''params'', JArr [JStr p])]"

lemma sample_request_facts:
  "\<not> nj_is_null (sample_env k) (sample_request meth p)" "nj_dump (sample_env k) (sample_request meth p) \<noteq> None"
  "Option.bind (nj_member (sample_env k) (sample_request meth p) ''id'') (nj_get_int (sample_env k)) = Some 7"
  "Option.bind (nj_member (sample_env k) (sample_request meth p) ''method'') (nj_get_string (sample_env k)) = Some meth"
  "nj_member (sample_env k) (sample_request meth p) ''params'' = Some (JArr [JStr p])"
  "nj_is_array (sample_env k) (JArr xs)" "nj_index (sample_env k) (JArr [JStr p]) 0 = Some (JStr p)"
  "nj_is_string (sample_env k) (JStr p)" "nj_get_string (sample_env k) (JStr p) = Some p"
  by (simp_all add: sample_request_def sample_env_simps sample_json_def)

lemma sample_command:
  "HandleCommand (sample_env k) buffering (sample_request ''server.ping'' []) sample_conn
    = Val 0 (sample_conn\<lparr>jr_sent := [to_bytes ''2.07'' @ [JSONRPC_DELIM]]\<rparr>)"
  by (simp add: sample_request_def sample_ping)

theorem command_answered_once_witness:
  "is_reply (sample_env 0) 7 (to_bytes ''2.07'' @ [JSONRPC_DELIM])"
  using command_answered_once [OF json_laws_sample_env sample_request_facts(1,3) sample_command] by auto

theorem command_keeps_connection_witness:
  "\<exists>t. HandleCommand (sample_env 0) buffering (sample_request ''server.ping'' []) sample_conn = Val 0 t
    \<and> jr_sent t \<noteq> [] \<and> jr_state t = START"
  using command_keeps_connection [OF disjI1 [OF sample_command [of 0]]] sample_command [of 0] by auto

theorem subscribe_aborts_witness:
  "HandleCommand (sample_env 0) buffering (sample_request ''blockchain.scripthash.subscribe'' ''00'') sample_conn
    = Fault Assertion_failed"
  by (rule subscribe_aborts [OF sample_request_facts(2,1,4,3,5,6,7,8,9)]) (code_simp)

end
