(* ===== verification/Server.thy ===== *)
theory Server
  imports Requests
begin

section \<open>The whole server: Config.h, Config.cxx, NetWorker.h, NetWorker.cxx, electrumz.cxx\<close>

text \<open>
  The settings, the object that listens for connections and the start-up. A member without initialiser
  is \<open>None\<close> until it is set; using it before is a fault. Then the connections, which share the client of
  the node and the database, as one system.
\<close>

subsection \<open>Settings\<close>

record Config =
  cfg_host :: string
  cfg_port :: u16
  cfg_rpchost :: string
  cfg_rpc_port :: "u16 option"
  cfg_rpcusername :: string
  cfg_rpcpassword :: string
  cfg_zmqrawtx :: string
  cfg_zmqrawblock :: string
  cfg_ssl_cert :: string
  cfg_ssl_key :: string

definition Config_default :: Config where
  "Config_default =
     \<lparr>cfg_host = ''0.0.0.0'', cfg_port = 5555, cfg_rpchost = [], cfg_rpc_port = None, cfg_rpcusername = [],
      cfg_rpcpassword = [], cfg_zmqrawtx = [], cfg_zmqrawblock = [], cfg_ssl_cert = [], cfg_ssl_key = []\<rparr>"

text \<open>A member of the settings is read when it has the right type and kept otherwise.\<close>

definition get_setting ::
  "('j \<Rightarrow> string \<Rightarrow> 'j option) \<Rightarrow> ('j \<Rightarrow> bool) \<Rightarrow> ('j \<Rightarrow> 'x option) \<Rightarrow> 'j \<Rightarrow> string \<Rightarrow> ('x \<Rightarrow> Config \<Rightarrow> Config) \<Rightarrow> (unit, Config) action" where
  "get_setting member has_type get j key set_member =
     bindA (or_throw (member j key)) (\<lambda>v.
       if has_type v then bindA (or_throw (get v)) (\<lambda>x. modify (set_member x)) else ret ())"

abbreviation string_setting :: "('j, 'm) nlohmann_scheme \<Rightarrow> 'j \<Rightarrow> string \<Rightarrow> (string \<Rightarrow> Config \<Rightarrow> Config) \<Rightarrow> (unit, Config) action" where
  "string_setting n \<equiv> get_setting (nj_member n) (nj_is_string n) (nj_get_string n)"

abbreviation port_setting :: "('j, 'm) nlohmann_scheme \<Rightarrow> 'j \<Rightarrow> string \<Rightarrow> (u16 \<Rightarrow> Config \<Rightarrow> Config) \<Rightarrow> (unit, Config) action" where
  "port_setting n \<equiv> get_setting (nj_member n) (nj_is_number n) (nj_get_ushort n)"

fun in_order :: "(unit, 'w) action list \<Rightarrow> (unit, 'w) action" where
  "in_order [] = ret ()"
| "in_order (m # ms) = bindA m (\<lambda>_. in_order ms)"

definition Config_from_json :: "('j, 'm) nlohmann_scheme \<Rightarrow> byte list \<Rightarrow> (unit, Config) action" where
  "Config_from_json n fi =
     bindA (or_throw (nj_parse n fi)) (\<lambda>j. in_order
       [string_setting n j ''host'' (\<lambda>x. cfg_host_update (\<lambda>_. x)),
        port_setting n j ''port'' (\<lambda>x. cfg_port_update (\<lambda>_. x)),
        string_setting n j ''rpc_host'' (\<lambda>x. cfg_rpchost_update (\<lambda>_. x)),
        port_setting n j ''rpc_port'' (\<lambda>x. cfg_rpc_port_update (\<lambda>_. Some x)),
        string_setting n j ''rpc_username'' (\<lambda>x. cfg_rpcusername_update (\<lambda>_. x)),
        string_setting n j ''rpc_password'' (\<lambda>x. cfg_rpcpassword_update (\<lambda>_. x)),
        string_setting n j ''zmqrawtx'' (\<lambda>x. cfg_zmqrawtx_update (\<lambda>_. x)),
        string_setting n j ''zmqrawblock'' (\<lambda>x. cfg_zmqrawblock_update (\<lambda>_. x)),
        string_setting n j ''ssl_cert'' (\<lambda>x. cfg_ssl_cert_update (\<lambda>_. x)),
        string_setting n j ''ssl_key'' (\<lambda>x. cfg_ssl_key_update (\<lambda>_. x))])"

definition Config_to_json :: "('j, 'm) nlohmann_scheme \<Rightarrow> Config \<Rightarrow> 'j option" where
  "Config_to_json n c =
     Option.bind (nj_set n (nj_null n) ''host'' (nj_string n (cfg_host c))) (\<lambda>j.
     Option.bind (nj_set n j ''port'' (nj_int n (uint (cfg_port c)))) (\<lambda>j.
     Option.bind (nj_set n j ''ssl_cert'' (nj_string n (cfg_ssl_cert c))) (\<lambda>j.
     nj_set n j ''ssl_key'' (nj_string n (cfg_ssl_key c)))))"

text \<open>The file's contents, if it opens. The result is the sample that is written otherwise.\<close>

definition Config_new :: "('j, 'm) nlohmann_scheme \<Rightarrow> byte list option \<Rightarrow> ('j option, Config) action" where
  "Config_new n path =
     (case path of
        Some fi \<Rightarrow> bindA (Config_from_json n fi) (\<lambda>_. ret None)
      | None \<Rightarrow> bindA (read_state (Config_to_json n)) (\<lambda>j. bindA (or_throw j) (\<lambda>j. ret (Some j))))"

subsection \<open>The listener\<close>

text \<open>What the calls of libuv and mbed TLS that the constructor makes return.\<close>

record start_calls =
  sc_loop_init :: int
  sc_tcp_init :: int
  sc_ip4_addr :: int
  sc_crt_parse :: int
  sc_key_parse :: int
  sc_rpc_connect :: "int \<times> int \<times> int"

text \<open>\<open>nw_ssl_config\<close> is \<open>Some True\<close> for a configuration, \<open>Some False\<close> for the null pointer.\<close>

record ('j, 'h) NetWorker =
  nw_cfg :: Config
  nw_rpcClient :: "('j, 'h) RPCClient option"
  nw_ssl_enabled :: "bool option"
  nw_ssl_config :: "bool option"

definition NetWorker_blank :: "Config \<Rightarrow> ('j, 'h) NetWorker" where
  "NetWorker_blank cfg = \<lparr>nw_cfg = cfg, nw_rpcClient = None, nw_ssl_enabled = None, nw_ssl_config = None\<rparr>"

text \<open>The last part of the constructor: \<^verbatim>\<open>&&\<close> only looks at the port when the host is set.\<close>

definition connect_rpc ::
  "('j, 'h, 'm) rpc_env_scheme \<Rightarrow> start_calls \<Rightarrow> (unit, ('j, 'h) NetWorker) action" where
  "connect_rpc env sc =
     bindA (read_state nw_cfg) (\<lambda>cfg.
     if cfg_rpchost cfg = [] then ret ()
     else
       bindA (or_fault Indeterminate_value (cfg_rpc_port cfg)) (\<lambda>port.
       if port \<noteq> 0 \<and> cfg_rpcusername cfg \<noteq> [] \<and> cfg_rpcpassword cfg \<noteq> [] then
         let c = RPCClient_new env (cfg_rpchost cfg) (ucast port) (cfg_rpcusername cfg) (cfg_rpcpassword cfg);
             (e1, e2, e3) = sc_rpc_connect sc
         in modify (\<lambda>w. w\<lparr>nw_rpcClient := Some (RPC_Connect e1 e2 e3 c)\<rparr>)
       else ret ()))"

definition NetWorker_init ::
  "('j, 'h, 'm) rpc_env_scheme \<Rightarrow> start_calls \<Rightarrow> (unit, ('j, 'h) NetWorker) action" where
  "NetWorker_init env sc =
     (if sc_loop_init sc \<noteq> 0 then ret ()
      else if sc_tcp_init sc \<noteq> 0 then ret ()
      else if sc_ip4_addr sc \<noteq> 0 then ret ()
      else
        bindA (read_state nw_cfg) (\<lambda>cfg.
        if cfg_ssl_cert cfg \<noteq> [] \<and> cfg_ssl_key cfg \<noteq> [] then
          bindA (modify (\<lambda>w. w\<lparr>nw_ssl_config := Some True\<rparr>)) (\<lambda>_.
          if sc_crt_parse sc \<noteq> 0 then ret ()
          else if sc_key_parse sc \<noteq> 0 then ret ()
          else bindA (modify (\<lambda>w. w\<lparr>nw_ssl_enabled := Some True\<rparr>)) (\<lambda>_. connect_rpc env sc))
        else bindA (modify (\<lambda>w. w\<lparr>nw_ssl_config := Some False\<rparr>)) (\<lambda>_. connect_rpc env sc)))"

text \<open>A new connection: \<^verbatim>\<open>uv_accept\<close> and what it returned, then the server of the connection.\<close>

definition OnConnect ::
  "int \<Rightarrow> int \<Rightarrow> 'e \<Rightarrow> (('j, 'h, 'e, 'c) JsonRPCServer option, ('j, 'h) NetWorker) action" where
  "OnConnect status uv_accept db =
     (if status < 0 then ret None
      else if uv_accept = 0 then
        bindA (read_state (\<lambda>w. (nw_rpcClient w, nw_ssl_config w))) (\<lambda>(rpc, ssl).
        bindA (or_fault Indeterminate_value rpc) (\<lambda>rpc. bindA (or_fault Indeterminate_value ssl) (\<lambda>ssl.
          ret (Some (JsonRPCServer_new db (Some rpc) ssl)))))
      else ret None)"

subsection \<open>Start-up\<close>

text \<open>The part of \<^verbatim>\<open>main\<close> that uses the database: zero is the exit status, \<open>None\<close> goes on.\<close>

definition main_database :: "'e lmdb \<Rightarrow> (int option, 'e) action" where
  "main_database L =
     bindA (TXODB_Open L ''db'') (\<lambda>err. if err \<noteq> 0 then ret (Some 0) else
     bindA (GetTXOStats L DBI_TXO) (\<lambda>(err, stat). if err \<noteq> 0 then ret (Some 0) else
     bindA (used stat) (\<lambda>_.
     bindA (GetTXOStats L DBI_ADDR) (\<lambda>(err, stat). if err \<noteq> 0 then ret (Some 0) else
     bindA (used stat) (\<lambda>_.
     bindA (GetTXOStats L DBI_BLK) (\<lambda>(err, stat). if err \<noteq> 0 then ret (Some 0) else
     bindA (used stat) (\<lambda>_. ret None)))))))"

text \<open>What asking for the statistics leaves behind.\<close>

lemma main_database_creates:
  assumes L: "lmdb_laws L V" and opened: "TXODB_Open L ''db'' e = Val 0 e0" and main: "main_database L e = Val None e'"
    and lost: "lost V e' = lost V e0"
  shows "committed V e' = open_db DBI_BLK False (open_db DBI_ADDR False (open_db DBI_TXO False (committed V e0)))"
proof -
  obtain e1 e2 s1 s2 s3 where stats: "GetTXOStats L DBI_TXO e0 = Val (0, Some s1) e1"
    "GetTXOStats L DBI_ADDR e1 = Val (0, Some s2) e2" "GetTXOStats L DBI_BLK e2 = Val (0, Some s3) e'"
    using main by (auto simp: main_database_def bindA_def opened ret_def or_fault_def
        split: outcome.splits prod.splits if_splits option.splits)
  have "lost V e1 = lost V e0 \<and> lost V e2 = lost V e1 \<and> lost V e' = lost V e2"
    using stats_create(1) [OF L _ stats(1)] stats_create(1) [OF L _ stats(2)] stats_create(1) [OF L _ stats(3)] lost by simp
  then show ?thesis
    using stats_create(2) [OF L _ stats(1)] stats_create(2) [OF L _ stats(2)] stats_create(2) [OF L _ stats(3)] by simp
qed

subsection \<open>The system of connections\<close>

text \<open>
  The connections, accepted in order, share one client of the node and one database. A read of a
  connection runs its server on the shared parts and leaves what it made of them; in between the client
  connects and receives.
\<close>

record ('j, 'h, 'e, 'c) system =
  sys_rpc :: "('j, 'h) RPCClient"
  sys_db :: 'e
  sys_conns :: "('j, 'h, 'e, 'c) connection list"

definition on_shared :: "('j, 'h, 'e, 'c) system \<Rightarrow> ('j, 'h, 'e, 'c) JsonRPCServer \<Rightarrow> ('j, 'h, 'e, 'c) JsonRPCServer" where
  "on_shared S s = s\<lparr>jr_rpc := Some (sys_rpc S), jr_db := sys_db S\<rparr>"

definition after_read ::
  "('j, 'h, 'e, 'c) system \<Rightarrow> nat \<Rightarrow> int \<Rightarrow> ('j, 'h, 'e, 'c) JsonRPCServer \<Rightarrow> ('j, 'h, 'e, 'c) system" where
  "after_read S i r s =
     \<lparr>sys_rpc = (case jr_rpc s of Some c \<Rightarrow> c | None \<Rightarrow> sys_rpc S), sys_db = jr_db s,
      sys_conns = (sys_conns S)[i := if r \<noteq> 0 then Open s else Closed (JsonRPC_End s)]\<rparr>"

inductive sys_step ::
  "('j, 'h, 'e, 'c, 'm) server_env_scheme \<Rightarrow> ('s, 'r) mbedtls \<Rightarrow> ('j, 'h, 'e, 'c) system \<Rightarrow> ('j, 'h, 'e, 'c) system \<Rightarrow> bool"
  for env m where
  accept: "sys_step env m S (S\<lparr>sys_conns := sys_conns S @ [Open (JsonRPCServer_new (sys_db S) (Some (sys_rpc S)) ssl)]\<rparr>)"
| read: "i < length (sys_conns S) \<Longrightarrow> sys_conns S ! i = Open s \<Longrightarrow> length base = 1024 \<Longrightarrow> nread \<le> 1024
    \<Longrightarrow> JsonRPC_HandleRead env m nread base (on_shared S s) = Val r s' \<Longrightarrow> sys_step env m S (after_read S i r s')"
| client: "rpc_step env (sys_rpc S) c \<Longrightarrow> sys_step env m S (S\<lparr>sys_rpc := c\<rparr>)"

inductive sys_reachable ::
  "('j, 'h, 'e, 'c, 'm) server_env_scheme \<Rightarrow> ('s, 'r) mbedtls \<Rightarrow> ('j, 'h, 'e, 'c) system \<Rightarrow> bool" for env m where
  start: "sys_reachable env m \<lparr>sys_rpc = RPCClient_new env addr port username password, sys_db = db, sys_conns = []\<rparr>"
| step: "sys_reachable env m S \<Longrightarrow> sys_step env m S S' \<Longrightarrow> sys_reachable env m S'"

inductive_cases sys_stepE: "sys_step env m S S'"

subsection \<open>What a read does to the client of the node\<close>

text \<open>A read uses the shared client only by sending queries: its steps are the client's own.\<close>

definition rpc_after ::
  "('j, 'h, 'm) rpc_env_scheme \<Rightarrow> ('j, 'h, 'e, 'c) JsonRPCServer \<Rightarrow> ('j, 'h, 'e, 'c) JsonRPCServer \<Rightarrow> bool" where
  "rpc_after env s s' \<longleftrightarrow>
     (case jr_rpc s of None \<Rightarrow> jr_rpc s' = None | Some c \<Rightarrow> \<exists>c'. jr_rpc s' = Some c' \<and> (rpc_step env)\<^sup>*\<^sup>* c c')"

lemma rpc_after_same: "jr_rpc s' = jr_rpc s \<Longrightarrow> rpc_after env s s'"
  by (auto simp: rpc_after_def split: option.splits)

lemma rpc_after_trans: "rpc_after env s s' \<Longrightarrow> rpc_after env s' s'' \<Longrightarrow> rpc_after env s s''"
  by (auto simp: rpc_after_def split: option.splits)

definition calm :: "('j, 'h, 'e, 'c, 'm) server_env_scheme \<Rightarrow> ('a, 'j, 'h, 'e, 'c) handler \<Rightarrow> bool" where
  "calm env act \<longleftrightarrow> (\<forall>s. holds (\<lambda>_. rpc_after env s) (rpc_after env s) (\<lambda>_. True) act s)"

named_theorems calm_rules \<open>actions that only send queries\<close>

lemma calm_bind [calm_rules]:
  fixes env :: "('j, 'h, 'e, 'c, 'm) server_env_scheme" and act :: "('a, 'j, 'h, 'e, 'c) handler"
  assumes "calm env act" "\<And>x. calm env (f x)"
  shows "calm env (bindA act f)"
  unfolding calm_def
proof
  fix s :: "('j, 'h, 'e, 'c) JsonRPCServer"
  show "holds (\<lambda>_. rpc_after env s) (rpc_after env s) (\<lambda>_. True) (bindA act f) s"
  proof (cases "act s")
    case (Val x t)
    then have "rpc_after env s t" using assms(1) by (auto simp: calm_def holds_def split: outcome.splits)
    moreover have "holds (\<lambda>_. rpc_after env t) (rpc_after env t) (\<lambda>_. True) (f x) t" using assms(2) by (simp add: calm_def)
    ultimately show ?thesis
      using Val by (auto simp: holds_def bindA_def split: outcome.splits intro: rpc_after_trans)
  qed (use assms(1) in \<open>auto simp: calm_def holds_def bindA_def split: outcome.splits\<close>)
qed

lemma calm_catch [calm_rules]:
  fixes env :: "('j, 'h, 'e, 'c, 'm) server_env_scheme" and act :: "('a, 'j, 'h, 'e, 'c) handler"
  assumes "calm env act" "calm env h"
  shows "calm env (catchA act h)"
  unfolding calm_def
proof
  fix s :: "('j, 'h, 'e, 'c) JsonRPCServer"
  show "holds (\<lambda>_. rpc_after env s) (rpc_after env s) (\<lambda>_. True) (catchA act h) s"
  proof (cases "act s")
    case (Exc t)
    then have "rpc_after env s t" using assms(1) by (auto simp: calm_def holds_def split: outcome.splits)
    moreover have "holds (\<lambda>_. rpc_after env t) (rpc_after env t) (\<lambda>_. True) h t" using assms(2) by (simp add: calm_def)
    ultimately show ?thesis
      using Exc by (auto simp: holds_def catchA_def split: outcome.splits intro: rpc_after_trans)
  qed (use assms(1) in \<open>auto simp: calm_def holds_def catchA_def split: outcome.splits\<close>)
qed

lemma calm_keeps:
  assumes "\<And>s. holds (\<lambda>_ s'. jr_rpc s' = jr_rpc s) (\<lambda>s'. jr_rpc s' = jr_rpc s) (\<lambda>_. True) act s"
  shows "calm env act"
  unfolding calm_def using assms by (intro allI holds_weaken [OF assms]) (auto intro: rpc_after_same)

lemma calm_basic [calm_rules]:
  "calm env (ret x)" "calm env (or_throw v)" "calm env (or_fault e v)" "calm env (fault e)" "calm env (read_state g)"
  by (rule calm_keeps; auto intro!: holds_rules)+

lemma calm_modify [calm_rules]: "(\<And>s. jr_rpc (h s) = jr_rpc s) \<Longrightarrow> calm env (modify h)"
  by (rule calm_keeps) (auto intro!: holds_rules)

lemma calm_if [calm_rules]: "(b \<Longrightarrow> calm env x) \<Longrightarrow> (\<not> b \<Longrightarrow> calm env y) \<Longrightarrow> calm env (if b then x else y)"
  by simp

lemma calm_on_db [calm_rules]: "calm env (on_db act)"
  by (rule calm_keeps) (auto simp: holds_def on_db_def split: outcome.splits)

lemma calm_query [calm_rules]: "calm env (on_rpc (Query_args env meth args))"
  unfolding calm_def
proof
  fix s
  show "holds (\<lambda>_. rpc_after env s) (rpc_after env s) (\<lambda>_. True) (on_rpc (Query_args env meth args)) s"
    by (auto simp: holds_def on_rpc_def rpc_after_def Query_args_def split: option.splits outcome.splits
        intro: r_into_rtranclp rpc_step.query rpc_step.query_throws)
qed

lemma calm_write [calm_rules]: "calm env (WriteInternal_bytes env' bs)" "calm env (WriteInternal_json env' j)"
  unfolding WriteInternal_json_def WriteInternal_bytes_def Let_def HandleWrite_def
  by (auto intro!: calm_rules)

lemma calm_replies [calm_rules]: "calm env (reply_error env' i msg err)" "calm env (reply_success env' i r)"
  unfolding reply_error_def reply_success_def CommandError_def CommandSuccess_def by (auto intro!: calm_rules)

lemma calm_number_param [calm_rules]: "calm env (number_param n params i)"
  unfolding number_param_def by (auto intro!: calm_rules)

lemma calm_HandleCommand [calm_rules]: "calm env (HandleCommand env m cmd)"
proof -
  have "calm env (handle_block_header env cmd i)" "calm env (handle_block_headers env cmd i)"
    "calm env (handle_subscribe env m cmd i)" for i
    unfolding handle_block_header_def handle_block_headers_def handle_subscribe_def invalid_params_def Let_def
    by (auto intro!: calm_rules)
  then show ?thesis
    unfolding HandleCommand_def by (auto intro!: calm_rules split: option.splits list.splits)
qed

lemma calm_run_bio [calm_rules]: "calm env (run_bio env' b)"
proof (induction b)
  case (Recv n k)
  have "calm env (bio_recv env' n)"
    by (rule calm_keeps) (auto simp: holds_def bio_recv_def Let_def split: option.splits)
  with Recv show ?case by (auto intro!: calm_rules)
qed (auto intro!: calm_rules)

lemma calm_with_ssl [calm_rules]: "calm env (with_ssl env' f)"
  unfolding with_ssl_def by (auto intro!: calm_rules split: prod.splits)

lemma calm_TryHandshake [calm_rules]: "calm env (TryHandshake env')"
  unfolding TryHandshake_def by (auto intro!: calm_rules)

lemma calm_AppendBuffer [calm_rules]: "calm env (AppendBuffer env' n src)"
  by (rule calm_keeps) (auto simp: holds_def AppendBuffer_def ensure_space_def Let_def split: option.splits if_splits)

lemma calm_stages [calm_rules]:
  "calm env (read_stage env' nread base)" "calm env (plain_stage env' nread base)" "calm env (prepend_stage env' mem n)"
proof -
  show "calm env (read_stage env' nread base)"
    unfolding read_stage_def first_read_def present_def InitTLSContext_def
    by (auto intro!: calm_rules split: prod.splits)
  show "calm env (plain_stage env' nread base)"
    unfolding plain_stage_def Let_def by (auto intro!: calm_rules split: prod.splits)
  show "calm env (prepend_stage env' mem n)"
    by (rule calm_keeps) (auto simp: holds_def prepend_stage_def Let_def split: option.splits)
qed

lemma calm_parse_again [calm_rules]: "calm env (parse_again env m nread mem n)"
proof (induction env m nread mem n rule: parse_again.induct)
  case (1 env m nread mem n)
  then show ?case
    by (subst parse_again.simps) (auto intro!: calm_rules split: option.splits)
qed

lemma calm_HandleRead: "calm env (JsonRPC_HandleRead env m nread base)"
  unfolding JsonRPC_HandleRead_def lines_stage_def JsonRPC_Write_def
  by (auto intro!: calm_rules split: option.splits sum.splits prod.splits)

subsection \<open>Invariants of the system\<close>

lemma rpc_reachable_steps: "(rpc_step env)\<^sup>*\<^sup>* c c' \<Longrightarrow> rpc_reachable env c \<Longrightarrow> rpc_reachable env c'"
  by (induction rule: rtranclp_induct) (auto intro: rpc_reachable.step)

text \<open>Seen from a connection, what the others do to the shared parts is a step of its environment.\<close>

lemma sys_read_served:
  assumes "served env m (Open s)" "length base = 1024" "nread \<le> 1024"
    "JsonRPC_HandleRead env m nread base (on_shared S s) = Val r s'"
  shows "served env m (if r \<noteq> 0 then Open s' else Closed (JsonRPC_End s'))"
proof -
  have "served env m (Open (on_shared S s))"
    unfolding on_shared_def by (rule served.read [OF assms(1) serve.others])
  moreover have "serve env m (Open (on_shared S s)) (if r \<noteq> 0 then Open s' else Closed (JsonRPC_End s'))"
    using assms(2-4) by (auto intro: serve.goes_on serve.ends)
  ultimately show ?thesis by (rule served.read)
qed

lemma sys_read_rpc:
  assumes "JsonRPC_HandleRead env m nread base (on_shared S s) = Val r s'"
  obtains c where "jr_rpc s' = Some c" "(rpc_step env)\<^sup>*\<^sup>* (sys_rpc S) c"
proof -
  have "rpc_after env (on_shared S s) s'"
    using calm_HandleRead [of env m nread base, unfolded calm_def, rule_format, of "on_shared S s"] assms
    by (simp add: holds_def)
  then show thesis by (auto simp: rpc_after_def on_shared_def intro: that)
qed

lemma sys_reachable_parts:
  assumes "sys_reachable env m S"
  shows "rpc_reachable env (sys_rpc S) \<and> (\<forall>c \<in> set (sys_conns S). served env m c)"
  using assms
proof induction
  case (start addr port username password db)
  show ?case by (simp add: rpc_reachable.start)
next
  case (step S S')
  from step.hyps(2) show ?case
  proof (rule sys_stepE)
    fix ssl assume "S' = S\<lparr>sys_conns := sys_conns S @ [Open (JsonRPCServer_new (sys_db S) (Some (sys_rpc S)) ssl)]\<rparr>"
    with step.IH show ?thesis by (simp add: served.accepted)
  next
    fix i s base nread r s'
    assume S': "S' = after_read S i r s'" and i: "i < length (sys_conns S)" "sys_conns S ! i = Open s"
      and run: "length base = 1024" "nread \<le> 1024" "JsonRPC_HandleRead env m nread base (on_shared S s) = Val r s'"
    have "Open s \<in> set (sys_conns S)" using i by (metis nth_mem)
    with step.IH have "served env m (if r \<noteq> 0 then Open s' else Closed (JsonRPC_End s'))"
      by (intro sys_read_served [OF _ run]) blast
    moreover obtain c where "jr_rpc s' = Some c" "(rpc_step env)\<^sup>*\<^sup>* (sys_rpc S) c" by (rule sys_read_rpc [OF run(3)])
    ultimately show ?thesis
      using step.IH rpc_reachable_steps unfolding S' after_read_def
      by (auto dest!: set_update_subset_insert [THEN subsetD])
  next
    fix c assume "S' = S\<lparr>sys_rpc := c\<rparr>" "rpc_step env (sys_rpc S) c"
    with step.IH show ?thesis by (auto intro: rpc_reachable.step)
  qed
qed

subsection \<open>Properties\<close>

lemma connect_rpc_missing:
  assumes "connect_rpc env sc w = Val () w'" "nw_rpcClient w = None"
    and "cfg_rpchost (nw_cfg w) = [] \<or> cfg_rpc_port (nw_cfg w) = Some 0 \<or> cfg_rpcusername (nw_cfg w) = [] \<or> cfg_rpcpassword (nw_cfg w) = []"
  shows "nw_rpcClient w' = None"
  using assms
  by (auto simp: connect_rpc_def bindA_def read_state_def or_fault_def ret_def split: if_splits option.splits)

lemma NetWorker_init_missing:
  assumes "NetWorker_init env sc (NetWorker_blank cfg) = Val () w"
    and "cfg_rpchost cfg = [] \<or> cfg_rpc_port cfg = Some 0 \<or> cfg_rpcusername cfg = [] \<or> cfg_rpcpassword cfg = []"
  shows "nw_rpcClient w = None"
  using assms connect_rpc_missing [of env sc _ w]
  by (auto simp: NetWorker_init_def NetWorker_blank_def bindA_def read_state_def modify_def ret_def split: if_splits)

text \<open>(C40) Without the details of the node in the settings the constructor of the listener leaves the pointer to
  the client unset, and every connection that is accepted is given that pointer.\<close>

theorem missing_rpc_details:
  assumes "NetWorker_init env sc (NetWorker_blank cfg) = Val () w"
    and "cfg_rpchost cfg = [] \<or> cfg_rpc_port cfg = Some 0 \<or> cfg_rpcusername cfg = [] \<or> cfg_rpcpassword cfg = []"
    and "0 \<le> status"
  shows "OnConnect status 0 db w = Fault Indeterminate_value"
  using NetWorker_init_missing [OF assms(1,2)] assms(3)
  by (simp add: OnConnect_def bindA_def read_state_def or_fault_def)

text \<open>The settings of a first start, when there is no file yet.\<close>

theorem missing_rpc_details_witness:
  "\<exists>j w. Config_new (sample_env 0) None Config_default = Val j Config_default
    \<and> NetWorker_init (sample_env 0) \<lparr>sc_loop_init = 0, sc_tcp_init = 0, sc_ip4_addr = 0, sc_crt_parse = 0, sc_key_parse = 0,
        sc_rpc_connect = (0, 0, 0)\<rparr> (NetWorker_blank Config_default) = Val () w
    \<and> OnConnect 0 0 (memory_new 0 False) w = (Fault Indeterminate_value ::
        ((jsv, unit, memory, unit) JsonRPCServer option, (jsv, unit) NetWorker) outcome)"
proof -
  let ?sc = "\<lparr>sc_loop_init = 0, sc_tcp_init = 0, sc_ip4_addr = 0, sc_crt_parse = 0, sc_key_parse = 0, sc_rpc_connect = (0, 0, 0)\<rparr>"
  let ?w = "(NetWorker_blank Config_default :: (jsv, unit) NetWorker)\<lparr>nw_ssl_config := Some False\<rparr>"
  have w: "NetWorker_init (sample_env 0) ?sc (NetWorker_blank Config_default) = Val () ?w"
    by (simp add: NetWorker_init_def connect_rpc_def NetWorker_blank_def Config_default_def bindA_def read_state_def modify_def ret_def)
  obtain j where j: "Config_new (sample_env 0) None Config_default = Val j Config_default"
    by (simp add: Config_new_def Config_to_json_def sample_env_simps sample_json_def bindA_def read_state_def or_throw_def ret_def)
  have "cfg_rpchost Config_default = []" by (simp add: Config_default_def)
  with missing_rpc_details [OF w, where status = 0 and db = "memory_new 0 False"]
  have "OnConnect 0 0 (memory_new 0 False) ?w = (Fault Indeterminate_value ::
        ((jsv, unit, memory, unit) JsonRPCServer option, (jsv, unit) NetWorker) outcome)" by simp
  with w j show ?thesis by blast
qed

end
