(* ===== verification/Spec2Isabelle.thy ===== *)
theory Spec2Isabelle
  imports Streams Block KeyIO Wrappers PreloadThreads Server
begin

text \<open>
  A verification library of electrumz, an Electrum server for a Bitcoin node written in C++.

  \<^bold>\<open>The program.\<close> \<^verbatim>\<open>main\<close> (src/src/electrumz.cxx) reads the settings (util/Config.cxx), opens the LMDB
  database of transaction outputs (blockchain/TXODB.cxx) and then either fills it from the block files of
  Bitcoin Core (\<^verbatim>\<open>TXODB::PreLoadBlocks\<close>) or serves clients. The server is a \<^verbatim>\<open>NetWorker\<close> (net/NetWorker.cxx)
  with one event loop. It holds a \<^verbatim>\<open>RPCClient\<close> (net/RPCClient.cxx), a connection to the node over HTTP, and for
  every accepted connection creates a \<^verbatim>\<open>JsonRPCServer\<close> (net/JsonRPCServer.cxx), which cuts what it reads into
  lines of JSON, or into HTTP requests, with or without TLS, and answers the commands of the Electrum protocol
  (electrum/Commands.cxx) from the client of the node and the database. The objects in the block files are
  read and hashed by code taken from Bitcoin Core (include/electrumz/bitcoin, blockchain/bitcoin).

  \<^bold>\<open>The theories\<close>, in the order of their imports, with the code they model:
  \<^item> \<open>Prelude\<close>: machine words, their bytes in memory, the collections of rules.
  \<^item> \<open>Endian\<close>: compat_byteswap.h, comapt_endian.h, crypto_common.h; the locale \<open>endian_host\<close>.
  \<^item> \<open>Serialize\<close>: serialize.h. A serialiser is the list of its calls on the stream, a deserialiser a program
    of reads; the locales \<open>codec\<close> and \<open>strict_codec\<close> say what the two promise together.
  \<^item> \<open>Streams\<close>: streams.h, one record and one function per member for each class; the locale
    \<open>byte_source\<close> is what deserialisers need of a stream.
  \<^item> \<open>StrEncodings\<close>: util_strencodings.h and strencodings.cpp; the locales \<open>base_conversion\<close> and \<open>base_text\<close>.
  \<^item> \<open>Uint256\<close>, \<open>Hash\<close>, \<open>Script\<close>: uint256.h and .cpp, hash.h (the digests of mbed TLS are a parameter; the
    locale \<open>hasher\<close>), script.h and script.cpp.
  \<^item> \<open>Transaction\<close>, \<open>Block\<close>: amount.h, version.h, transaction.h and .cpp, block.h and .cpp.
  \<^item> \<open>Base58\<close>, \<open>Bech32\<close>, \<open>KeyIO\<close>: the files of these names.
  \<^item> \<open>Runtime\<close>: the actions of the server: state, exceptions and faults (undefined behaviour).
  \<^item> \<open>Prevector\<close>, \<open>Wrappers\<close>: prevector.h, with the locale \<open>list_vector\<close>, and the rest of serialize.h.
  \<^item> \<open>TXODB\<close>: TXO.h, TXODB.h, TXODB.cxx without \<^verbatim>\<open>PreLoadBlocks\<close> but for the storing of a block; LMDB is the
    parameter \<open>lmdb\<close>.
    Its documented promises are the predicate \<open>lmdb_laws\<close>: what a transaction, a put and a commit do to the
    committed and the pending rows, where every call may fail, and a put may find the map full or the pair there.
  \<^item> \<open>Preload\<close>, \<open>PreloadThreads\<close>: \<^verbatim>\<open>PreLoadBlocks\<close>, its loop over a file and its threads. A thread that finds no
    file left flows off the end of a function with a result: that is the fault \<open>Missing_return\<close>.
  \<^item> \<open>Commands\<close>, \<open>RPCClient\<close>, \<open>JsonRPCServer\<close>: Commands.h and .cxx, RPCClient.h and .cxx,
    JsonRPCServer.h and .cxx, with the JSON library, the HTTP parser, libuv, \<^verbatim>\<open>malloc\<close> and mbed TLS as parameters.
  \<^item> \<open>Requests\<close>: no code of its own: what a client of a connection sees.
  \<^item> \<open>Server\<close>: Config.h and .cxx, NetWorker.h and .cxx, electrumz.cxx, and the connections, the shared client
    and the database as one system of steps.

  \<^bold>\<open>What is shown.\<close>
  \<^item> Encodings. The readers of compact sizes, variable-length integers, transactions, base 64, base 58 with
    checksum and bech32 accept exactly the texts the writers produce, or the formats written out beside
    them, and give back what was written; a single wrong character of a bech32 text is always found.
    Chunked and ring-buffered reading equals reading a list of bytes, on every stream.
  \<^item> Objects. Whatever is read from any bytes is well formed; scripts are classified as the standard
    templates say; value sums are exact, refused, or overflow just where it is said; the small vector behaves
    as a list.
  \<^item> Loading, for every LMDB that keeps its promises and whichever of its calls fail. A block whose commit
    succeeds has been added to the committed rows as its specification says, and one that is given up has
    changed nothing; a block file stores the blocks that its bytes hold, damaged or not; the threads of the
    first pass, however they interleave, add blocks of the files one after the other, each at most as often
    as it is there, and all of them when no call but \<^verbatim>\<open>MDB_MAP_FULL\<close> fails. Loading ends, but not well: every thread that meets no error ends in undefined behaviour, as does the
    use of a cursor that could not be opened; and after the start-up of a new database the index of scripts
    keeps one outpoint per script.
  \<^item> Serving. In every reachable state of a connection, and of the whole system, the buffers are bounded, and no
    read copies outside a block of memory. (The searches for a line can leave one: see
    \<open>split_request_over_reads\<close>.) Requests are handled in order, also when they arrive in pieces, as long as a
    NUL ends the memory that is searched, and each is answered exactly once; pending queries to the node are
    exactly the unanswered ones, and an answer reaches the caller that asked. Where the code does not do what
    it means to, the theorem says what it does: a read with two requests, a wrong script hash, settings
    without a node.

  \<^bold>\<open>Termination and bounds.\<close> No definition uses fuel. A loop of the code whose end depends on a file or on LMDB
  (\<open>store_block\<close>, \<open>load_file\<close>, the reading loops of \<^verbatim>\<open>CBufferedFile\<close>) is a \<open>partial_function\<close> into \<open>option\<close>, where
  \<open>None\<close> is not to return, and its end is a theorem: for \<open>store_block\<close> because every retry follows a larger map
  and a map of \<open>limit\<close> bytes is not reported full (\<open>map_limit\<close>), for files because every turn reads at least eight
  bytes or comes to the end of the file. A call of LMDB itself is taken to come back. Files shorter than \<open>2 ^ 63\<close> bytes keep the 64-bit positions of the ring buffer
  from wrapping; small vectors of fewer than \<open>2 ^ 30\<close> elements keep the growth of their capacity within 32
  bits; the identifiers of queries are distinct for \<open>2 ^ 32\<close> queries.

  \<^bold>\<open>Not modelled\<close>, and why.
  \<^item> \<^verbatim>\<open>ParseDouble\<close> and \<^verbatim>\<open>atoi\<close> are calls of the C and C++ libraries; the conversions of \<^verbatim>\<open>float\<close> and
    \<^verbatim>\<open>double\<close> reinterpret their bits.
  \<^item> The \<^verbatim>\<open>ToString\<close> functions hand \<^verbatim>\<open>std::string\<close> objects to \<^verbatim>\<open>snprintf\<close>, which is undefined.
  \<^item> Iterators, destructors, move constructors and smart-pointer forwarders have no effect on the values
    here; an allocator that overwrites freed memory (zeroafterfree.h, cleanse.cpp) has none a caller sees.
  \<^item> The body of \<^verbatim>\<open>InternalSpendTXO\<close> is a comment in the source; CommandSerializer.h only declares.
  \<^item> The command line, the log messages, the counters of \<^verbatim>\<open>PreLoadBlocks\<close> and the three libuv calls of
    \<^verbatim>\<open>NetWorker::Work\<close> are input and output.
  \<^item> Memory is a list of bytes per block. \<^verbatim>\<open>malloc\<close> and \<^verbatim>\<open>realloc\<close> of the server and of the client of the node
    may give a null pointer, depending on the size that is asked for, and where \<^verbatim>\<open>prevector\<close> asks for memory in
    vain its assertion fails; the exhaustion of memory in \<^verbatim>\<open>new\<close> and in the containers is not modelled.
\<close>

section \<open>Properties that span components\<close>

text \<open>(C2) In every reachable state of the whole server, after any interleaving of accepted connections, reads on
  any of them, and what happens to the client of the node: every open connection's buffer is bounded and
  its offset inside it, its TLS context exists exactly in the TLS modes; and, below \<open>2 ^ 32\<close> queries, the
  shared client's map of pending queries holds exactly the unanswered ones.\<close>

theorem system_invariant:
  assumes "sys_reachable env m S" "env_ok env" "length (rc_promises (sys_rpc S)) \<le> 2 ^ 32"
  shows "(\<forall>i < length (sys_conns S). \<forall>s. sys_conns S ! i = Open s \<longrightarrow>
      0 \<le> jr_offset s \<and> jr_offset s \<le> jr_len s \<and> jr_len s \<le> JSONRPC_MAX_BUFFER + JSONRPC_BUFF_LEN - 1
      \<and> (case jr_buf s of None \<Rightarrow> jr_len s = 0 | Some b \<Rightarrow> jr_len s \<le> int (length b))
      \<and> (jr_state s \<in> {START, NORMAL} \<and> jr_ssl s = None
         \<or> jr_state s \<in> {SSL_NORMAL OR SSL_HANDSHAKE, SSL_NORMAL} \<and> jr_ssl s \<noteq> None))
    \<and> rc_queryMap (sys_rpc S) =
        (\<lambda>i. if unanswered (sys_rpc S) (unat i) then Some (query_of (unat i)) else None)"
proof (intro conjI allI impI)
  note parts = sys_reachable_parts [OF assms(1)]
  show "rc_queryMap (sys_rpc S) = (\<lambda>i. if unanswered (sys_rpc S) (unat i) then Some (query_of (unat i)) else None)"
    using rpc_pending [of env "sys_rpc S"] parts assms(3) by blast
  fix i s assume "i < length (sys_conns S)" "sys_conns S ! i = Open s"
  then have "served env m (Open s)" using parts by (metis nth_mem)
  note inv = server_inv_state [OF served_server_inv [OF this assms(2)]]
  show "0 \<le> jr_offset s" "jr_offset s \<le> jr_len s" "jr_len s \<le> JSONRPC_MAX_BUFFER + JSONRPC_BUFF_LEN - 1"
    "case jr_buf s of None \<Rightarrow> jr_len s = 0 | Some b \<Rightarrow> jr_len s \<le> int (length b)"
    "jr_state s \<in> {START, NORMAL} \<and> jr_ssl s = None
       \<or> jr_state s \<in> {SSL_NORMAL OR SSL_HANDSHAKE, SSL_NORMAL} \<and> jr_ssl s \<noteq> None"
    using inv by blast+
qed

text \<open>Two connections are accepted, and one of them has sent the first part of a request.\<close>

theorem system_invariant_witness:
  "\<exists>S s. sys_reachable (sample_env 1) buffering S \<and> length (sys_conns S) = 2 \<and> sys_conns S ! 1 = Open s
    \<and> jr_offset s = 11 \<and> 11 \<le> jr_len s \<and> jr_len s \<le> 17407 \<and> rc_queryMap (sys_rpc S) 0 = None"
proof -
  let ?rpc = "RPCClient_new (sample_env 1) [] 0 [] [] :: (jsv, unit) RPCClient"
  let ?new = "JsonRPCServer_new (memory_new 0 False) (Some ?rpc) False :: (jsv, unit, memory, unit) JsonRPCServer"
  let ?A = "\<lparr>sys_rpc = ?rpc, sys_db = memory_new 0 False, sys_conns = []\<rparr> :: (jsv, unit, memory, unit) system"
  let ?S = "?A\<lparr>sys_conns := [Open ?new, Open ?new]\<rparr>"
  have "sys_step (sample_env 1) buffering ?A (?A\<lparr>sys_conns := [Open ?new]\<rparr>)"
    using sys_step.accept [of "sample_env 1" buffering ?A False] by simp
  then have S1: "sys_reachable (sample_env 1) buffering (?A\<lparr>sys_conns := [Open ?new]\<rparr>)"
    by (rule sys_reachable.step [OF sys_reachable.start])
  have "sys_step (sample_env 1) buffering (?A\<lparr>sys_conns := [Open ?new]\<rparr>) ?S"
    using sys_step.accept [of "sample_env 1" buffering "?A\<lparr>sys_conns := [Open ?new]\<rparr>" False] by simp
  then have S: "sys_reachable (sample_env 1) buffering ?S" by (rule sys_reachable.step [OF S1])
  have "\<exists>t b. JsonRPC_HandleRead (sample_env 1) buffering 11 (ping @ 0 # replicate 1012 0) ?new = Val 1 t
    \<and> server_inv t \<and> jr_buf t = Some b \<and> jr_offset t = 11 \<and> jr_state t = NORMAL \<and> take (length ping) b = ping
    \<and> only_buffer (?new\<lparr>jr_state := NORMAL\<rparr>) t"
    by (rule buffered_part [OF served_server_inv [OF served.accepted env_ok_sample] env_ok_sample])
      (simp_all add: ping_facts JSONRPC_MAX_BUFFER_def JsonRPCServer_new_def sample_env_simps)
  then obtain t where t: "JsonRPC_HandleRead (sample_env 1) buffering 11 (ping @ 0 # replicate 1012 0) ?new = Val 1 t"
    "jr_offset t = 11" "jr_rpc t = Some ?rpc" by (auto simp: only_buffer_def JsonRPCServer_new_def)
  have same: "on_shared ?S ?new = ?new" by (simp add: on_shared_def JsonRPCServer_new_def)
  have run: "JsonRPC_HandleRead (sample_env 1) buffering 11 (ping @ 0 # replicate 1012 0) (on_shared ?S ?new) = Val 1 t"
    unfolding same by (rule t(1))
  have "sys_step (sample_env 1) buffering ?S (after_read ?S 1 1 t)"
    by (rule sys_step.read [OF _ _ _ _ run]) (simp_all add: ping_facts)
  then have T: "sys_reachable (sample_env 1) buffering (after_read ?S 1 1 t)" by (rule sys_reachable.step [OF S])
  have conns: "sys_conns (after_read ?S 1 1 t) = [Open ?new, Open t]" "sys_rpc (after_read ?S 1 1 t) = ?rpc"
    using t(3) by (simp_all add: after_read_def)
  have few: "length (rc_promises (sys_rpc (after_read ?S 1 1 t))) \<le> 2 ^ 32"
    unfolding conns by (simp add: RPCClient_new_def)
  note inv = system_invariant [OF T env_ok_sample few, unfolded conns]
  have len: "11 \<le> jr_len t" "jr_len t \<le> 17407"
    using inv [THEN conjunct1, rule_format, of 1 t] t(2) by (simp_all add: JSONRPC_MAX_BUFFER_def JSONRPC_BUFF_LEN_def)
  have none: "rc_queryMap ?rpc 0 = None"
    unfolding inv [THEN conjunct2] by (simp add: unanswered_def RPCClient_new_def)
  show ?thesis
  proof (intro exI conjI)
    show "sys_reachable (sample_env 1) buffering (after_read ?S 1 1 t)" by (rule T)
    show "length (sys_conns (after_read ?S 1 1 t)) = 2" "sys_conns (after_read ?S 1 1 t) ! 1 = Open t"
      unfolding conns by simp_all
    show "rc_queryMap (sys_rpc (after_read ?S 1 1 t)) 0 = None" unfolding conns by (rule none)
  qed (fact t(2) len)+
qed

text \<open>(C24) A new database that \<^verbatim>\<open>main\<close> preloads keeps one outpoint for a script. \<^verbatim>\<open>main\<close> first asks for the statistics of
  the three databases, and \<^verbatim>\<open>GetTXOStats\<close> creates the one it asks about without \<^verbatim>\<open>MDB_DUPSORT\<close>: the flag that
  \<^verbatim>\<open>PreLoadBlocks\<close> opens \<^verbatim>\<open>addr\<close> with comes too late. However the threads of the first pass interleave, whatever
  readable files hold and whichever calls fail from then on, every further outpoint of a script overwrites the
  one before. (The commits of the statistics have succeeded.)\<close>

theorem one_outpoint_per_script:
  assumes "lmdb_laws L V" "TXODB_Open L ''db'' e = Val 0 e0" "committed V e0 = empty_database"
    and "main_database L e = Val None e'" "lost V e' = lost V e0" "\<forall>(name, bf_p) \<in> set path. readable bf_p" "0 < n"
    and "(preload_step L m)\<^sup>*\<^sup>* (preload_start L n path e') P" "pre_mode P = 0"
    and "(''addr'', k, v) \<in> db_rows (committed V (pre_env P))" "(''addr'', k, v') \<in> db_rows (committed V (pre_env P))"
  shows "v = v'"
proof -
  from main_database_creates [OF assms(1,2,4,5)] have
    e': "committed V e' = open_db DBI_BLK False (open_db DBI_ADDR False (open_db DBI_TXO False empty_database))"
    by (simp add: assms(3))
  have "\<not> dup_sorted (committed V e') ''blk''" "one_value ''addr'' (committed V e')"
    unfolding e' by (simp_all add: dup_sorted_def one_value_def open_db_def empty_database_def
        DBI_BLK_def DBI_ADDR_def DBI_TXO_def)
  moreover obtain bs where "committed V (pre_env P) = fold (add_block m 0) bs (committed V e')"
    using first_pass [OF assms(1) calculation(1) assms(6-9) refl] by blast
  ultimately show ?thesis
    using one_value_blocks [of "''addr''" "committed V e'" m 0 bs] assms(10,11) unfolding one_value_def by metis
qed

theorem one_outpoint_per_script_witness:
  "\<exists>e' P txid. main_database (healthy 0) (memory_new 0 False) = Val None e'
    \<and> (preload_step (healthy 0) buffering)\<^sup>*\<^sup>* (preload_start (healthy 0) 3 sample_path e') P
    \<and> {v. (''addr'', blob_data (SHash buffering [0x6a]), v) \<in> db_rows (database_of (mem_main (pre_env P)))}
      = {txid @ le_bytes 4 (0 :: u32)}"
proof -
  let ?e = "memory_new 0 False" and ?k = "blob_data (SHash buffering [0x6a])"
  obtain e0 where e0: "TXODB_Open (healthy 0) ''db'' ?e = Val 0 e0" "mem_main e0 = ([], [])"
    by (cases "0 < MAPSIZE_BASE_UNIT")
      (simp_all add: TXODB_Open_def bindA_def call_def ret_def healthy_def memory_lmdb_def memory_new_def)
  obtain e' where e': "main_database (healthy 0) ?e = Val None e'"
      "mem_main e' = ([(''blk'', False), (''addr'', False), (''txo'', False)], [])"
    using e0 by (simp add: main_database_def bindA_def GetTXOStats_def StartTXOTxn_def call_def ret_def or_fault_def healthy_def
        memory_lmdb_def memory_begin_def store_open_def TXO_OK_def DBI_TXO_def DBI_ADDR_def DBI_BLK_def)
  have blk: "\<not> dup_sorted (committed memory_view e') DBI_BLK" "\<not> dup_sorted (committed memory_view e') ''blk''"
    by (simp_all add: dup_sorted_def e'(2) database_of_def DBI_BLK_def)
  obtain P where P: "(preload_step (healthy 0) buffering)\<^sup>*\<^sup>* (preload_start (healthy 0) 3 sample_path e') P"
    "pre_mode P = 0" "\<forall>t \<in> set (pre_threads P). t = Undefined Missing_return"
    by (rule healthy_first_pass [OF sample_path_readable _ blk(1), of 3 buffering]) simp_all
  obtain bs where bs: "database_of (mem_main (pre_env P)) = fold (add_block buffering 0) bs (database_of (mem_main e'))"
      "mset bs = mset [sample_block, sample_block]"
    using first_pass [OF laws_memory blk(2) sample_path_readable _ P(1,2) sample_path_multiset] P(3) by auto
  have rows: "database_of (mem_main (pre_env P)) =
      add_block buffering 0 sample_block (add_block buffering 0 sample_block (database_of (mem_main e')))"
    using bs(1) mset_same_twice [OF bs(2)] by simp
  define txid where "txid = blob_data (tx_hash (hd (vtx sample_block)))"
  have row: "(''addr'', ?k, txid @ le_bytes 4 (0 :: u32)) \<in> db_rows (database_of (mem_main (pre_env P)))"
    unfolding rows
    by (simp add: add_block_def sample_block_def sample_tx_def txid_def put_row_def same_key_def add_output_def addr_row_def
        txo_row_def CTransaction_of_def Let_def e'(2) database_of_def open_dbs_def open_db_def dup_sorted_def)
  have "v = txid @ le_bytes 4 (0 :: u32)" if "(''addr'', ?k, v) \<in> db_rows (database_of (mem_main (pre_env P)))" for v
    by (rule one_outpoint_per_script [OF laws_memory e0(1) _ e'(1) _ sample_path_readable _ P(1,2)])
      (use that row e0(2) in \<open>simp_all add: database_of_def empty_database_def\<close>)
  with row e'(1) P(1) show ?thesis by blast
qed

end
